(* ===== verification/Prelude.thy ===== *)
theory Prelude
  imports Main "HOL-Library.AList" "HOL-Library.Char_ord" "HOL-Library.List_Lexorder"
    "HOL-Library.Sublist" "HOL-Library.Monad_Syntax"
begin

text \<open>
  What every component shares: the Python exceptions as values and the sum type of a
  fallible call, insertion-ordered dictionaries (\<open>dict\<close>) as association lists, and the
  part of Python's \<open>str\<close>, \<open>bytes\<close> and \<open>int\<close> the program uses.

  Representation. A Python \<open>bytes\<close> value is a HOL string, one \<open>char\<close> per byte. A Python
  \<open>str\<close> is a HOL string too: its UTF-8 encoding (a lone surrogate in its three-byte form), so
  that equality, concatenation, \<open>.encode()\<close> and splitting at ASCII delimiters are those of
  Python. The character classes of \<open>str.strip\<close>, \<open>str.lower\<close> and the regular expressions
  (\<open>\w\<close>, \<open>\d\<close>, \<open>\s\<close>) are the ASCII ones: a code point above 127 is opaque.
\<close>

section \<open>Fallible calls\<close>

datatype py_exc = KeyError | IndexError | ValueError | TypeError | AttributeError
  | RecursionError | OSError | StructError | ParseError | OtherError

type_synonym 'a res = "py_exc + 'a"
type_synonym bytes = string
type_synonym str = string

named_theorems res_simps \<open>evaluation of fallible calls\<close>
named_theorems str_simps \<open>evaluation of string operations\<close>
named_theorems const_defs \<open>the source's constants\<close>

definition rbind :: "'a res \<Rightarrow> ('a \<Rightarrow> 'b res) \<Rightarrow> 'b res" where
  "rbind m f = (case m of Inl e \<Rightarrow> Inl e | Inr x \<Rightarrow> f x)"

lemma rbind_simps [simp, res_simps]:
  "rbind (Inl e) f = Inl e"
  "rbind (Inr x) f = f x"
  by (simp_all add: rbind_def)

lemma rbind_Inr_iff: "rbind m f = Inr y \<longleftrightarrow> (\<exists>x. m = Inr x \<and> f x = Inr y)"
  by (cases m) auto

lemma rbind_Inl_iff: "rbind m f = Inl e \<longleftrightarrow> m = Inl e \<or> (\<exists>x. m = Inr x \<and> f x = Inl e)"
  by (cases m) auto

lemma rbind_cong [fundef_cong]:
  "m = m' \<Longrightarrow> (\<And>x. m' = Inr x \<Longrightarrow> f x = f' x) \<Longrightarrow> rbind m f = rbind m' f'"
  by (cases m) auto

lemma rbind_assoc: "rbind (rbind m f) g = rbind m (\<lambda>x. rbind (f x) g)"
  by (cases m) auto

definition rguard :: "bool \<Rightarrow> py_exc \<Rightarrow> unit res" where
  "rguard b e = (if b then Inr () else Inl e)"

lemma rguard_simps [simp, res_simps]:
  "rguard True e = Inr ()"
  "rguard False e = Inl e"
  by (simp_all add: rguard_def)

lemma rguard_Inr_iff [simp]: "rguard b e = Inr u \<longleftrightarrow> b"
  by (simp add: rguard_def)

fun rtraverse :: "('a \<Rightarrow> 'b res) \<Rightarrow> 'a list \<Rightarrow> 'b list res" where
  "rtraverse f [] = Inr []"
| "rtraverse f (x # xs) = rbind (f x) (\<lambda>y. rbind (rtraverse f xs) (\<lambda>ys. Inr (y # ys)))"

definition res_of_option :: "py_exc \<Rightarrow> 'a option \<Rightarrow> 'a res" where
  "res_of_option e m = (case m of None \<Rightarrow> Inl e | Some x \<Rightarrow> Inr x)"

lemma res_of_option_simps [simp, res_simps]:
  "res_of_option e None = Inl e"
  "res_of_option e (Some x) = Inr x"
  by (simp_all add: res_of_option_def)

lemma res_of_option_Inr_iff [simp]: "res_of_option e m = Inr x \<longleftrightarrow> m = Some x"
  by (cases m) auto

text \<open>The value a \<open>try: ... except Exception: default\<close> leaves.\<close>

definition rdefault :: "'a \<Rightarrow> 'a res \<Rightarrow> 'a" where
  "rdefault d m = (case m of Inl _ \<Rightarrow> d | Inr x \<Rightarrow> x)"

lemma rdefault_simps [simp, res_simps]:
  "rdefault d (Inl e) = d"
  "rdefault d (Inr x) = x"
  by (simp_all add: rdefault_def)

section \<open>Dictionaries\<close>

text \<open>
  A \<open>dict\<close> is an association list in insertion order with distinct keys: assigning to a
  present key keeps its position, a new key goes last.
\<close>

type_synonym ('k, 'v) dict = "('k \<times> 'v) list"

abbreviation dict_get :: "('k, 'v) dict \<Rightarrow> 'k \<Rightarrow> 'v option" where
  "dict_get d k \<equiv> map_of d k"

abbreviation dict_set :: "('k, 'v) dict \<Rightarrow> 'k \<Rightarrow> 'v \<Rightarrow> ('k, 'v) dict" where
  "dict_set d k v \<equiv> AList.update k v d"

abbreviation dict_pop :: "('k, 'v) dict \<Rightarrow> 'k \<Rightarrow> ('k, 'v) dict" where
  "dict_pop d k \<equiv> AList.delete k d"

abbreviation dict_keys :: "('k, 'v) dict \<Rightarrow> 'k list" where
  "dict_keys d \<equiv> map fst d"

abbreviation dict_ok :: "('k, 'v) dict \<Rightarrow> bool" where
  "dict_ok d \<equiv> distinct (map fst d)"

fun dict_update :: "('k, 'v) dict \<Rightarrow> ('k, 'v) dict \<Rightarrow> ('k, 'v) dict" where
  "dict_update d [] = d"
| "dict_update d ((k, v) # e) = dict_update (dict_set d k v) e"

definition dict_of :: "('k \<times> 'v) list \<Rightarrow> ('k, 'v) dict" where
  "dict_of ps = dict_update [] ps"

lemma map_of_dict_set [simp]: "map_of (dict_set d k v) = (map_of d)(k \<mapsto> v)"
  by (rule update_conv')

lemma map_of_dict_pop [simp]: "map_of (dict_pop d k) = (map_of d)(k := None)"
  by (rule delete_conv')

lemma set_keys_dict_set [simp]: "set (dict_keys (dict_set d k v)) = insert k (set (dict_keys d))"
  by (metis dom_map_of_conv_image_fst dom_fun_upd map_of_dict_set option.distinct(1) list.set_map)

lemma fst_image_dict_set [simp]: "fst ` set (dict_set d k v) = insert k (fst ` set d)"
  using set_keys_dict_set [of k v d] by simp

lemma dict_ok_set [simp]: "dict_ok d \<Longrightarrow> dict_ok (dict_set d k v)"
  by (rule distinct_update)

lemma dict_ok_pop [simp]: "dict_ok d \<Longrightarrow> dict_ok (dict_pop d k)"
  by (rule distinct_delete)

lemma map_of_dict_update:
  "dict_ok e \<Longrightarrow> map_of (dict_update d e) = map_of d ++ map_of e"
proof (induction d e rule: dict_update.induct)
  case (1 d)
  then show ?case by simp
next
  case (2 d k v e)
  then have "k \<notin> dom (map_of e)" by (auto simp: dom_map_of_conv_image_fst)
  then have "(map_of d)(k \<mapsto> v) ++ map_of e = map_of d ++ (map_of e)(k \<mapsto> v)"
    by (auto simp: fun_eq_iff map_add_def domIff split: option.splits)
  moreover have "map_of (dict_update (dict_set d k v) e) = (map_of d)(k \<mapsto> v) ++ map_of e"
    using 2 by (metis distinct.simps(2) list.simps(9) map_of_dict_set)
  ultimately show ?case by (metis dict_update.simps(2) fst_conv map_of.simps(2) snd_conv)
qed

lemma dict_ok_update [simp]: "dict_ok d \<Longrightarrow> dict_ok (dict_update d e)"
  by (induction d e rule: dict_update.induct) simp_all

lemma fst_image_dict_update [simp]: "fst ` set (dict_update d e) = fst ` set d \<union> fst ` set e"
  by (induction d e rule: dict_update.induct) auto

lemma dict_set_new: "k \<notin> fst ` set d \<Longrightarrow> dict_set d k v = d @ [(k, v)]"
  by (induction d) auto

lemma dict_set_same: "map_of d k = Some v \<Longrightarrow> dict_set d k v = d"
  by (induction d) auto

lemma dict_update_append_new:
  "distinct (map fst (d @ e)) \<Longrightarrow> dict_update d e = d @ e"
proof (induction d e rule: dict_update.induct)
  case (1 d)
  then show ?case by simp
next
  case (2 d k v e)
  from 2(2) have "k \<notin> fst ` set d" by auto
  then have "dict_set d k v = d @ [(k, v)]" by (rule dict_set_new)
  with 2 show ?case by simp
qed

lemma dict_of_distinct [simp]: "dict_ok ps \<Longrightarrow> dict_of ps = ps"
  by (simp add: dict_of_def dict_update_append_new)

lemma dict_ok_of [simp]: "dict_ok (dict_of ps)"
  by (simp add: dict_of_def)

section \<open>Strings and bytes\<close>

abbreviation code :: "char \<Rightarrow> nat" where
  "code c \<equiv> of_char c"

abbreviation byte_of :: "nat \<Rightarrow> char" where
  "byte_of n \<equiv> char_of n"

definition is_digit :: "char \<Rightarrow> bool" where
  "is_digit c \<longleftrightarrow> 48 \<le> code c \<and> code c \<le> 57"

definition is_lower :: "char \<Rightarrow> bool" where
  "is_lower c \<longleftrightarrow> 97 \<le> code c \<and> code c \<le> 122"

definition is_upper :: "char \<Rightarrow> bool" where
  "is_upper c \<longleftrightarrow> 65 \<le> code c \<and> code c \<le> 90"

definition is_word :: "char \<Rightarrow> bool" where
  "is_word c \<longleftrightarrow> is_digit c \<or> is_lower c \<or> is_upper c \<or> c = CHR ''_''"

definition is_space :: "char \<Rightarrow> bool" where
  "is_space c \<longleftrightarrow> code c = 32 \<or> (9 \<le> code c \<and> code c \<le> 13) \<or> (28 \<le> code c \<and> code c \<le> 31)"

lemmas char_class_defs [str_simps] = is_digit_def is_lower_def is_upper_def is_word_def is_space_def

definition lower_char :: "char \<Rightarrow> char" where
  "lower_char c = (if is_upper c then char_of (code c + 32) else c)"

definition upper_char :: "char \<Rightarrow> char" where
  "upper_char c = (if is_lower c then char_of (code c - 32) else c)"

definition py_lower :: "str \<Rightarrow> str" where
  "py_lower s = map lower_char s"

definition py_upper :: "str \<Rightarrow> str" where
  "py_upper s = map upper_char s"

definition py_strip :: "str \<Rightarrow> str" where
  "py_strip s = rev (dropWhile is_space (rev (dropWhile is_space s)))"

definition py_rstrip_char :: "char \<Rightarrow> str \<Rightarrow> str" where
  "py_rstrip_char c s = rev (dropWhile (\<lambda>x. x = c) (rev s))"

definition startswith :: "str \<Rightarrow> str \<Rightarrow> bool" where
  "startswith s p \<longleftrightarrow> take (length p) s = p"

definition endswith :: "str \<Rightarrow> str \<Rightarrow> bool" where
  "endswith s p \<longleftrightarrow> length p \<le> length s \<and> drop (length s - length p) s = p"

definition replace_char :: "char \<Rightarrow> str \<Rightarrow> str \<Rightarrow> str" where
  "replace_char c r s = concat (map (\<lambda>x. if x = c then r else [x]) s)"

fun split_on :: "char \<Rightarrow> str \<Rightarrow> str list" where
  "split_on c [] = [[]]"
| "split_on c (x # xs) =
     (if x = c then [] # split_on c xs
      else (case split_on c xs of [] \<Rightarrow> [[x]] | y # ys \<Rightarrow> (x # y) # ys))"

fun join :: "str \<Rightarrow> str list \<Rightarrow> str" where
  "join sep [] = []"
| "join sep [x] = x"
| "join sep (x # y # ys) = x @ sep @ join sep (y # ys)"

lemma split_on_not_Nil [simp]: "split_on c s \<noteq> []"
  by (cases s) (auto split: list.splits)

lemma startswith_append [simp]: "startswith (p @ s) p"
  by (simp add: startswith_def)

lemma startswith_iff_prefix: "startswith s p \<longleftrightarrow> prefix p s"
  by (auto simp: startswith_def prefix_def) (metis append_take_drop_id)

lemma startswith_length: "startswith s p \<Longrightarrow> length p \<le> length s"
  by (simp add: startswith_iff_prefix prefix_length_le)

lemma endswith_append [simp]: "endswith (s @ p) p"
  by (simp add: endswith_def)

lemma endswith_iff_suffix: "endswith s p \<longleftrightarrow> suffix p s"
  by (auto simp: endswith_def suffix_def) (metis append_take_drop_id)

text \<open>A continuation byte of UTF-8; \<open>s[:n]\<close> counts code points, not bytes.\<close>

definition is_cont :: "char \<Rightarrow> bool" where
  "is_cont c \<longleftrightarrow> 128 \<le> code c \<and> code c < 192"

fun cp_take :: "nat \<Rightarrow> str \<Rightarrow> str" where
  "cp_take n [] = []"
| "cp_take n (c # cs) =
     (if is_cont c then c # cp_take n cs
      else case n of 0 \<Rightarrow> [] | Suc m \<Rightarrow> c # cp_take m cs)"

text \<open>Python slicing \<open>xs[i:j]\<close> with its treatment of negative and too large bounds.\<close>

definition slice_bound :: "nat \<Rightarrow> int \<Rightarrow> nat" where
  "slice_bound n i = (if i < 0 then nat (int n + i) else min n (nat i))"

definition py_slice :: "'a list \<Rightarrow> int \<Rightarrow> int \<Rightarrow> 'a list" where
  "py_slice xs i j = (let a = slice_bound (length xs) i; b = slice_bound (length xs) j
                      in take (b - a) (drop a xs))"

text \<open>\<open>os.path.join\<close>.\<close>

definition path_join :: "str \<Rightarrow> str \<Rightarrow> str" where
  "path_join a b =
     (if startswith b ''/'' then b
      else if a = [] \<or> last a = CHR ''/'' then a @ b else a @ ''/'' @ b)"

section \<open>Decimal integers\<close>

definition digit_char :: "nat \<Rightarrow> char" where
  "digit_char d = char_of (48 + d)"

definition digit_val :: "char \<Rightarrow> nat" where
  "digit_val c = code c - 48"

fun nat_str :: "nat \<Rightarrow> str" where
  "nat_str n = (if n < 10 then [digit_char n] else nat_str (n div 10) @ [digit_char (n mod 10)])"

declare nat_str.simps [simp del]

definition int_str :: "int \<Rightarrow> str" where
  "int_str i = (if i < 0 then CHR ''-'' # nat_str (nat (- i)) else nat_str (nat i))"

definition digits_val :: "str \<Rightarrow> nat" where
  "digits_val s = foldl (\<lambda>a c. 10 * a + digit_val c) 0 s"

text \<open>\<open>int(s)\<close>: surrounding space, a sign, digits with single underscores between them.\<close>

fun int_digits :: "bool \<Rightarrow> nat \<Rightarrow> str \<Rightarrow> nat option" where
  "int_digits prev acc [] = (if prev then Some acc else None)"
| "int_digits prev acc (c # cs) =
     (if is_digit c then int_digits True (10 * acc + digit_val c) cs
      else if c = CHR ''_'' \<and> prev then int_digits False acc cs
      else None)"

definition py_int :: "str \<Rightarrow> int option" where
  "py_int s = (case py_strip s of
      [] \<Rightarrow> None
    | c # cs \<Rightarrow>
        if c = CHR ''-'' then map_option (\<lambda>n. - int n) (int_digits False 0 cs)
        else if c = CHR ''+'' then map_option int (int_digits False 0 cs)
        else map_option int (int_digits False 0 (c # cs)))"

lemma digit_char_props [simp]:
  assumes "d < 10"
  shows "is_digit (digit_char d)" "digit_val (digit_char d) = d" "code (digit_char d) = 48 + d"
  using assms by (simp_all add: digit_char_def is_digit_def digit_val_def)

lemma nat_str_not_Nil [simp]: "nat_str n \<noteq> []"
  by (subst nat_str.simps) simp

lemma nat_str_digits: "c \<in> set (nat_str n) \<Longrightarrow> is_digit c"
proof (induction n rule: nat_str.induct)
  case (1 n)
  then show ?case by (subst (asm) (2) nat_str.simps) (auto split: if_splits)
qed

lemma digits_val_snoc [simp]: "digits_val (s @ [c]) = 10 * digits_val s + digit_val c"
  by (simp add: digits_val_def)

lemma digits_val_nat_str [simp]: "digits_val (nat_str n) = n"
proof (induction n rule: nat_str.induct)
  case (1 n)
  show ?case
  proof (cases "n < 10")
    case True
    then show ?thesis by (subst nat_str.simps) (simp add: digits_val_def)
  next
    case False
    with 1 show ?thesis by (subst nat_str.simps) simp
  qed
qed

lemma nat_str_inject [simp]: "nat_str m = nat_str n \<longleftrightarrow> m = n"
  by (metis digits_val_nat_str)

lemma nat_str_hd_zero: "hd (nat_str n) = CHR ''0'' \<Longrightarrow> n = 0"
proof (induction n rule: nat_str.induct)
  case (1 n)
  show ?case
  proof (cases "n < 10")
    case True
    then have "nat_str n = [digit_char n]" by (subst nat_str.simps) simp
    with "1.prems" have "code (digit_char n) = 48" by simp
    with True show ?thesis by simp
  next
    case False
    then have "hd (nat_str n) = hd (nat_str (n div 10))"
      by (subst nat_str.simps) simp
    with 1 False show ?thesis by auto
  qed
qed

lemma char_of_eqI: "code c = n \<Longrightarrow> char_of n = c"
  by (metis char_of_char)

lemma char_of_eq_iff: "n < 256 \<Longrightarrow> char_of n = c \<longleftrightarrow> n = code c"
  by auto

lemma nat_str_0 [simp]: "nat_str 0 = ''0''"
  by (subst nat_str.simps) (simp add: digit_char_def char_of_eqI)

lemma int_digits_digits:
  "(\<And>c. c \<in> set s \<Longrightarrow> is_digit c) \<Longrightarrow> s \<noteq> [] \<or> prev \<Longrightarrow>
   int_digits prev acc s = Some (foldl (\<lambda>a c. 10 * a + digit_val c) acc s)"
  by (induction s arbitrary: prev acc) auto

lemma py_strip_id:
  assumes "s = [] \<or> (\<not> is_space (hd s) \<and> \<not> is_space (last s))"
  shows "py_strip s = s"
proof (cases "s = []")
  case False
  with assms have "dropWhile is_space s = s" "dropWhile is_space (rev s) = rev s"
    by (auto simp: dropWhile_eq_self_iff hd_rev)
  then show ?thesis by (simp add: py_strip_def)
qed (simp add: py_strip_def)

lemma digit_not_space: "is_digit c \<Longrightarrow> \<not> is_space c"
  by (simp add: is_digit_def is_space_def)

lemma is_space_minus [simp]: "\<not> is_space (CHR ''-'')"
  by (simp add: is_space_def)

lemma hd_nat_str_digit [simp]: "is_digit (hd (nat_str n))"
  by (rule nat_str_digits [of _ n]) simp

lemma last_nat_str_digit [simp]: "is_digit (last (nat_str n))"
  by (rule nat_str_digits [of _ n]) simp

text \<open>\<open>int(str(i)) = i\<close>.\<close>

lemma py_int_int_str [simp]: "py_int (int_str i) = Some i"
proof -
  have parse: "int_digits False 0 (nat_str n) = Some n" for n
    using int_digits_digits [of "nat_str n" False 0] digits_val_nat_str [of n]
    by (simp add: nat_str_digits digits_val_def)
  have strip: "py_strip (int_str i) = int_str i"
    by (rule py_strip_id) (auto simp: int_str_def digit_not_space)
  show ?thesis
  proof (cases "i < 0")
    case True
    then have "py_int (int_str i) = map_option (\<lambda>n. - int n) (int_digits False 0 (nat_str (nat (- i))))"
      unfolding py_int_def strip by (simp add: int_str_def)
    with True show ?thesis by (simp add: parse)
  next
    case False
    obtain c cs where cs: "nat_str (nat i) = c # cs" by (cases "nat_str (nat i)") auto
    then have "is_digit c" using nat_str_digits [of c "nat i"] by simp
    then have "c \<noteq> CHR ''-'' \<and> c \<noteq> CHR ''+''" by (auto simp: is_digit_def)
    with False cs have "py_int (int_str i) = map_option int (int_digits False 0 (nat_str (nat i)))"
      unfolding py_int_def strip by (simp add: int_str_def)
    with False show ?thesis by (simp add: parse)
  qed
qed

section \<open>Regular expressions\<close>

text \<open>
  A regular expression is a scanner: the groups of the match at the start of the text and the
  number of characters it spans. \<open>re.findall\<close> and \<open>re.sub\<close> go from left to right, the next
  match behind the last; \<open>n\<close> characters are still to be skipped. \<open>re.search\<close> gives the first.
\<close>

type_synonym 'a scanner = "str \<Rightarrow> ('a \<times> nat) option"

fun findall :: "'a scanner \<Rightarrow> nat \<Rightarrow> str \<Rightarrow> 'a list" where
  "findall m n [] = []"
| "findall m (Suc n) (c # cs) = findall m n cs"
| "findall m 0 (c # cs) = (case m (c # cs) of
      Some (x, k) \<Rightarrow> x # findall m (k - 1) cs
    | None \<Rightarrow> findall m 0 cs)"

fun re_sub :: "str scanner \<Rightarrow> nat \<Rightarrow> str \<Rightarrow> str" where
  "re_sub m n [] = []"
| "re_sub m (Suc n) (c # cs) = re_sub m n cs"
| "re_sub m 0 (c # cs) = (case m (c # cs) of
      Some (x, k) \<Rightarrow> x @ re_sub m (k - 1) cs
    | None \<Rightarrow> c # re_sub m 0 cs)"

fun re_search :: "'a scanner \<Rightarrow> str \<Rightarrow> 'a option" where
  "re_search m [] = map_option fst (m [])"
| "re_search m (c # cs) = (case m (c # cs) of Some (x, _) \<Rightarrow> Some x | None \<Rightarrow> re_search m cs)"

lemma findall_skip: "findall m n s = findall m 0 (drop n s)"
  by (induction m n s rule: findall.induct) (simp_all split: option.splits)

lemma findall_match:
  assumes "m (p @ r) = Some (x, length p)" "p \<noteq> []"
  shows "findall m 0 (p @ r) = x # findall m 0 r"
proof -
  obtain c cs where "p = c # cs" using assms(2) by (cases p) auto
  with assms(1) show ?thesis using findall_skip [of m "length cs" "cs @ r"] by simp
qed

lemma re_sub_skip: "re_sub m n s = re_sub m 0 (drop n s)"
  by (induction m n s rule: re_sub.induct) (simp_all split: option.splits)

lemma re_sub_match:
  assumes "m (p @ r) = Some (x, length p)" "p \<noteq> []"
  shows "re_sub m 0 (p @ r) = x @ re_sub m 0 r"
proof -
  obtain c cs where "p = c # cs" using assms(2) by (cases p) auto
  with assms(1) show ?thesis using re_sub_skip [of m "length cs" "cs @ r"] by simp
qed

lemma re_search_here: "m s = Some (x, k) \<Longrightarrow> re_search m s = Some x"
  by (cases s) simp_all

lemma takeWhile_then: "list_all P xs \<Longrightarrow> \<not> P y \<Longrightarrow> takeWhile P (xs @ y # ys) = xs"
  by (induction xs) auto

lemma dropWhile_then: "list_all P xs \<Longrightarrow> \<not> P y \<Longrightarrow> dropWhile P (xs @ y # ys) = y # ys"
  by (induction xs) auto

text \<open>A scanner whose matches start with a character skips what does not hold it.\<close>

lemma search_skip:
  assumes "\<And>s x. m s = Some x \<Longrightarrow> s \<noteq> [] \<and> hd s = c" "c \<notin> set p"
  shows "re_search m (p @ r) = re_search m r"
  using assms(2)
proof (induction p)
  case (Cons a p)
  then have "m (a # p @ r) = None" using assms(1) [of "a # p @ r"] by (cases "m (a # p @ r)") auto
  then show ?case using Cons by simp
qed simp

section \<open>Runs of events\<close>

text \<open>
  A component that handles one event after another: what every allowed event keeps, every run
  of allowed events keeps.
\<close>

locale event_loop =
  fixes step :: "'e \<Rightarrow> 's \<Rightarrow> 's" and inv :: "'s \<Rightarrow> bool" and allowed :: "'e \<Rightarrow> bool"
  assumes step_inv: "inv s \<Longrightarrow> allowed e \<Longrightarrow> inv (step e s)"
begin

definition run :: "'e list \<Rightarrow> 's \<Rightarrow> 's" where
  "run es s = foldl (\<lambda>s e. step e s) s es"

lemma run_simps [simp]: "run [] s = s" "run (e # es) s = run es (step e s)"
  by (simp_all add: run_def)

lemma run_append: "run (es @ fs) s = run fs (run es s)"
  by (simp add: run_def)

lemma run_inv: "inv s \<Longrightarrow> list_all allowed es \<Longrightarrow> inv (run es s)"
  by (induction es arbitrary: s) (auto intro: step_inv)

lemma fold_inv: "inv s \<Longrightarrow> list_all allowed es \<Longrightarrow> inv (foldl (\<lambda>s e. step e s) s es)"
  using run_inv unfolding run_def .

end

end
