(* ===== verification/Utf8.thy ===== *)
theory Utf8
  imports Prelude
begin

text \<open>
  UTF-8 as the program uses it: \<open>bytes.decode("utf-8", "replace")\<close> (each maximal ill-formed
  subpart becomes U+FFFD), the strict and the surrogate-passing decoders, and the code points
  of a \<open>str\<close>, which \<open>json.dumps\<close> escapes. A \<open>str\<close> is represented by its encoding, so decoding
  well-formed bytes is the identity.
\<close>

section \<open>Encoding a code point\<close>

definition enc_cp :: "nat \<Rightarrow> str" where
  "enc_cp n =
     (if n < 128 then [char_of n]
      else if n < 2048 then [char_of (192 + n div 64), char_of (128 + n mod 64)]
      else if n < 65536 then
        [char_of (224 + n div 4096), char_of (128 + n div 64 mod 64), char_of (128 + n mod 64)]
      else
        [char_of (240 + n div 262144), char_of (128 + n div 4096 mod 64),
         char_of (128 + n div 64 mod 64), char_of (128 + n mod 64)])"

lemma enc_cp_not_Nil [simp]: "enc_cp n \<noteq> []"
  by (simp add: enc_cp_def)

definition is_surrogate :: "nat \<Rightarrow> bool" where
  "is_surrogate n \<longleftrightarrow> 55296 \<le> n \<and> n < 57344"

definition is_scalar :: "nat \<Rightarrow> bool" where
  "is_scalar n \<longleftrightarrow> n < 1114112 \<and> \<not> is_surrogate n"

section \<open>Decoding\<close>

text \<open>
  The length of the sequence a lead byte announces (0 for a byte that cannot lead), and
  whether a byte may stand at position \<open>i\<close> of a sequence: the second byte of \<open>E0\<close>, \<open>ED\<close>,
  \<open>F0\<close> and \<open>F4\<close> has a narrower range (\<open>surr\<close>: surrogates pass).
\<close>

definition seq_len :: "char \<Rightarrow> nat" where
  "seq_len c = (let b = code c in
     if b < 128 then 1 else if b < 194 then 0 else if b < 224 then 2
     else if b < 240 then 3 else if b < 245 then 4 else 0)"

definition cont_ok :: "bool \<Rightarrow> char \<Rightarrow> nat \<Rightarrow> char \<Rightarrow> bool" where
  "cont_ok surr lead i c = (let l = code lead; b = code c in
     if i \<noteq> 1 then 128 \<le> b \<and> b < 192
     else if l = 224 then 160 \<le> b \<and> b < 192
     else if l = 237 \<and> \<not> surr then 128 \<le> b \<and> b < 160
     else if l = 240 then 144 \<le> b \<and> b < 192
     else if l = 244 then 128 \<le> b \<and> b < 144
     else 128 \<le> b \<and> b < 192)"

text \<open>How many bytes of the announced sequence are present and well formed.\<close>

fun conts_present :: "bool \<Rightarrow> char \<Rightarrow> nat \<Rightarrow> nat \<Rightarrow> bytes \<Rightarrow> nat" where
  "conts_present surr lead i 0 bs = 0"
| "conts_present surr lead i (Suc n) [] = 0"
| "conts_present surr lead i (Suc n) (b # bs) =
     (if cont_ok surr lead i b then Suc (conts_present surr lead (Suc i) n bs) else 0)"

definition replacement :: str where
  "replacement = [char_of (239::nat), char_of (191::nat), char_of (189::nat)]"

function utf8_replace :: "bytes \<Rightarrow> str" where
  "utf8_replace [] = []"
| "utf8_replace (b # bs) =
     (let n = seq_len b; k = conts_present False b 1 (n - 1) bs in
      if n \<noteq> 0 \<and> k = n - 1 then b # take k bs @ utf8_replace (drop k bs)
      else replacement @ utf8_replace (drop k bs))"
  by pat_completeness auto
termination by (relation "measure length") (auto simp: Let_def)

function utf8_valid :: "bool \<Rightarrow> bytes \<Rightarrow> bool" where
  "utf8_valid surr [] = True"
| "utf8_valid surr (b # bs) =
     (let n = seq_len b; k = conts_present surr b 1 (n - 1) bs in
      n \<noteq> 0 \<and> k = n - 1 \<and> utf8_valid surr (drop k bs))"
  by pat_completeness auto
termination by (relation "measure (\<lambda>(_, bs). length bs)") (auto simp: Let_def)

definition utf8_decode :: "bytes \<Rightarrow> str option" where
  "utf8_decode bs = (if utf8_valid False bs then Some bs else None)"

definition utf8_decode_surrogatepass :: "bytes \<Rightarrow> str option" where
  "utf8_decode_surrogatepass bs = (if utf8_valid True bs then Some bs else None)"

text \<open>ASCII text is the same in every decoder.\<close>

definition is_ascii :: "str \<Rightarrow> bool" where
  "is_ascii s \<longleftrightarrow> (\<forall>c \<in> set s. code c < (128::nat))"

lemma is_ascii_simps [simp]:
  "is_ascii []"
  "is_ascii (c # s) \<longleftrightarrow> code c < (128::nat) \<and> is_ascii s"
  "is_ascii (s @ t) \<longleftrightarrow> is_ascii s \<and> is_ascii t"
  by (auto simp: is_ascii_def)

lemma seq_len_ascii: "code c < (128::nat) \<Longrightarrow> seq_len c = 1"
  by (simp add: seq_len_def)

lemma utf8_replace_valid: "utf8_valid False s \<Longrightarrow> utf8_replace s = s"
  by (induction s rule: utf8_replace.induct) (auto simp: Let_def)

lemma utf8_valid_ascii: "is_ascii s \<Longrightarrow> utf8_valid surr s"
  by (induction s) (auto simp: seq_len_ascii)

lemma utf8_replace_ascii [simp]: "is_ascii s \<Longrightarrow> utf8_replace s = s"
  by (simp add: utf8_replace_valid utf8_valid_ascii)

section \<open>The code points of a string\<close>

definition next_cp :: "str \<Rightarrow> nat \<times> str" where
  "next_cp s = (case s of
      [] \<Rightarrow> (0, [])
    | b # bs \<Rightarrow>
        (let v = (\<lambda>i. code (bs ! i) - 128) in
         if code b < (128::nat) then (code b, bs)
         else if code b < (224::nat) \<and> 1 \<le> length bs then ((code b - 192) * 64 + v 0, drop 1 bs)
         else if code b < (240::nat) \<and> 2 \<le> length bs then
           ((code b - 224) * 4096 + v 0 * 64 + v 1, drop 2 bs)
         else if 3 \<le> length bs then
           ((code b - 240) * 262144 + v 0 * 4096 + v 1 * 64 + v 2, drop 3 bs)
         else (code b, bs)))"

lemma next_cp_shorter: "s \<noteq> [] \<Longrightarrow> length (snd (next_cp s)) < length s"
  by (cases s) (auto simp: next_cp_def Let_def)

text \<open>A \<open>str\<close> without lone surrogates: each code point is a scalar value in its shortest form.\<close>

function str_ok :: "str \<Rightarrow> bool" where
  "str_ok s = (if s = [] then True
     else let (n, r) = next_cp s in is_scalar n \<and> s = enc_cp n @ r \<and> str_ok r)"
  by pat_completeness auto
termination
  by (relation "measure length") (use next_cp_shorter in \<open>auto simp: prod_eq_iff\<close>)

declare str_ok.simps [simp del]

lemma str_ok_Nil [simp]: "str_ok []"
  by (subst str_ok.simps) simp

lemma next_cp_ascii: "code c < (128::nat) \<Longrightarrow> next_cp (c # s) = (code c, s)"
  by (simp add: next_cp_def)

lemma str_ok_ascii_Cons [simp]: "code c < (128::nat) \<Longrightarrow> str_ok (c # s) = str_ok s"
  by (subst str_ok.simps) (auto simp: next_cp_ascii is_scalar_def is_surrogate_def enc_cp_def)

lemma str_ok_ascii: "is_ascii s \<Longrightarrow> str_ok s"
  by (induction s) auto

lemma str_ok_induct [consumes 1, case_names Nil Cp]:
  assumes "str_ok s" and "P []"
    and "\<And>n r. is_scalar n \<Longrightarrow> next_cp (enc_cp n @ r) = (n, r) \<Longrightarrow> str_ok r \<Longrightarrow> P r \<Longrightarrow> P (enc_cp n @ r)"
  shows "P s"
  using assms(1)
proof (induction s rule: str_ok.induct)
  case (1 s)
  show ?case
  proof (cases "s = []")
    case True
    with assms(2) show ?thesis by simp
  next
    case False
    obtain n r where nr: "next_cp s = (n, r)" by (cases "next_cp s")
    with False "1.prems" have sc: "is_scalar n" and s: "s = enc_cp n @ r" and r: "str_ok r"
      by (subst (asm) str_ok.simps, simp)+
    have "P r" using "1.IH" [OF False nr [symmetric] refl] r by simp
    with assms(3) sc s r nr show ?thesis by metis
  qed
qed

end
