(* ===== verification/Codec.thy ===== *)
theory Codec
  imports Utf8
begin

text \<open>
  The byte codecs of the standard library the program calls: \<open>bytes.hex\<close> and
  \<open>bytes.fromhex\<close>, \<open>base64.b64encode\<close> and the lenient \<open>base64.b64decode\<close> (characters outside
  the alphabet are skipped, a complete padding ends the input), and \<open>int.from_bytes(.., "big")\<close>.
\<close>

section \<open>Big-endian integers\<close>

definition be_int :: "bytes \<Rightarrow> nat" where
  "be_int bs = foldl (\<lambda>v b. 256 * v + code b) 0 bs"

definition be32 :: "nat \<Rightarrow> bytes" where
  "be32 n = [char_of (n div 16777216), char_of (n div 65536), char_of (n div 256), char_of n]"

lemma length_be32 [simp]: "length (be32 n) = 4"
  by (simp add: be32_def)

lemma be_int_be32 [simp]:
  assumes "n < 4294967296"
  shows "be_int (be32 n) = n"
proof -
  let ?a = "n div 256"
  let ?b = "?a div 256"
  let ?c = "?b div 256"
  have e: "n = 256 * ?a + n mod 256" "?a = 256 * ?b + ?a mod 256" "?b = 256 * ?c + ?b mod 256"
    by (simp_all only: mult_div_mod_eq)
  have "n div 65536 = ?b" "n div 16777216 = ?c" by (simp_all flip: div_mult2_eq)
  moreover have "?c mod 256 = ?c" using assms by (simp flip: div_mult2_eq)
  ultimately have "be_int (be32 n) = 256 * (256 * (256 * ?c + ?b mod 256) + ?a mod 256) + n mod 256"
    by (simp add: be_int_def be32_def)
  with e show ?thesis by metis
qed

lemma code_less [simp]: "code c < (256 :: nat)"
proof -
  have "code c = code (char_of (code c) :: char)" by simp
  also have "\<dots> = code c mod 256" by (simp only: of_char_of)
  finally show ?thesis by (metis mod_less_divisor zero_less_numeral)
qed

lemma be_int_bound: "be_int bs < 256 ^ length bs"
proof (induction bs rule: rev_induct)
  case Nil
  then show ?case by (simp add: be_int_def)
next
  case (snoc b bs)
  have "be_int (bs @ [b]) = 256 * be_int bs + code b" by (simp add: be_int_def)
  also have "\<dots> < 256 * be_int bs + 256" using code_less [of b] by linarith
  also have "\<dots> \<le> 256 * 256 ^ length bs" using snoc by simp
  finally show ?case by simp
qed

section \<open>Hexadecimal\<close>

definition hex_nibble :: "nat \<Rightarrow> char" where
  "hex_nibble n = (if n < 10 then char_of (48 + n) else char_of (87 + n))"

definition nibble_val :: "char \<Rightarrow> nat option" where
  "nibble_val c = (let b = code c in
     if 48 \<le> b \<and> b \<le> 57 then Some (b - 48)
     else if 97 \<le> b \<and> b \<le> 102 then Some (b - 87)
     else if 65 \<le> b \<and> b \<le> 70 then Some (b - 55)
     else None)"

definition to_hex :: "bytes \<Rightarrow> str" where
  "to_hex bs = concat (map (\<lambda>b. [hex_nibble (code b div 16), hex_nibble (code b mod 16)]) bs)"

text \<open>White space may stand between the bytes, not within one.\<close>

definition is_hex_space :: "char \<Rightarrow> bool" where
  "is_hex_space c \<longleftrightarrow> code c = 32 \<or> (9 \<le> code c \<and> code c \<le> 13)"

fun from_hex :: "str \<Rightarrow> bytes option" where
  "from_hex [] = Some []"
| "from_hex [c] = (if is_hex_space c then Some [] else None)"
| "from_hex (c # d # r) =
     (if is_hex_space c then from_hex (d # r)
      else (case (nibble_val c, nibble_val d) of
              (Some x, Some y) \<Rightarrow> map_option ((#) (char_of (16 * x + y))) (from_hex r)
            | _ \<Rightarrow> None))"

lemma code_hex_nibble: "n < 16 \<Longrightarrow> code (hex_nibble n) = (if n < 10 then 48 + n else 87 + n)"
  by (simp add: hex_nibble_def)

lemma nibble_val_hex [simp]: "n < 16 \<Longrightarrow> nibble_val (hex_nibble n) = Some n"
  by (simp add: nibble_val_def Let_def code_hex_nibble)

lemma from_hex_to_hex [simp]: "from_hex (to_hex bs) = Some bs"
proof (induction bs)
  case Nil
  show ?case by (simp add: to_hex_def)
next
  case (Cons b bs)
  have "code b < 16 * 16" by simp
  then have hi: "code b div 16 < 16" by (simp only: less_mult_imp_div_less)
  have lo: "code b mod 16 < 16" by simp
  have "\<not> is_hex_space (hex_nibble (code b div 16))"
    using hi by (simp add: is_hex_space_def code_hex_nibble)
  moreover have "char_of (16 * (code b div 16) + code b mod 16) = b"
    by (metis char_of_char mult_div_mod_eq)
  ultimately show ?case
    using Cons hi lo by (simp add: to_hex_def)
qed

lemma length_to_hex [simp]: "length (to_hex bs) = 2 * length bs"
  by (induction bs) (simp_all add: to_hex_def)

section \<open>Base64\<close>

definition b64_char :: "nat \<Rightarrow> char" where
  "b64_char n =
     (if n < 26 then char_of (65 + n)
      else if n < 52 then char_of (71 + n)
      else if n < 62 then char_of (n - 4)
      else if n = 62 then CHR ''+'' else CHR ''/'')"

definition b64_val :: "char \<Rightarrow> nat option" where
  "b64_val c = (let b = code c in
     if 65 \<le> b \<and> b \<le> 90 then Some (b - 65)
     else if 97 \<le> b \<and> b \<le> 122 then Some (b - 71)
     else if 48 \<le> b \<and> b \<le> 57 then Some (b + 4)
     else if b = 43 then Some 62
     else if b = 47 then Some 63
     else None)"

fun b64encode :: "bytes \<Rightarrow> str" where
  "b64encode [] = []"
| "b64encode [a] = [b64_char (code a div 4), b64_char (code a mod 4 * 16), CHR ''='', CHR ''='']"
| "b64encode [a, b] =
     [b64_char (code a div 4), b64_char (code a mod 4 * 16 + code b div 16),
      b64_char (code b mod 16 * 4), CHR ''='']"
| "b64encode (a # b # c # r) =
     b64_char (code a div 4) # b64_char (code a mod 4 * 16 + code b div 16)
     # b64_char (code b mod 16 * 4 + code c div 64) # b64_char (code c mod 64) # b64encode r"

text \<open>
  The decoder's state: the position in the group of four, the bits left over from the last
  character, the padding characters seen since.
\<close>

fun b64_loop :: "nat \<Rightarrow> nat \<Rightarrow> nat \<Rightarrow> str \<Rightarrow> bytes option" where
  "b64_loop q left pads [] = (if q = 0 then Some [] else None)"
| "b64_loop q left pads (c # cs) =
     (if c = CHR ''='' then
        (if 2 \<le> q then (if 4 \<le> q + Suc pads then Some [] else b64_loop q left (Suc pads) cs)
         else b64_loop q left pads cs)
      else (case b64_val c of
          None \<Rightarrow> b64_loop q left pads cs
        | Some v \<Rightarrow>
            if q = 0 then b64_loop 1 v 0 cs
            else if q = 1 then map_option ((#) (char_of (left * 4 + v div 16))) (b64_loop 2 (v mod 16) 0 cs)
            else if q = 2 then map_option ((#) (char_of (left * 16 + v div 4))) (b64_loop 3 (v mod 4) 0 cs)
            else map_option ((#) (char_of (left * 64 + v))) (b64_loop 0 0 0 cs)))"

text \<open>\<open>base64.b64decode(s)\<close> on a \<open>str\<close>: it must be ASCII. \<open>None\<close> is a \<open>ValueError\<close>.\<close>

definition b64decode :: "str \<Rightarrow> bytes option" where
  "b64decode s = (if is_ascii s then b64_loop 0 0 0 s else None)"

lemma b64_val_char [simp]: "n < 64 \<Longrightarrow> b64_val (b64_char n) = Some n"
  by (auto simp: b64_val_def b64_char_def Let_def)

lemma b64_char_not_pad [simp]: "n < 64 \<Longrightarrow> b64_char n \<noteq> CHR ''=''"
  by (auto simp: b64_char_def char_of_eq_iff)

lemma b64_char_ascii: "n < 64 \<Longrightarrow> code (b64_char n) < (128::nat)"
  by (auto simp: b64_char_def)

lemma b64_bounds [simp]:
  fixes a b c :: char
  shows "code a div 4 < 64" "code a mod 4 * 16 < 64" "code a mod 4 * 16 + code b div 16 < 64"
    "code b mod 16 * 4 < 64" "code b mod 16 * 4 + code c div 64 < 64" "code c mod 64 < 64"
proof -
  have "code a < 4 * 64" "code b < 16 * 16" "code c < 64 * 4" by simp_all
  then have d: "code a div 4 < 64" "code b div 16 < 16" "code c div 64 < 4"
    by (simp_all only: less_mult_imp_div_less mult.commute)
  have m: "code a mod 4 < 4" "code b mod 16 < 16" by simp_all
  show "code a div 4 < 64" "code c mod 64 < 64" using d by simp_all
  show "code a mod 4 * 16 < 64" "code a mod 4 * 16 + code b div 16 < 64"
    "code b mod 16 * 4 < 64" "code b mod 16 * 4 + code c div 64 < 64"
    using d m by linarith+
qed

lemma split_small:
  fixes k x y :: nat
  assumes "y < k"
  shows "(x * k + y) div k = x" "(x * k + y) mod k = y"
  using assms by simp_all

lemma b64_join:
  fixes a b c :: char
  shows "char_of (code a div 4 * 4 + code a mod 4 * 16 div 16) = a"
    "char_of (code a div 4 * 4 + (code a mod 4 * 16 + code b div 16) div 16) = a"
    "char_of ((code a mod 4 * 16 + code b div 16) mod 16 * 16 + code b mod 16 * 4 div 4) = b"
    "char_of ((code a mod 4 * 16 + code b div 16) mod 16 * 16 + (code b mod 16 * 4 + code c div 64) div 4) = b"
    "char_of ((code b mod 16 * 4 + code c div 64) mod 4 * 64 + code c mod 64) = c"
proof -
  have "code b < 16 * 16" "code c < 64 * 4" by simp_all
  then have d: "code b div 16 < 16" "code c div 64 < 4"
    by (simp_all only: less_mult_imp_div_less mult.commute)
  note s = split_small [OF d(1)] split_small [OF d(2)]
  have z: "x * 16 div 16 = x" "x * 4 div 4 = x" for x :: nat by simp_all
  show "char_of (code a div 4 * 4 + code a mod 4 * 16 div 16) = a"
    by (simp only: z div_mult_mod_eq char_of_char)
  show "char_of (code a div 4 * 4 + (code a mod 4 * 16 + code b div 16) div 16) = a"
    by (simp only: s div_mult_mod_eq char_of_char)
  show "char_of ((code a mod 4 * 16 + code b div 16) mod 16 * 16 + code b mod 16 * 4 div 4) = b"
    by (simp only: s z div_mult_mod_eq char_of_char)
  show "char_of ((code a mod 4 * 16 + code b div 16) mod 16 * 16 + (code b mod 16 * 4 + code c div 64) div 4) = b"
    by (simp only: s div_mult_mod_eq char_of_char)
  show "char_of ((code b mod 16 * 4 + code c div 64) mod 4 * 64 + code c mod 64) = c"
    by (simp only: s div_mult_mod_eq char_of_char)
qed

lemma b64_loop_char:
  "v < 64 \<Longrightarrow> b64_loop 0 l p (b64_char v # s) = b64_loop 1 v 0 s"
  "v < 64 \<Longrightarrow> b64_loop 1 l p (b64_char v # s) = map_option ((#) (char_of (l * 4 + v div 16))) (b64_loop 2 (v mod 16) 0 s)"
  "v < 64 \<Longrightarrow> b64_loop 2 l p (b64_char v # s) = map_option ((#) (char_of (l * 16 + v div 4))) (b64_loop 3 (v mod 4) 0 s)"
  "v < 64 \<Longrightarrow> b64_loop 3 l p (b64_char v # s) = map_option ((#) (char_of (l * 64 + v))) (b64_loop 0 0 0 s)"
  by simp_all

lemma b64_loop_encode: "b64_loop 0 0 0 (b64encode bs) = Some bs"
proof (induction bs rule: b64encode.induct)
  case 1
  show ?case by simp
next
  case (2 a)
  show ?case
    by (simp only: b64encode.simps b64_loop_char b64_bounds b64_join) simp
next
  case (3 a b)
  show ?case
    by (simp only: b64encode.simps b64_loop_char b64_bounds b64_join option.map) simp
next
  case (4 a b c r)
  then show ?case
    by (simp only: b64encode.simps b64_loop_char b64_bounds b64_join option.map)
qed

lemma b64encode_ascii: "is_ascii (b64encode bs)"
  by (induction bs rule: b64encode.induct) (simp_all add: b64_char_ascii)

lemma b64decode_encode [simp]: "b64decode (b64encode bs) = Some bs"
  by (simp add: b64decode_def b64encode_ascii b64_loop_encode)

end
