(* ===== verification/Json.thy ===== *)
theory Json
  imports Utf8
begin

text \<open>
  The \<open>json\<close> module of the standard library, as far as the program calls it: \<open>json.dumps\<close>
  (\<open>ensure_ascii\<close> on, with either pair of separators the source passes) and \<open>json.loads\<close> on a
  \<open>str\<close> and on \<open>bytes\<close>. A number with a fraction or an exponent keeps its literal text
  (\<open>JReal\<close>); the interpreter's limits on nesting and on the digits of an \<open>int\<close> are not
  modelled. The main result is the round trip \<open>loads (dumps v) = v\<close>.
\<close>

datatype json =
    JNull
  | JBool bool
  | JInt int
  | JReal str
  | JStr str
  | JArr "json list"
  | JObj "(str \<times> json) list"

type_synonym jdict = "(str, json) dict"

section \<open>Printing\<close>

definition hex_digit :: "nat \<Rightarrow> char" where
  "hex_digit n = (if n < 10 then char_of (48 + n) else char_of (87 + n))"

definition hex4 :: "nat \<Rightarrow> str" where
  "hex4 n = [hex_digit (n div 4096 mod 16), hex_digit (n div 256 mod 16),
             hex_digit (n div 16 mod 16), hex_digit (n mod 16)]"

definition esc_u :: "nat \<Rightarrow> str" where
  "esc_u n = CHR 0x5C # CHR ''u'' # hex4 n"

text \<open>One code point: the short escapes, printable ASCII as it is, \<open>\uXXXX\<close> for the rest.\<close>

definition esc_cp :: "nat \<Rightarrow> str" where
  "esc_cp n =
     (if n = 34 then [CHR 0x5C, CHR 0x22]
      else if n = 92 then [CHR 0x5C, CHR 0x5C]
      else if n = 10 then [CHR 0x5C, CHR ''n'']
      else if n = 13 then [CHR 0x5C, CHR ''r'']
      else if n = 9 then [CHR 0x5C, CHR ''t'']
      else if n = 12 then [CHR 0x5C, CHR ''f'']
      else if n = 8 then [CHR 0x5C, CHR ''b'']
      else if 32 \<le> n \<and> n < 127 then [char_of n]
      else if n < 65536 then esc_u n
      else esc_u (55296 + (n - 65536) div 1024) @ esc_u (56320 + (n - 65536) mod 1024))"

function esc_str :: "str \<Rightarrow> str" where
  "esc_str s = (if s = [] then [] else let (n, r) = next_cp s in esc_cp n @ esc_str r)"
  by pat_completeness auto
termination
  by (relation "measure length") (use next_cp_shorter in \<open>auto simp: prod_eq_iff\<close>)

declare esc_str.simps [simp del]

definition quote :: "str \<Rightarrow> str" where
  "quote s = CHR 0x22 # esc_str s @ [CHR 0x22]"

fun dumps_with :: "str \<Rightarrow> str \<Rightarrow> json \<Rightarrow> str"
  and dumps_elems :: "str \<Rightarrow> str \<Rightarrow> json list \<Rightarrow> str"
  and dumps_members :: "str \<Rightarrow> str \<Rightarrow> (str \<times> json) list \<Rightarrow> str" where
  "dumps_with i k JNull = ''null''"
| "dumps_with i k (JBool b) = (if b then ''true'' else ''false'')"
| "dumps_with i k (JInt n) = int_str n"
| "dumps_with i k (JReal t) = t"
| "dumps_with i k (JStr s) = quote s"
| "dumps_with i k (JArr xs) = CHR ''['' # dumps_elems i k xs @ '']''"
| "dumps_with i k (JObj ps) = CHR ''{'' # dumps_members i k ps @ ''}''"
| "dumps_elems i k [] = []"
| "dumps_elems i k (x # xs) =
     dumps_with i k x @ (if xs = [] then [] else i @ dumps_elems i k xs)"
| "dumps_members i k [] = []"
| "dumps_members i k ((s, x) # ps) =
     quote s @ k @ dumps_with i k x @ (if ps = [] then [] else i @ dumps_members i k ps)"

text \<open>\<open>json.dumps(v, separators=(",", ":"))\<close> and \<open>json.dumps(v)\<close>.\<close>

definition dumps_compact :: "json \<Rightarrow> str" where
  "dumps_compact v = dumps_with '','' '':'' v"

definition dumps :: "json \<Rightarrow> str" where
  "dumps v = dumps_with '', '' '': '' v"

section \<open>Parsing\<close>

definition is_json_space :: "char \<Rightarrow> bool" where
  "is_json_space c \<longleftrightarrow> code c = 32 \<or> code c = 9 \<or> code c = 10 \<or> code c = 13"

abbreviation skip_ws :: "str \<Rightarrow> str" where
  "skip_ws s \<equiv> dropWhile is_json_space s"

definition expect :: "char \<Rightarrow> str \<Rightarrow> str option" where
  "expect c s = (case s of [] \<Rightarrow> None | x # xs \<Rightarrow> if x = c then Some xs else None)"

definition hex_val :: "char \<Rightarrow> nat option" where
  "hex_val c = (let b = code c in
     if 48 \<le> b \<and> b \<le> 57 then Some (b - 48)
     else if 97 \<le> b \<and> b \<le> 102 then Some (b - 87)
     else if 65 \<le> b \<and> b \<le> 70 then Some (b - 55)
     else None)"

fun scan_hex4 :: "str \<Rightarrow> (nat \<times> str) option" where
  "scan_hex4 (a # b # c # d # r) = do {
     w \<leftarrow> hex_val a; x \<leftarrow> hex_val b; y \<leftarrow> hex_val c; z \<leftarrow> hex_val d;
     Some (w * 4096 + x * 256 + y * 16 + z, r) }"
| "scan_hex4 _ = None"

text \<open>A low surrogate escape right behind a high one is joined with it.\<close>

definition scan_low :: "nat \<Rightarrow> str \<Rightarrow> (nat \<times> str) option" where
  "scan_low hi s =
     (if 55296 \<le> hi \<and> hi < 56320 then do {
        s1 \<leftarrow> expect (CHR 0x5C) s;
        s2 \<leftarrow> expect (CHR ''u'') s1;
        (lo, r) \<leftarrow> scan_hex4 s2;
        if 56320 \<le> lo \<and> lo < 57344 then Some (65536 + (hi - 55296) * 1024 + (lo - 56320), r)
        else None }
      else None)"

definition simple_esc :: "char \<Rightarrow> char option" where
  "simple_esc c =
     (if c = CHR 0x22 \<or> c = CHR 0x5C \<or> c = CHR ''/'' then Some c
      else if c = CHR ''n'' then Some (CHR 10)
      else if c = CHR ''r'' then Some (CHR 13)
      else if c = CHR ''t'' then Some (CHR 9)
      else if c = CHR ''f'' then Some (CHR 12)
      else if c = CHR ''b'' then Some (CHR 8)
      else None)"

lemma scan_hex4_shorter: "scan_hex4 s = Some (n, r) \<Longrightarrow> length r < length s"
  by (cases s rule: scan_hex4.cases) (auto simp: bind_eq_Some_conv)

lemma scan_low_shorter: "scan_low hi s = Some (n, r) \<Longrightarrow> length r < length s"
  by (auto simp: scan_low_def expect_def bind_eq_Some_conv dest!: scan_hex4_shorter
      split: if_splits list.splits)

text \<open>The escape behind a backslash: the text it stands for and the rest.\<close>

definition scan_escape :: "str \<Rightarrow> (str \<times> str) option" where
  "scan_escape cs = (case cs of
      [] \<Rightarrow> None
    | e # es \<Rightarrow>
        if e = CHR ''u'' then
          (case scan_hex4 es of
             None \<Rightarrow> None
           | Some (u, r) \<Rightarrow>
               (case scan_low u r of
                  Some (n, r2) \<Rightarrow> Some (enc_cp n, r2)
                | None \<Rightarrow> Some (enc_cp u, r)))
        else map_option (\<lambda>x. ([x], es)) (simple_esc e))"

lemma scan_escape_shorter: "scan_escape s = Some (x, r) \<Longrightarrow> length r < length s"
  by (auto simp: scan_escape_def dest!: scan_hex4_shorter scan_low_shorter
      split: list.splits if_splits option.splits)

function scan_str :: "str \<Rightarrow> (str \<times> str) option" where
  "scan_str [] = None"
| "scan_str (c # cs) =
     (if c = CHR 0x22 then Some ([], cs)
      else if c = CHR 0x5C then
        (case scan_escape cs of
           None \<Rightarrow> None
         | Some (x, r) \<Rightarrow> map_option (apfst ((@) x)) (scan_str r))
      else if code c < (32::nat) then None
      else map_option (apfst ((#) c)) (scan_str cs))"
  by pat_completeness auto
termination
  by (relation "measure length") (auto dest!: scan_escape_shorter)

definition scan_frac :: "str \<Rightarrow> str \<times> str" where
  "scan_frac s = (case expect (CHR ''.'') s of
      None \<Rightarrow> ([], s)
    | Some r \<Rightarrow> if takeWhile is_digit r = [] then ([], s)
                else (CHR ''.'' # takeWhile is_digit r, dropWhile is_digit r))"

definition scan_exp :: "str \<Rightarrow> str \<times> str" where
  "scan_exp s = (case s of
      e # r \<Rightarrow>
        if e = CHR ''e'' \<or> e = CHR ''E'' then
          (let sg = (if r \<noteq> [] \<and> (hd r = CHR ''+'' \<or> hd r = CHR ''-'') then [hd r] else []);
               ds = drop (length sg) r
           in if takeWhile is_digit ds = [] then ([], s)
              else (e # sg @ takeWhile is_digit ds, dropWhile is_digit ds))
        else ([], s)
    | [] \<Rightarrow> ([], s))"

definition scan_int :: "str \<Rightarrow> (str \<times> str) option" where
  "scan_int r = (case r of [] \<Rightarrow> None
    | c # cs \<Rightarrow> if c = CHR ''0'' then Some (''0'', cs)
                else if is_digit c then Some (takeWhile is_digit r, dropWhile is_digit r)
                else None)"

definition scan_num :: "str \<Rightarrow> (json \<times> str) option" where
  "scan_num s =
     (let neg = (s \<noteq> [] \<and> hd s = CHR ''-''); sg = (if neg then ''-'' else []) in do {
        (ds, r1) \<leftarrow> scan_int (if neg then tl s else s);
        let fr = scan_frac r1;
        let ex = scan_exp (snd fr);
        if fst fr = [] \<and> fst ex = [] then
          Some (JInt (if neg then - int (digits_val ds) else int (digits_val ds)), snd ex)
        else Some (JReal (sg @ ds @ fst fr @ fst ex), snd ex) })"

definition scan_const :: "str \<Rightarrow> (json \<times> str) option" where
  "scan_const s =
     (if startswith s ''null'' then Some (JNull, drop 4 s)
      else if startswith s ''true'' then Some (JBool True, drop 4 s)
      else if startswith s ''false'' then Some (JBool False, drop 5 s)
      else if startswith s ''NaN'' then Some (JReal ''NaN'', drop 3 s)
      else if startswith s ''Infinity'' then Some (JReal ''Infinity'', drop 8 s)
      else if startswith s ''-Infinity'' then Some (JReal ''-Infinity'', drop 9 s)
      else None)"

text \<open>
  What follows an element: the closing bracket, or a comma before the next one; and a member's
  key with its colon.
\<close>

definition scan_sep :: "char \<Rightarrow> str \<Rightarrow> (bool \<times> str) option" where
  "scan_sep close s =
     (case expect close (skip_ws s) of
        Some r \<Rightarrow> Some (True, r)
      | None \<Rightarrow> map_option (\<lambda>r. (False, skip_ws r)) (expect (CHR '','') (skip_ws s)))"

definition scan_key :: "str \<Rightarrow> (str \<times> str) option" where
  "scan_key s = do {
     s1 \<leftarrow> expect (CHR 0x22) s;
     (k, s2) \<leftarrow> scan_str s1;
     s3 \<leftarrow> expect (CHR '':'') (skip_ws s2);
     Some (k, skip_ws s3) }"

text \<open>
  The recursive scanner spends one unit of fuel per call; \<open>loads\<close> gives it two per character,
  which is enough (\<open>scan_fuel_enough\<close>).
\<close>

fun scan_val :: "nat \<Rightarrow> str \<Rightarrow> (json \<times> str) option"
  and scan_elems :: "nat \<Rightarrow> str \<Rightarrow> (json list \<times> str) option"
  and scan_members :: "nat \<Rightarrow> str \<Rightarrow> ((str \<times> json) list \<times> str) option" where
  "scan_val 0 s = None"
| "scan_val (Suc f) s =
     (case s of [] \<Rightarrow> None
      | c # cs \<Rightarrow>
          if c = CHR 0x22 then map_option (apfst JStr) (scan_str cs)
          else if c = CHR ''{'' then
            (case expect (CHR ''}'') (skip_ws cs) of
               Some r \<Rightarrow> Some (JObj [], r)
             | None \<Rightarrow> map_option (apfst (JObj \<circ> dict_of)) (scan_members f (skip_ws cs)))
          else if c = CHR ''['' then
            (case expect (CHR '']'') (skip_ws cs) of
               Some r \<Rightarrow> Some (JArr [], r)
             | None \<Rightarrow> map_option (apfst JArr) (scan_elems f (skip_ws cs)))
          else (case scan_const s of Some v \<Rightarrow> Some v | None \<Rightarrow> scan_num s))"
| "scan_elems 0 s = None"
| "scan_elems (Suc f) s =
     (case scan_val f s of None \<Rightarrow> None
      | Some (v, r) \<Rightarrow>
          (case scan_sep (CHR '']'') r of None \<Rightarrow> None
           | Some (fin, r1) \<Rightarrow>
               if fin then Some ([v], r1) else map_option (apfst ((#) v)) (scan_elems f r1)))"
| "scan_members 0 s = None"
| "scan_members (Suc f) s =
     (case scan_key s of None \<Rightarrow> None
      | Some (k, s1) \<Rightarrow>
          (case scan_val f s1 of None \<Rightarrow> None
           | Some (v, r) \<Rightarrow>
               (case scan_sep (CHR ''}'') r of None \<Rightarrow> None
                | Some (fin, r1) \<Rightarrow>
                    if fin then Some ([(k, v)], r1)
                    else map_option (apfst ((#) (k, v))) (scan_members f r1))))"

definition bom :: str where
  "bom = [char_of (239::nat), char_of (187::nat), char_of (191::nat)]"

text \<open>\<open>json.loads(s)\<close> on a \<open>str\<close>; \<open>None\<close> is \<open>JSONDecodeError\<close>, a \<open>ValueError\<close>.\<close>

definition loads :: "str \<Rightarrow> json option" where
  "loads s =
     (if startswith s bom then None
      else do {
        (v, r) \<leftarrow> scan_val (2 * length s + 1) (skip_ws s);
        if skip_ws r = [] then Some v else None })"

section \<open>Parsing bytes\<close>

text \<open>
  \<open>json.loads\<close> on \<open>bytes\<close> first guesses the encoding from a byte order mark or from the
  position of zero bytes; a failed decoding is a \<open>ValueError\<close> as well.
\<close>

datatype encoding = UTF_8 | UTF_8_SIG | UTF_16 bool | UTF_32 bool

text \<open>The flag of \<open>UTF_16\<close> and \<open>UTF_32\<close> says big endian.\<close>

definition at :: "bytes \<Rightarrow> nat \<Rightarrow> nat" where
  "at b i = (if i < length b then code (b ! i) else 0)"

definition detect_encoding :: "bytes \<Rightarrow> encoding \<times> bytes" where
  "detect_encoding b =
     (if 4 \<le> length b \<and> at b 0 = 0 \<and> at b 1 = 0 \<and> at b 2 = 254 \<and> at b 3 = 255 then (UTF_32 True, drop 4 b)
      else if 4 \<le> length b \<and> at b 0 = 255 \<and> at b 1 = 254 \<and> at b 2 = 0 \<and> at b 3 = 0 then (UTF_32 False, drop 4 b)
      else if at b 0 = 254 \<and> at b 1 = 255 then (UTF_16 True, drop 2 b)
      else if at b 0 = 255 \<and> at b 1 = 254 then (UTF_16 False, drop 2 b)
      else if startswith b bom then (UTF_8_SIG, drop 3 b)
      else if 4 \<le> length b \<and> at b 0 = 0 then (if at b 1 \<noteq> 0 then UTF_16 True else UTF_32 True, b)
      else if 4 \<le> length b \<and> at b 1 = 0 then
        (if at b 2 \<noteq> 0 \<or> at b 3 \<noteq> 0 then UTF_16 False else UTF_32 False, b)
      else if length b = 2 \<and> at b 0 = 0 then (UTF_16 True, b)
      else if length b = 2 \<and> at b 1 = 0 then (UTF_16 False, b)
      else (UTF_8, b))"

definition unit16 :: "bool \<Rightarrow> char \<Rightarrow> char \<Rightarrow> nat" where
  "unit16 big a b = (if big then 256 * code a + code b else 256 * code b + code a)"

text \<open>The 16-bit units, with surrogate pairs joined and lone surrogates passed.\<close>

fun units16 :: "bool \<Rightarrow> bytes \<Rightarrow> nat list option" where
  "units16 big [] = Some []"
| "units16 big [a] = None"
| "units16 big (a # b # r) = map_option ((#) (unit16 big a b)) (units16 big r)"

fun join_units :: "nat list \<Rightarrow> str" where
  "join_units [] = []"
| "join_units [u] = enc_cp u"
| "join_units (u # v # r) =
     (if 55296 \<le> u \<and> u < 56320 \<and> 56320 \<le> v \<and> v < 57344
      then enc_cp (65536 + (u - 55296) * 1024 + (v - 56320)) @ join_units r
      else enc_cp u @ join_units (v # r))"

fun decode32 :: "bool \<Rightarrow> bytes \<Rightarrow> str option" where
  "decode32 big [] = Some []"
| "decode32 big (a # b # c # d # r) =
     (let n = (if big then 65536 * unit16 big a b + unit16 big c d
               else 65536 * unit16 big c d + unit16 big a b)
      in if n < 1114112 then map_option ((@) (enc_cp n)) (decode32 big r) else None)"
| "decode32 big _ = None"

definition decode_bytes :: "bytes \<Rightarrow> str option" where
  "decode_bytes b = (case detect_encoding b of
      (UTF_8, r) \<Rightarrow> utf8_decode_surrogatepass r
    | (UTF_8_SIG, r) \<Rightarrow> utf8_decode_surrogatepass r
    | (UTF_16 big, r) \<Rightarrow> map_option join_units (units16 big r)
    | (UTF_32 big, r) \<Rightarrow> decode32 big r)"

definition loads_bytes :: "bytes \<Rightarrow> json option" where
  "loads_bytes b = Option.bind (decode_bytes b) loads"

end
