(* ===== verification/PyValue.thy ===== *)
theory PyValue
  imports Json
begin

text \<open>
  Operations of Python on values that came out of \<open>json.loads\<close>: truth, \<open>str()\<close> and
  \<open>repr()\<close>, \<open>.get\<close> on something that may not be a \<open>dict\<close>. \<open>repr\<close> escapes as for ASCII text; a
  code point above 127 counts as printable, and a float prints its literal.
\<close>

section \<open>Truth and equality\<close>

text \<open>\<open>bool(x)\<close>. A float literal is false when it has no digit from 1 to 9 in its mantissa.\<close>

definition real_zero :: "str \<Rightarrow> bool" where
  "real_zero t \<longleftrightarrow> t \<noteq> [] \<and> is_digit (last t) \<and>
     list_all (\<lambda>c. c = CHR ''0'' \<or> c = CHR ''.'' \<or> c = CHR ''-'')
       (takeWhile (\<lambda>c. c \<noteq> CHR ''e'' \<and> c \<noteq> CHR ''E'') t)"

fun truthy :: "json \<Rightarrow> bool" where
  "truthy JNull = False"
| "truthy (JBool b) = b"
| "truthy (JInt n) = (n \<noteq> 0)"
| "truthy (JReal t) = (\<not> real_zero t)"
| "truthy (JStr s) = (s \<noteq> [])"
| "truthy (JArr xs) = (xs \<noteq> [])"
| "truthy (JObj ps) = (ps \<noteq> [])"

lemma truthy_JStr_iff [simp]: "truthy v \<and> v = JStr s \<longleftrightarrow> v = JStr s \<and> s \<noteq> []"
  by auto

text \<open>
  \<open>==\<close>: \<open>bool\<close> is an \<open>int\<close>, the order of a \<open>dict\<close> does not count; floats compare by their
  literals.
\<close>

fun py_eq :: "json \<Rightarrow> json \<Rightarrow> bool" where
  "py_eq JNull w = (w = JNull)"
| "py_eq (JBool a) w = (w = JBool a \<or> w = JInt (of_bool a))"
| "py_eq (JInt n) w = (w = JInt n \<or> (\<exists>b \<in> {True, False}. w = JBool b \<and> n = of_bool b))"
| "py_eq (JReal t) w = (w = JReal t)"
| "py_eq (JStr s) w = (w = JStr s)"
| "py_eq (JArr xs) w = (case w of JArr ys \<Rightarrow> list_all2 py_eq xs ys | _ \<Rightarrow> False)"
| "py_eq (JObj ps) w = (case w of
      JObj qs \<Rightarrow> length ps = length qs \<and>
        list_all (\<lambda>p. case map_of qs (fst p) of None \<Rightarrow> False | Some v \<Rightarrow> py_eq (snd p) v) ps
    | _ \<Rightarrow> False)"

fun dicts_ok :: "json \<Rightarrow> bool" where
  "dicts_ok (JArr xs) = list_all dicts_ok xs"
| "dicts_ok (JObj ps) = (dict_ok ps \<and> list_all (\<lambda>p. dicts_ok (snd p)) ps)"
| "dicts_ok _ = True"

lemma py_eq_refl [simp]: "dicts_ok v \<Longrightarrow> py_eq v v"
proof (induction v rule: dicts_ok.induct)
  case (1 xs)
  then show ?case by (auto simp: list_all_iff intro!: list.rel_refl_strong)
next
  case (2 ps)
  have "map_of ps k = Some w" if "(k, w) \<in> set ps" for k w
    using 2(2) that by simp
  with 2 show ?case by (fastforce simp: list_all_iff)
qed simp_all

section \<open>\<open>str\<close> and \<open>repr\<close>\<close>

definition repr_char :: "char \<Rightarrow> char \<Rightarrow> str" where
  "repr_char q c =
     (if c = q \<or> c = CHR 0x5C then [CHR 0x5C, c]
      else if c = CHR 10 then [CHR 0x5C, CHR ''n'']
      else if c = CHR 13 then [CHR 0x5C, CHR ''r'']
      else if c = CHR 9 then [CHR 0x5C, CHR ''t'']
      else if code c < (32::nat) \<or> code c = (127::nat)
        then [CHR 0x5C, CHR ''x'', hex_digit (code c div 16), hex_digit (code c mod 16)]
      else [c])"

definition repr_str :: "str \<Rightarrow> str" where
  "repr_str s =
     (let q = (if CHR 0x27 \<in> set s \<and> CHR 0x22 \<notin> set s then CHR 0x22 else CHR 0x27)
      in q # concat (map (repr_char q) s) @ [q])"

fun py_repr :: "json \<Rightarrow> str"
  and repr_elems :: "json list \<Rightarrow> str"
  and repr_members :: "(str \<times> json) list \<Rightarrow> str" where
  "py_repr JNull = ''None''"
| "py_repr (JBool b) = (if b then ''True'' else ''False'')"
| "py_repr (JInt n) = int_str n"
| "py_repr (JReal t) = t"
| "py_repr (JStr s) = repr_str s"
| "py_repr (JArr xs) = CHR ''['' # repr_elems xs @ '']''"
| "py_repr (JObj ps) = CHR ''{'' # repr_members ps @ ''}''"
| "repr_elems [] = []"
| "repr_elems (x # xs) = py_repr x @ (if xs = [] then [] else '', '' @ repr_elems xs)"
| "repr_members [] = []"
| "repr_members ((s, x) # ps) =
     repr_str s @ '': '' @ py_repr x @ (if ps = [] then [] else '', '' @ repr_members ps)"

fun py_str :: "json \<Rightarrow> str" where
  "py_str (JStr s) = s"
| "py_str v = py_repr v"

section \<open>Access\<close>

text \<open>\<open>v.get(k, d)\<close>: only a \<open>dict\<close> has the attribute.\<close>

fun json_get :: "json \<Rightarrow> str \<Rightarrow> json \<Rightarrow> json res" where
  "json_get (JObj ps) k d = Inr (case dict_get ps k of None \<Rightarrow> d | Some v \<Rightarrow> v)"
| "json_get v k d = Inl AttributeError"

definition get_or :: "jdict \<Rightarrow> str \<Rightarrow> json \<Rightarrow> json" where
  "get_or m k d = (case dict_get m k of None \<Rightarrow> d | Some v \<Rightarrow> v)"

lemma json_get_JObj: "json_get (JObj m) k d = Inr (get_or m k d)"
  by (simp add: get_or_def)

fun is_obj :: "json \<Rightarrow> bool" where
  "is_obj (JObj _) = True"
| "is_obj _ = False"

text \<open>\<open>v[k]\<close> with a string key, and \<open>v[k]\<close> where the key is itself a JSON value.\<close>

fun json_item :: "json \<Rightarrow> str \<Rightarrow> json res" where
  "json_item (JObj ps) k = res_of_option KeyError (dict_get ps k)"
| "json_item v k = Inl TypeError"

fun hashable :: "json \<Rightarrow> bool" where
  "hashable (JArr _) = False"
| "hashable (JObj _) = False"
| "hashable _ = True"

fun json_item_by :: "json \<Rightarrow> json \<Rightarrow> json res" where
  "json_item_by (JObj ps) (JStr k) = res_of_option KeyError (dict_get ps k)"
| "json_item_by (JObj ps) k = (if hashable k then Inl KeyError else Inl TypeError)"
| "json_item_by v k = Inl TypeError"

text \<open>\<open>v[0]\<close>; the first code point of a string.\<close>

fun json_first :: "json \<Rightarrow> json res" where
  "json_first (JArr []) = Inl IndexError"
| "json_first (JArr (x # _)) = Inr x"
| "json_first (JStr []) = Inl IndexError"
| "json_first (JStr s) = Inr (JStr (cp_take 1 s))"
| "json_first (JObj _) = Inl KeyError"
| "json_first _ = Inl TypeError"

text \<open>\<open>k in v\<close> for a string \<open>k\<close>.\<close>

fun json_in :: "str \<Rightarrow> json \<Rightarrow> bool res" where
  "json_in k (JObj ps) = Inr (k \<in> set (dict_keys ps))"
| "json_in k (JArr xs) = Inr (JStr k \<in> set xs)"
| "json_in k (JStr s) = Inr (sublist k s)"
| "json_in k _ = Inl TypeError"

text \<open>\<open>for x in v\<close>, and \<open>v.items()\<close>.\<close>

function code_points :: "str \<Rightarrow> str list" where
  "code_points s = (if s = [] then [] else
     let c = hd s # takeWhile is_cont (tl s) in c # code_points (dropWhile is_cont (tl s)))"
  by pat_completeness auto
termination
  by (relation "measure length") (auto simp: length_dropWhile_le le_imp_less_Suc neq_Nil_conv)

declare code_points.simps [simp del]

fun json_iter :: "json \<Rightarrow> json list res" where
  "json_iter (JArr xs) = Inr xs"
| "json_iter (JObj ps) = Inr (map (JStr \<circ> fst) ps)"
| "json_iter (JStr s) = Inr (map JStr (code_points s))"
| "json_iter _ = Inl TypeError"

fun json_items :: "json \<Rightarrow> jdict res" where
  "json_items (JObj ps) = Inr ps"
| "json_items _ = Inl AttributeError"

text \<open>
  A number used as an index: \<open>bool\<close> is an \<open>int\<close>; a float is not an index (its arithmetic is
  outside the model).
\<close>

fun json_int :: "json \<Rightarrow> int res" where
  "json_int (JInt n) = Inr n"
| "json_int (JBool b) = Inr (of_bool b)"
| "json_int _ = Inl TypeError"

end
