(* ===== verification/Replay.thy ===== *)
theory Replay
  imports Codec PyValue
begin

text \<open>
  \<open>server/replay.py\<close> and \<open>server/responses.py\<close>: the captured LG responses that are replayed with the
  time brought up to date, and the synthetic responses used when there is no capture. The store
  file and the clock are the environment; the loaded store is the state.
\<close>

section \<open>The synthetic responses\<close>

definition wrap_code :: "str \<Rightarrow> str \<Rightarrow> str \<Rightarrow> bytes" where
  "wrap_code body return_cd return_msg =
     ''<?xml version=\"1.0\" encoding=\"UTF-8\"?>'' @ [CHR 10] @ ''<lgedmRoot>'' @ body @
     ''<returnCd>'' @ return_cd @ ''</returnCd><returnMsg>'' @ return_msg @ ''</returnMsg></lgedmRoot>''"

definition wrap :: "str \<Rightarrow> bytes" where
  "wrap body = wrap_code body ''0000'' ''OK''"

definition ok :: bytes where
  "ok = wrap []"

definition element_list :: "str \<Rightarrow> str \<Rightarrow> str" where
  "element_list name val = ''<elementList><elementCode>'' @ name @ ''</elementCode><elementValue>'' @ val @
     ''</elementValue></elementList>''"

definition total_device_info :: "str \<Rightarrow> str option \<Rightarrow> bytes" where
  "total_device_info utc item =
     (if item = Some ''THINQ_TIME_SYNC_URI'' then
        wrap (''<itemList>'' @ element_list ''utcTime'' utc @ element_list ''timezone'' ''2'' @
          ''<item>THINQ_TIME_SYNC_URI</item><returnCode>0000</returnCode></itemList>'')
      else if item = Some ''DM_SETTING_INFO_GET_URI'' then
        wrap ''<settingInfoList></settingInfoList><pushDetailSettingList></pushDetailSettingList>''
      else ok)"

definition contents_ver :: bytes where
  "contents_ver = wrap ''<verName>QC_Modem_1.2.80</verName>''"

definition power_saving_info :: bytes where
  "power_saving_info = wrap_code [] ''0108'' ''No Saving Data.''"

definition diagmon :: bytes where
  "diagmon = []"

section \<open>The store\<close>

record replay_env =
  store_present :: bool
  store_text :: "str res"
  utc_now :: str

record replay_state =
  loaded :: bool
  captures :: json

text \<open>
  The store is read at the first use. A file that cannot be read or parsed counts as an empty
  store; one that holds a number or \<open>true\<close> raises when its size is logged, once.
\<close>

fun has_len :: "json \<Rightarrow> bool" where
  "has_len (JStr _) = True"
| "has_len (JArr _) = True"
| "has_len (JObj _) = True"
| "has_len _ = False"

definition read_store :: "'e replay_env_scheme \<Rightarrow> json res" where
  "read_store env =
     (if \<not> store_present env then Inr (JObj [])
      else case store_text env of
          Inl e \<Rightarrow> if e \<in> {OSError, ValueError} then Inr (JObj []) else Inl e
        | Inr t \<Rightarrow> (case loads t of
              None \<Rightarrow> Inr (JObj [])
            | Some v \<Rightarrow> Inr (if truthy v then v else JObj [])))"

definition load_store :: "'e replay_env_scheme \<Rightarrow> replay_state \<Rightarrow> json res \<times> replay_state" where
  "load_store env st =
     (if loaded st then (Inr (captures st), st)
      else case read_store env of
          Inl e \<Rightarrow> (Inl e, \<lparr>loaded = True, captures = JObj []\<rparr>)
        | Inr v \<Rightarrow>
            (if truthy v \<and> \<not> has_len v then Inl TypeError else Inr v, \<lparr>loaded = True, captures = v\<rparr>))"

section \<open>Dynamic fields\<close>

definition utc_open :: str where
  "utc_open = ''<elementCode>utcTime</elementCode><elementValue>''"

definition utc_close :: str where
  "utc_close = ''</elementValue>''"

definition match_utc :: "str \<Rightarrow> str scanner" where
  "match_utc utc s =
     (if startswith s utc_open then
        (let r = drop (length utc_open) s; v = takeWhile (\<lambda>c. c \<noteq> CHR ''<'') r;
             r' = dropWhile (\<lambda>c. c \<noteq> CHR ''<'') r in
         if v \<noteq> [] \<and> startswith r' utc_close
         then Some (utc_open @ utc @ utc_close, length utc_open + length v + length utc_close)
         else None)
      else None)"

definition update_dynamic :: "str \<Rightarrow> str \<Rightarrow> str" where
  "update_dynamic utc body = re_sub (match_utc utc) 0 body"

section \<open>Matching a request\<close>

text \<open>\<open>Content-Type: ([^\r\n]+)\<close> and \<open>HTTP/\S+ (\d+)\<close>.\<close>

definition match_content_type :: "str scanner" where
  "match_content_type s =
     (if startswith s ''Content-Type: '' then
        (let v = takeWhile (\<lambda>c. c \<noteq> CHR 10 \<and> c \<noteq> CHR 13) (drop 14 s) in
         if v \<noteq> [] then Some (v, 14 + length v) else None)
      else None)"

definition match_status :: "str scanner" where
  "match_status s =
     (if startswith s ''HTTP/'' then
        (let v = takeWhile (\<lambda>c. \<not> is_space c) (drop 5 s); r = dropWhile (\<lambda>c. \<not> is_space c) (drop 5 s);
             n = takeWhile is_digit (drop 1 r) in
         if v \<noteq> [] \<and> startswith r '' '' \<and> n \<noteq> [] then Some (n, 6 + length v + length n) else None)
      else None)"

type_synonym response = "int \<times> str \<times> bytes"

definition json_text :: "json \<Rightarrow> str res" where
  "json_text v = (case v of JStr s \<Rightarrow> Inr s | _ \<Rightarrow> Inl TypeError)"

definition encode_utf8 :: "str \<Rightarrow> bytes res" where
  "encode_utf8 s = res_of_option ValueError (utf8_decode s)"

definition entry_response :: "str \<Rightarrow> json \<Rightarrow> response res" where
  "entry_response utc data =
     rbind (rbind (json_item data ''response_body'') json_text) (\<lambda>body.
     rbind (rbind (json_item data ''response_headers'') json_text) (\<lambda>headers.
     rbind (encode_utf8 (update_dynamic utc body)) (\<lambda>b.
       Inr (case re_search match_status headers of
              None \<Rightarrow> 200 | Some n \<Rightarrow> int (digits_val n),
            case re_search match_content_type headers of
              None \<Rightarrow> ''text/xml;charset=utf-8'' | Some c \<Rightarrow> py_strip c,
            b))))"

definition segments :: "str \<Rightarrow> str list" where
  "segments path = split_on (CHR ''/'') (py_rstrip_char (CHR ''/'') path)"

definition service_of :: "str \<Rightarrow> str" where
  "service_of key = last (segments (takeWhile (\<lambda>c. c \<noteq> CHR ''|'') key))"

definition item_of :: "str \<Rightarrow> str" where
  "item_of key = drop 1 (dropWhile (\<lambda>c. c \<noteq> CHR ''|'') key)"

definition serves :: "str \<Rightarrow> str option \<Rightarrow> str \<Rightarrow> bool" where
  "serves path item key \<longleftrightarrow> service_of key \<noteq> [] \<and> service_of key \<in> set (segments path) \<and>
     item_of key = (case item of None \<Rightarrow> [] | Some i \<Rightarrow> i)"

definition replay_response ::
  "'e replay_env_scheme \<Rightarrow> str \<Rightarrow> str option \<Rightarrow> replay_state \<Rightarrow> response option res \<times> replay_state" where
  "replay_response env path item st = (case load_store env st of
      (Inl e, st') \<Rightarrow> (Inl e, st')
    | (Inr store, st') \<Rightarrow>
        (rbind (json_items store) (\<lambda>es. case find (\<lambda>(key, data). serves path item key) es of
             None \<Rightarrow> Inr None
           | Some (key, data) \<Rightarrow> rbind (entry_response (utc_now env) data) (\<lambda>r. Inr (Some r))), st'))"

definition available_endpoints :: "'e replay_env_scheme \<Rightarrow> replay_state \<Rightarrow> str list res \<times> replay_state" where
  "available_endpoints env st = (case load_store env st of
      (Inl e, st') \<Rightarrow> (Inl e, st')
    | (Inr store, st') \<Rightarrow> (rbind (json_items store) (\<lambda>es. Inr (dict_keys es)), st'))"

section \<open>Lemmas\<close>

lemma load_store_loaded [simp]: "loaded st \<Longrightarrow> load_store env st = (Inr (captures st), st)"
  by (simp add: load_store_def)

lemma load_store_keeps: "load_store env st = (r, st') \<Longrightarrow> loaded st' \<and> (\<forall>v. r = Inr v \<longrightarrow> v = captures st')"
  by (auto simp: load_store_def split: if_splits sum.splits)

lemma load_store_twice:
  "load_store env st = (r, st') \<Longrightarrow> load_store env' st' = (Inr (captures st'), st')"
  using load_store_keeps by fastforce

text \<open>The time is replaced where it stands; what has no \<open>utcTime\<close> element is untouched.\<close>

lemma match_utc_element:
  assumes "v \<noteq> []" "CHR ''<'' \<notin> set v"
  shows "match_utc utc (utc_open @ v @ utc_close @ r) =
    Some (utc_open @ utc @ utc_close, length (utc_open @ v @ utc_close))"
proof -
  have "takeWhile (\<lambda>c. c \<noteq> CHR ''<'') (v @ utc_close @ r) = v"
    "dropWhile (\<lambda>c. c \<noteq> CHR ''<'') (v @ utc_close @ r) = utc_close @ r"
    using assms(2) by (auto simp: takeWhile_append dropWhile_append utc_close_def)
  with assms(1) show ?thesis by (simp add: match_utc_def)
qed

lemma match_utc_starts: "match_utc utc s = Some x \<Longrightarrow> startswith s utc_open"
  by (auto simp: match_utc_def split: if_splits)

lemma update_dynamic_element:
  assumes "v \<noteq> []" "CHR ''<'' \<notin> set v"
  shows "update_dynamic utc (utc_open @ v @ utc_close @ r) = utc_open @ utc @ utc_close @ update_dynamic utc r"
  using re_sub_match [of "match_utc utc" "utc_open @ v @ utc_close" r] match_utc_element [OF assms, of utc r] assms(1)
  by (simp add: update_dynamic_def)

lemma update_dynamic_plain:
  "CHR ''<'' \<notin> set a \<Longrightarrow> update_dynamic utc (a @ r) = a @ update_dynamic utc r"
proof (induction a)
  case (Cons c a)
  then have "\<not> startswith (c # a @ r) utc_open" by (auto simp: startswith_def utc_open_def)
  then have "match_utc utc (c # a @ r) = None"
    using match_utc_starts [of utc "c # a @ r"] by (cases "match_utc utc (c # a @ r)") auto
  with Cons show ?case by (simp add: update_dynamic_def)
qed simp

lemma find_SomeD: "find P xs = Some x \<Longrightarrow> x \<in> set xs \<and> P x"
  by (auto simp: find_Some_iff)

text \<open>
  C34. Replay is strict: a response is only ever served from a capture whose service is a
  segment of the requested path and whose item is the one requested, with the status and content
  type of its captured headers; and with two captured variants of a service, each request gets
  its own.
\<close>

theorem replay_strict:
  assumes "replay_response env path item st = (Inr (Some resp), st')"
  shows "loaded st' \<and> (\<exists>es key data. captures st' = JObj es \<and> (key, data) \<in> set es \<and> service_of key \<noteq> [] \<and>
    service_of key \<in> set (segments path) \<and> item_of key = (case item of None \<Rightarrow> [] | Some i \<Rightarrow> i) \<and>
    entry_response (utc_now env) data = Inr resp)"
proof -
  obtain store where l: "load_store env st = (Inr store, st')"
    using assms by (auto simp: replay_response_def split: prod.splits sum.splits)
  with assms obtain es key data where es: "store = JObj es" "find (\<lambda>(key, data). serves path item key) es = Some (key, data)"
      "entry_response (utc_now env) data = Inr resp"
    by (cases store) (auto simp: replay_response_def rbind_Inr_iff split: option.splits)
  moreover from find_SomeD [OF es(2)] have "(key, data) \<in> set es" "serves path item key" by auto
  moreover have "loaded st'" "captures st' = JObj es" using load_store_keeps [OF l] es(1) by simp_all
  ultimately show ?thesis unfolding serves_def by blast
qed

definition sample_capture :: "str \<Rightarrow> json" where
  "sample_capture body = JObj [(''response_body'', JStr body),
     (''response_headers'', JStr (''HTTP/1.1 200 OK'' @ [CHR 13, CHR 10] @ ''Content-Type: text/xml''))]"

definition sample_replay :: replay_state where
  "sample_replay = \<lparr>loaded = True, captures = JObj
     [(''/api/Device/TotalDeviceInfoSvc|TIME'', sample_capture (utc_open @ ''old'' @ utc_close)),
      (''/api/Device/TotalDeviceInfoSvc|SETTINGS'', sample_capture ''<s/>'')]\<rparr>"

definition sample_replay_env :: replay_env where
  "sample_replay_env = \<lparr>store_present = False, store_text = Inl OSError, utc_now = ''new''\<rparr>"

lemma sample_variants:
  "replay_response sample_replay_env ''/lgehadm/api/Device/TotalDeviceInfoSvc'' (Some ''TIME'') sample_replay =
     (Inr (Some (200, ''text/xml'', utc_open @ ''new'' @ utc_close)), sample_replay)"
  "replay_response sample_replay_env ''/lgehadm/api/Device/TotalDeviceInfoSvc'' (Some ''SETTINGS'') sample_replay =
     (Inr (Some (200, ''text/xml'', ''<s/>'')), sample_replay)"
  "replay_response sample_replay_env ''/lgehadm/api/Device/TotalDeviceInfoSvcX'' (Some ''TIME'') sample_replay =
     (Inr None, sample_replay)"
  by code_simp+

theorem replay_strict_witness:
  "\<exists>es key data. captures sample_replay = JObj es \<and> (key, data) \<in> set es \<and> item_of key = ''SETTINGS'' \<and>
     entry_response ''new'' data = Inr (200, ''text/xml'', ''<s/>'')"
  using replay_strict [OF sample_variants(2)] by (auto simp: sample_replay_env_def)

end
