(* ===== verification/ModelJson.thy ===== *)
theory ModelJson
  imports Codec PyValue
begin

text \<open>
  \<open>server/models/model_json.py\<close>: the decoder of a binary state blob driven by the model's
  \<open>modelJson\<close>. The modelJson is any JSON value (it is read from a file), so each access can
  raise. The keys a protocol or a JSON monitor declares are strings; a protocol item whose
  \<open>value\<close> is not a string is given a \<open>TypeError\<close>.
\<close>

section \<open>Labels\<close>

definition unknown_label :: json where
  [const_defs]: "unknown_label = JStr ''Unknown''"

text \<open>
  The regular expression \<open>^@(.*)_W$\<close>: the dot stops at a newline, the dollar also stands
  before a final newline.
\<close>

definition label_match :: "str \<Rightarrow> str option" where
  "label_match l =
     (let s = (if l \<noteq> [] \<and> last l = CHR 10 then butlast l else l) in
      if startswith s ''@'' \<and> endswith (drop 1 s) ''_W'' \<and> CHR 10 \<notin> set s
      then Some (take (length s - 3) (drop 1 s)) else None)"

definition clean_label :: "json \<Rightarrow> json res" where
  "clean_label l = (case l of
      JStr s \<Rightarrow> Inr (JStr (case label_match s of None \<Rightarrow> s | Some g \<Rightarrow> g))
    | _ \<Rightarrow> Inl TypeError)"

section \<open>The binary layout\<close>

definition binary_monitor :: "json \<Rightarrow> bool res" where
  "binary_monitor mj =
     rbind (json_get mj ''Monitoring'' (JObj [])) (\<lambda>m.
     rbind (json_get m ''type'' JNull) (\<lambda>t. Inr (t = JStr ''BINARY(BYTE)'')))"

definition set_field :: "jdict \<Rightarrow> json \<Rightarrow> json \<Rightarrow> jdict res" where
  "set_field d k v = (case k of JStr s \<Rightarrow> Inr (dict_set d s v) | _ \<Rightarrow> Inl TypeError)"

text \<open>One item of \<open>Monitoring.protocol\<close>.\<close>

definition decode_item :: "bytes \<Rightarrow> jdict \<Rightarrow> json \<Rightarrow> jdict res" where
  "decode_item blob d item =
     rbind (json_item item ''startByte'') (\<lambda>st.
     rbind (json_item item ''length'') (\<lambda>ln.
     rbind (json_int st) (\<lambda>start.
     rbind (json_int ln) (\<lambda>len.
       if int (length blob) < start + len then
         rbind (json_item item ''value'') (\<lambda>k. set_field d k unknown_label)
       else
         let value = be_int (py_slice blob start (start + len)) in
         rbind (json_item item ''value'') (\<lambda>k. set_field d k (JStr (nat_str value)))))))"

fun decode_items :: "bytes \<Rightarrow> jdict \<Rightarrow> json list \<Rightarrow> jdict res" where
  "decode_items blob d [] = Inr d"
| "decode_items blob d (i # is) = rbind (decode_item blob d i) (\<lambda>d'. decode_items blob d' is)"

definition decode_monitor_binary :: "json \<Rightarrow> bytes \<Rightarrow> jdict res" where
  "decode_monitor_binary mj blob =
     rbind (json_item mj ''Monitoring'') (\<lambda>m.
     rbind (json_item m ''protocol'') (\<lambda>p.
     rbind (json_iter p) (\<lambda>items. decode_items blob [] items)))"

definition decode_monitor :: "json \<Rightarrow> bytes \<Rightarrow> json res" where
  "decode_monitor mj blob =
     rbind (binary_monitor mj) (\<lambda>b.
       if b then rbind (decode_monitor_binary mj blob) (\<lambda>d. Inr (JObj d))
       else rbind (res_of_option ValueError (utf8_decode blob)) (\<lambda>s.
              res_of_option ValueError (loads s)))"

section \<open>Names for the values\<close>

datatype value_desc = VEnum json | VRange json | VBit "(json \<times> json) list" | VReference json
  | VString json

text \<open>The comprehension over a bit field's options, its pairs in order.\<close>

definition bit_options :: "json \<Rightarrow> (json \<times> json) list res" where
  "bit_options opts =
     rbind (json_iter opts) (\<lambda>xs. rtraverse (\<lambda>opt.
       rbind (json_item opt ''startbit'') (\<lambda>k.
       rbind (json_item opt ''value'') (\<lambda>v.
         if hashable k then Inr (k, v) else Inl TypeError))) xs)"

definition value_of :: "json \<Rightarrow> str \<Rightarrow> value_desc res" where
  "value_of mj name =
     rbind (json_item mj ''Value'') (\<lambda>vs.
     rbind (json_item vs name) (\<lambda>d.
     rbind (json_item d ''type'') (\<lambda>t.
       if t = JStr ''Enum'' \<or> t = JStr ''enum'' then
         rbind (json_item d ''option'') (\<lambda>opts. Inr (VEnum opts))
       else if t = JStr ''Range'' then
         rbind (json_item d ''option'') (\<lambda>opts. Inr (VRange opts))
       else (case t of
           JStr s \<Rightarrow>
             (if py_lower s = ''bit'' then
                rbind (json_item d ''option'') (\<lambda>opts.
                rbind (bit_options opts) (\<lambda>ps. Inr (VBit ps)))
              else if py_lower s = ''reference'' then
                rbind (json_item d ''option'') (\<lambda>opts.
                rbind (json_first opts) (\<lambda>r.
                rbind (json_item_by mj r) (\<lambda>table. Inr (VReference table))))
              else if py_lower s = ''string'' then
                rbind (json_get d ''_comment'' (JStr [])) (\<lambda>c. Inr (VString c))
              else Inl ValueError)
         | _ \<Rightarrow> Inl AttributeError))))"

definition enum_name :: "json \<Rightarrow> str \<Rightarrow> json \<Rightarrow> json res" where
  "enum_name mj key v =
     rbind (value_of mj key) (\<lambda>d. case d of
        VEnum (JObj opts) \<Rightarrow>
          (case v of JStr s \<Rightarrow> Inr (get_or opts s unknown_label)
           | _ \<Rightarrow> if hashable v then Inr unknown_label else Inl TypeError)
      | VEnum _ \<Rightarrow> Inl AttributeError
      | _ \<Rightarrow> Inr v)"

definition reference_name :: "json \<Rightarrow> str \<Rightarrow> json \<Rightarrow> json res" where
  "reference_name mj key v =
     rbind (value_of mj key) (\<lambda>d. case d of
        VReference table \<Rightarrow>
          rbind (json_in (py_str v) table) (\<lambda>present.
            if present then
              rbind (json_item table (py_str v)) (\<lambda>e. json_get e ''_comment'' JNull)
            else Inr JNull)
      | _ \<Rightarrow> Inr JNull)"

definition friendly_value :: "json \<Rightarrow> str \<Rightarrow> json \<Rightarrow> json res" where
  "friendly_value mj key v =
     rbind (json_get mj ''Value'' (JObj [])) (\<lambda>vs.
     rbind (json_in key vs) (\<lambda>known.
       if \<not> known then Inr v
       else rbind (value_of mj key) (\<lambda>d. case d of
           VEnum _ \<Rightarrow> rbind (enum_name mj key v) clean_label
         | VReference _ \<Rightarrow>
             rbind (reference_name mj key v) (\<lambda>r. if truthy r then clean_label r else Inr v)
         | _ \<Rightarrow> Inr v)))"

fun friendly_items :: "json \<Rightarrow> jdict \<Rightarrow> jdict \<Rightarrow> jdict res" where
  "friendly_items mj d [] = Inr d"
| "friendly_items mj d ((k, v) # ps) =
     rbind (friendly_value mj k v) (\<lambda>v'. friendly_items mj (dict_set d k v') ps)"

text \<open>\<open>ModelInfo.decode_friendly\<close> and \<open>decode_with_model_json\<close>.\<close>

definition decode_friendly :: "json \<Rightarrow> bytes \<Rightarrow> jdict res" where
  "decode_friendly mj blob =
     rbind (decode_monitor mj blob) (\<lambda>v.
     rbind (json_items v) (\<lambda>ps. friendly_items mj [] ps))"

definition decode_with_model_json :: "bytes \<Rightarrow> json \<Rightarrow> jdict res" where
  "decode_with_model_json blob mj = decode_friendly mj blob"

section \<open>What a well-formed layout decodes to\<close>

type_synonym layout_field = "str \<times> nat \<times> nat"

definition item_declares :: "json \<Rightarrow> layout_field \<Rightarrow> bool" where
  "item_declares i f = (case f of (k, st, ln) \<Rightarrow>
     json_item i ''value'' = Inr (JStr k) \<and> json_item i ''startByte'' = Inr (JInt (int st)) \<and>
     json_item i ''length'' = Inr (JInt (int ln)))"

definition layout_of :: "json \<Rightarrow> layout_field list \<Rightarrow> bool" where
  "layout_of mj fs \<longleftrightarrow>
     (\<exists>m items. json_item mj ''Monitoring'' = Inr m \<and> json_item m ''type'' = Inr (JStr ''BINARY(BYTE)'') \<and>
        json_item m ''protocol'' = Inr (JArr items) \<and> list_all2 item_declares items fs)"

definition field_value :: "bytes \<Rightarrow> nat \<Rightarrow> nat \<Rightarrow> json" where
  "field_value blob st ln =
     (if length blob < st + ln then unknown_label
      else JStr (nat_str (be_int (take ln (drop st blob)))))"

definition layout_values :: "layout_field list \<Rightarrow> bytes \<Rightarrow> jdict" where
  "layout_values fs blob = map (\<lambda>(k, st, ln). (k, field_value blob st ln)) fs"

lemma py_slice_nat:
  "st + ln \<le> length xs \<Longrightarrow> py_slice xs (int st) (int st + int ln) = take ln (drop st xs)"
  by (simp add: py_slice_def slice_bound_def nat_add_distrib min_absorb1 min_absorb2)

lemma decode_item_declared:
  "item_declares i (k, st, ln) \<Longrightarrow> decode_item blob d i = Inr (dict_set d k (field_value blob st ln))"
  by (auto simp: item_declares_def decode_item_def set_field_def field_value_def py_slice_nat Let_def)

lemma decode_items_declared:
  "list_all2 item_declares items fs \<Longrightarrow>
   decode_items blob d items = Inr (dict_update d (layout_values fs blob))"
proof (induction items arbitrary: d fs)
  case (Cons i items)
  then obtain k st ln fs' where "fs = (k, st, ln) # fs'" "item_declares i (k, st, ln)"
    "list_all2 item_declares items fs'"
    by (auto simp: list_all2_Cons1)
  with Cons.IH show ?case by (simp add: decode_item_declared layout_values_def)
qed (simp add: layout_values_def)

lemma keys_layout_values: "dict_keys (layout_values fs blob) = map fst fs"
  by (induction fs) (auto simp: layout_values_def)

lemma json_item_get: "json_item v k = Inr x \<Longrightarrow> json_get v k d = Inr x"
  by (cases v) auto

lemma decode_monitor_layout:
  assumes "layout_of mj fs" "distinct (map fst fs)"
  shows "decode_monitor mj blob = Inr (JObj (layout_values fs blob))"
proof -
  obtain m items where m: "json_item mj ''Monitoring'' = Inr m"
      "json_item m ''type'' = Inr (JStr ''BINARY(BYTE)'')" "json_item m ''protocol'' = Inr (JArr items)"
    and items: "list_all2 item_declares items fs"
    using assms(1) by (auto simp: layout_of_def)
  have "binary_monitor mj = Inr True"
    using m by (simp add: binary_monitor_def json_item_get)
  moreover have "dict_ok (layout_values fs blob)" using assms(2) by (simp add: keys_layout_values)
  then have "dict_update [] (layout_values fs blob) = layout_values fs blob"
    by (simp add: dict_update_append_new)
  ultimately show ?thesis
    using m decode_items_declared [OF items, of blob "[]"]
    by (simp add: decode_monitor_def decode_monitor_binary_def)
qed

lemma field_value_bound:
  "field_value blob st ln = JStr (nat_str n) \<Longrightarrow> st + ln \<le> length blob \<Longrightarrow> n < 256 ^ ln"
  using be_int_bound [of "take ln (drop st blob)"] by (simp add: field_value_def)

text \<open>Renaming keeps the keys and treats each value by itself.\<close>

lemma friendly_items_get:
  "friendly_items mj d ps = Inr out \<Longrightarrow> dict_ok ps \<Longrightarrow>
   map_of out k = (case map_of ps k of None \<Rightarrow> map_of d k
     | Some v \<Rightarrow> (case friendly_value mj k v of Inl _ \<Rightarrow> None | Inr w \<Rightarrow> Some w))"
proof (induction mj d ps rule: friendly_items.induct)
  case (2 mj d k' v ps)
  then obtain v' where v': "friendly_value mj k' v = Inr v'"
      "friendly_items mj (dict_set d k' v') ps = Inr out"
    by (auto simp: rbind_Inr_iff)
  have new: "map_of ps k' = None" using "2.prems"(2) by (simp add: map_of_eq_None_iff)
  have "map_of out k = (case map_of ps k of None \<Rightarrow> map_of (dict_set d k' v') k
     | Some v \<Rightarrow> (case friendly_value mj k v of Inl _ \<Rightarrow> None | Inr w \<Rightarrow> Some w))"
    using "2.IH" [OF v'] "2.prems"(2) by simp
  with new v'(1) show ?case by (cases "k = k'") (auto split: option.splits)
qed simp

lemma friendly_items_all:
  "friendly_items mj d ps = Inr out \<Longrightarrow> (k, v) \<in> set ps \<Longrightarrow> \<exists>w. friendly_value mj k v = Inr w"
  by (induction mj d ps rule: friendly_items.induct) (auto simp: rbind_Inr_iff)

lemma friendly_items_lookup:
  assumes "friendly_items mj [] ps = Inr out" "dict_ok ps"
  shows "map_of out k = Some w \<longleftrightarrow> (\<exists>v. map_of ps k = Some v \<and> friendly_value mj k v = Inr w)"
  using friendly_items_get [OF assms, of k] friendly_items_all [OF assms(1), of k]
  by (auto split: option.splits sum.splits dest: map_of_SomeD)

text \<open>The value tables.\<close>

lemma json_item_in: "json_item v k = Inr x \<Longrightarrow> json_in k v = Inr True"
  by (cases v) (auto dest!: map_of_SomeD intro: rev_image_eqI)

lemma friendly_undeclared:
  "json_item mj ''Value'' = Inr (JObj vs) \<Longrightarrow> k \<notin> fst ` set vs \<Longrightarrow> friendly_value mj k v = Inr v"
  by (auto simp: friendly_value_def json_item_get)

lemma friendly_items_total:
  "(\<And>k v. (k, v) \<in> set ps \<Longrightarrow> \<exists>w. friendly_value mj k v = Inr w) \<Longrightarrow>
   \<exists>out. friendly_items mj d ps = Inr out"
proof (induction mj d ps rule: friendly_items.induct)
  case (2 mj d k v ps)
  then obtain w where "friendly_value mj k v = Inr w" by fastforce
  with 2 show ?case by simp
qed simp

lemma friendly_items_keys: "friendly_items mj d ps = Inr out \<Longrightarrow> fst ` set out = fst ` set d \<union> fst ` set ps"
proof (induction mj d ps rule: friendly_items.induct)
  case (2 mj d k v ps)
  then obtain w where "friendly_value mj k v = Inr w" "friendly_items mj (dict_set d k w) ps = Inr out"
    by (auto simp: rbind_Inr_iff)
  with "2.IH" have "fst ` set out = fst ` set (dict_set d k w) \<union> fst ` set ps" by blast
  then show ?case by simp
qed simp

lemma friendly_items_dict_ok: "friendly_items mj d ps = Inr out \<Longrightarrow> dict_ok d \<Longrightarrow> dict_ok out"
  by (induction mj d ps rule: friendly_items.induct) (auto simp: rbind_Inr_iff)

definition undeclared :: "json \<Rightarrow> str \<Rightarrow> bool" where
  "undeclared mj k \<longleftrightarrow> (\<exists>vs. json_item mj ''Value'' = Inr (JObj vs) \<and> k \<notin> fst ` set vs)"

definition string_labels :: "jdict \<Rightarrow> bool" where
  "string_labels opts \<longleftrightarrow> (\<forall>(k, v) \<in> set opts. \<exists>l. v = JStr l)"

lemma clean_label_string: "string_labels opts \<Longrightarrow> \<exists>w. clean_label (get_or opts s unknown_label) = Inr (JStr w)"
  by (auto simp: clean_label_def get_or_def string_labels_def unknown_label_def
      split: option.splits json.splits dest!: map_of_SomeD)

lemma field_value_string: "\<exists>s. field_value blob st ln = JStr s"
  by (simp add: field_value_def unknown_label_def)

section \<open>What the tables of a model say of a field\<close>

text \<open>
  A field without a description, one with labels, one whose value passes as it is (a range, bits, a string),
  and one that refers to another table of the model.
\<close>

datatype field_kind = Undeclared | Enumerated jdict | Verbatim | Referenced jdict

definition described :: "json \<Rightarrow> str \<Rightarrow> str \<Rightarrow> json \<Rightarrow> bool" where
  "described mj k t d \<longleftrightarrow> (\<exists>vs. json_item mj ''Value'' = Inr vs \<and> json_item vs k = Inr d \<and> json_item d ''type'' = Inr (JStr t))"

definition comment_ok :: "json \<Rightarrow> bool" where
  "comment_ok e \<longleftrightarrow> (\<exists>ps. e = JObj ps \<and> (get_or ps ''_comment'' JNull = JNull \<or> (\<exists>c. get_or ps ''_comment'' JNull = JStr c)))"

fun has_kind :: "json \<Rightarrow> str \<Rightarrow> field_kind \<Rightarrow> bool" where
  "has_kind mj k Undeclared = undeclared mj k"
| "has_kind mj k (Enumerated opts) = ((\<exists>t d. described mj k t d \<and> t \<in> {''Enum'', ''enum''} \<and> json_item d ''option'' = Inr (JObj opts)) \<and>
     string_labels opts)"
| "has_kind mj k Verbatim = (\<exists>t d. described mj k t d \<and>
     (t = ''Range'' \<and> (\<exists>opt. json_item d ''option'' = Inr opt) \<or>
      py_lower t = ''bit'' \<and> (\<exists>opt ps. json_item d ''option'' = Inr opt \<and> bit_options opt = Inr ps) \<or>
      py_lower t = ''string''))"
| "has_kind mj k (Referenced table) = ((\<exists>t d r rest. described mj k t d \<and> py_lower t = ''reference'' \<and>
     json_item d ''option'' = Inr (JArr (JStr r # rest)) \<and> json_item mj r = Inr (JObj table)) \<and>
     list_all (\<lambda>(_, e). comment_ok e) table)"

definition cleaned :: "json \<Rightarrow> json" where
  "cleaned l = rdefault JNull (clean_label l)"

fun shown_as :: "field_kind \<Rightarrow> json \<Rightarrow> json" where
  "shown_as Undeclared v = v"
| "shown_as (Enumerated opts) v = cleaned (get_or opts (py_str v) unknown_label)"
| "shown_as Verbatim v = v"
| "shown_as (Referenced table) v = (case dict_get table (py_str v) of
     Some (JObj e) \<Rightarrow> (let c = get_or e ''_comment'' JNull in if truthy c then cleaned c else v)
   | _ \<Rightarrow> v)"

lemma friendly_described:
  assumes "described mj k t d" "value_of mj k = Inr desc"
  shows "friendly_value mj k v = (case desc of
     VEnum _ \<Rightarrow> rbind (enum_name mj k v) clean_label
   | VReference _ \<Rightarrow> rbind (reference_name mj k v) (\<lambda>r. if truthy r then clean_label r else Inr v)
   | _ \<Rightarrow> Inr v)"
  using assms by (auto simp: described_def friendly_value_def json_item_get json_item_in)

lemma value_of_described:
  assumes "described mj k t d"
  shows "value_of mj k = (if t = ''Enum'' \<or> t = ''enum'' then rbind (json_item d ''option'') (\<lambda>opts. Inr (VEnum opts))
     else if t = ''Range'' then rbind (json_item d ''option'') (\<lambda>opts. Inr (VRange opts))
     else if py_lower t = ''bit'' then rbind (json_item d ''option'') (\<lambda>opts. rbind (bit_options opts) (\<lambda>ps. Inr (VBit ps)))
     else if py_lower t = ''reference'' then rbind (json_item d ''option'') (\<lambda>opts. rbind (json_first opts) (\<lambda>r.
        rbind (json_item_by mj r) (\<lambda>table. Inr (VReference table))))
     else if py_lower t = ''string'' then rbind (json_get d ''_comment'' (JStr [])) (\<lambda>c. Inr (VString c))
     else Inl ValueError)"
  using assms by (auto simp: described_def value_of_def)

lemma json_item_some: "json_item v k = Inr x \<Longrightarrow> \<exists>ps. v = JObj ps"
  by (cases v) auto

lemma lower_names: "py_lower ''Enum'' = ''enum''" "py_lower ''enum'' = ''enum''" "py_lower ''Range'' = ''range''"
  by code_simp+

lemma kind_shown:
  assumes "has_kind mj k kind"
  shows "friendly_value mj k (JStr s) = Inr (shown_as kind (JStr s))"
proof (cases kind)
  case Undeclared
  then show ?thesis using assms friendly_undeclared by (auto simp: undeclared_def)
next
  case (Enumerated opts)
  then obtain t d where d: "described mj k t d" "t \<in> {''Enum'', ''enum''}" "json_item d ''option'' = Inr (JObj opts)" "string_labels opts"
    using assms by auto
  then have v: "value_of mj k = Inr (VEnum (JObj opts))" by (auto simp: value_of_described [OF d(1)])
  obtain w where "clean_label (get_or opts s unknown_label) = Inr (JStr w)" using clean_label_string [OF d(4)] by blast
  then show ?thesis by (simp add: friendly_described [OF d(1) v] enum_name_def v Enumerated cleaned_def)
next
  case Verbatim
  then obtain t d where d: "described mj k t d" "t = ''Range'' \<and> (\<exists>opt. json_item d ''option'' = Inr opt) \<or>
      py_lower t = ''bit'' \<and> (\<exists>opt ps. json_item d ''option'' = Inr opt \<and> bit_options opt = Inr ps) \<or> py_lower t = ''string''"
    using assms by auto
  obtain ps where ps: "d = JObj ps" using d(1) json_item_some [of d "''type''"] by (auto simp: described_def)
  have "t \<noteq> ''Enum''" "t \<noteq> ''enum''" using d(2) lower_names by auto
  from d(2) have "\<exists>o' ps' c. value_of mj k \<in> {Inr (VRange o'), Inr (VBit ps'), Inr (VString c)}"
  proof (elim disjE conjE exE)
    fix opt assume "t = ''Range''" "json_item d ''option'' = Inr opt"
    then show ?thesis by (simp add: value_of_described [OF d(1)])
  next
    fix opt ps' assume h: "py_lower t = ''bit''" "json_item d ''option'' = Inr opt" "bit_options opt = Inr ps'"
    then have "t \<noteq> ''Range''" using lower_names by auto
    with h \<open>t \<noteq> ''Enum''\<close> \<open>t \<noteq> ''enum''\<close> show ?thesis by (simp add: value_of_described [OF d(1)])
  next
    assume h: "py_lower t = ''string''"
    then have "t \<noteq> ''Range''" using lower_names by auto
    with h \<open>t \<noteq> ''Enum''\<close> \<open>t \<noteq> ''enum''\<close> show ?thesis by (simp add: value_of_described [OF d(1)] ps)
  qed
  then show ?thesis using friendly_described [OF d(1)] Verbatim by fastforce
next
  case (Referenced table)
  then obtain t d r rest where d: "described mj k t d" "py_lower t = ''reference''" "json_item d ''option'' = Inr (JArr (JStr r # rest))"
      "json_item mj r = Inr (JObj table)" "list_all (\<lambda>(_, e). comment_ok e) table"
    using assms by auto
  have "t \<noteq> ''Enum''" "t \<noteq> ''enum''" "t \<noteq> ''Range''" using d(2) lower_names by auto
  then have v: "value_of mj k = Inr (VReference (JObj table))"
    using d(2-4) json_item_some [OF d(4)] by (auto simp: value_of_described [OF d(1)])
  have ref: "reference_name mj k (JStr s) = (case dict_get table s of None \<Rightarrow> Inr JNull | Some e \<Rightarrow> json_get e ''_comment'' JNull)"
    by (auto simp: reference_name_def v split: option.splits dest: map_of_SomeD intro: rev_image_eqI simp: map_of_eq_None_iff)
  show ?thesis
  proof (cases "dict_get table s")
    case None
    then show ?thesis by (simp add: friendly_described [OF d(1) v] ref Referenced)
  next
    case (Some e)
    then have "comment_ok e" using d(5) by (auto simp: list_all_iff dest: map_of_SomeD)
    then obtain ps where ps: "e = JObj ps" "get_or ps ''_comment'' JNull = JNull \<or> (\<exists>c. get_or ps ''_comment'' JNull = JStr c)"
      by (auto simp: comment_ok_def)
    from ps(2) show ?thesis
      by (elim disjE exE) (simp_all add: friendly_described [OF d(1) v] ref Some ps(1) json_get_JObj Referenced Let_def cleaned_def clean_label_def del: json_get.simps)
  qed
qed

section \<open>Decoded values are texts\<close>

text \<open>A dict of distinct keys whose values are texts.\<close>

definition all_texts :: "jdict \<Rightarrow> bool" where
  "all_texts d \<longleftrightarrow> dict_ok d \<and> (\<forall>k v. map_of d k = Some v \<longrightarrow> (\<exists>s. v = JStr s))"

lemma all_texts_set: "all_texts d \<Longrightarrow> all_texts (dict_set d k (JStr s))"
  by (auto simp: all_texts_def distinct_update update_conv')

lemma set_field_text: "set_field d k (JStr s) = Inr d' \<Longrightarrow> all_texts d \<Longrightarrow> all_texts d'"
  by (cases k) (auto simp: set_field_def all_texts_set)

lemma decode_item_texts: "decode_item blob d i = Inr d' \<Longrightarrow> all_texts d \<Longrightarrow> all_texts d'"
  by (auto simp: decode_item_def unknown_label_def rbind_Inr_iff Let_def split: if_splits dest: set_field_text)

lemma decode_items_texts: "decode_items blob d is = Inr d' \<Longrightarrow> all_texts d \<Longrightarrow> all_texts d'"
  by (induction blob d "is" rule: decode_items.induct) (auto simp: rbind_Inr_iff dest: decode_item_texts)

lemma clean_label_text: "clean_label l = Inr v \<Longrightarrow> \<exists>s. v = JStr s"
  by (auto simp: clean_label_def split: json.splits)

lemma friendly_value_text:
  assumes "friendly_value mj k (JStr s) = Inr v"
  shows "\<exists>t. v = JStr t"
proof -
  have "v = JStr s \<or> (\<exists>d. (case d of
      VEnum _ \<Rightarrow> rbind (enum_name mj k (JStr s)) clean_label
    | VReference _ \<Rightarrow> rbind (reference_name mj k (JStr s)) (\<lambda>r. if truthy r then clean_label r else Inr (JStr s))
    | _ \<Rightarrow> Inr (JStr s)) = Inr v)"
    using assms by (auto simp: friendly_value_def rbind_Inr_iff split: if_splits)
  then show ?thesis
  proof (elim disjE exE)
    fix d
    assume "(case d of
      VEnum _ \<Rightarrow> rbind (enum_name mj k (JStr s)) clean_label
    | VReference _ \<Rightarrow> rbind (reference_name mj k (JStr s)) (\<lambda>r. if truthy r then clean_label r else Inr (JStr s))
    | _ \<Rightarrow> Inr (JStr s)) = Inr v"
    then show ?thesis by (cases d) (auto simp: rbind_Inr_iff split: if_splits dest: clean_label_text)
  qed simp
qed

lemma friendly_items_texts:
  "friendly_items mj d ps = Inr d' \<Longrightarrow> \<forall>v \<in> snd ` set ps. \<exists>s. v = JStr s \<Longrightarrow> all_texts d \<Longrightarrow> all_texts d'"
proof (induction mj d ps rule: friendly_items.induct)
  case (2 mj d k v ps)
  then obtain s v' where "v = JStr s" "friendly_value mj k v = Inr v'" "friendly_items mj (dict_set d k v') ps = Inr d'"
    by (auto simp: rbind_Inr_iff)
  moreover from this obtain t where "v' = JStr t" using friendly_value_text by blast
  ultimately show ?case using 2 all_texts_set by auto
qed auto

section \<open>Properties\<close>

text \<open>
  C37. Type safety of the binary decoder: whatever the model file and the blob are, malformed or
  not, what a binary layout decodes to, if it does, is a dict of distinct keys whose values are all
  texts: numbers as digits, labels cleaned, \<open>Unknown\<close> past the end.
\<close>
theorem decoded_texts:
  assumes "binary_monitor mj = Inr True" "decode_with_model_json blob mj = Inr d"
  shows "dict_ok d \<and> (\<forall>(k, v) \<in> set d. \<exists>s. v = JStr s)"
proof -
  obtain items where i: "decode_monitor_binary mj blob = Inr items" "friendly_items mj [] items = Inr d"
    using assms by (auto simp: decode_with_model_json_def decode_friendly_def decode_monitor_def rbind_Inr_iff)
  have "all_texts []" by (simp add: all_texts_def)
  moreover from this i(1) have "all_texts items"
    by (auto simp: decode_monitor_binary_def rbind_Inr_iff dest: decode_items_texts)
  then have "\<forall>v \<in> snd ` set items. \<exists>s. v = JStr s" by (fastforce simp: all_texts_def)
  ultimately have "all_texts d" using friendly_items_texts [OF i(2)] by blast
  then show ?thesis by (auto simp: all_texts_def)
qed

definition sample_model :: json where
  "sample_model = JObj
     [(''Monitoring'', JObj [(''type'', JStr ''BINARY(BYTE)''),
        (''protocol'', JArr
          [JObj [(''value'', JStr ''State''), (''startByte'', JInt 0), (''length'', JInt 1)],
           JObj [(''value'', JStr ''Remain''), (''startByte'', JInt 1), (''length'', JInt 2)],
           JObj [(''value'', JStr ''Late''), (''startByte'', JInt 3), (''length'', JInt 2)]])]),
      (''Value'', JObj [(''State'', JObj [(''type'', JStr ''Enum''),
        (''option'', JObj [(''6'', JStr ''@WM_STATE_RUNNING_W''), (''7'', JStr ''OFF'')])])])]"

text \<open>
  C17. A model with a well-formed binary layout decodes every blob, short ones included: the result has exactly
  the declared keys, each once; the raw value of a field is the big-endian number of its bytes, or \<open>Unknown\<close> where
  the blob does not reach; an enumerated field carries the cleaned label of its raw value, a referenced one
  the cleaned comment of its entry in the other table if it has one, and every other field (ranges, bits,
  strings and fields without a description) the raw value.
\<close>

theorem layout_decoded:
  assumes "layout_of mj fs" "distinct (map fst fs)"
    and "\<forall>k \<in> fst ` set fs. has_kind mj k (kind k)"
  shows "\<exists>out. decode_with_model_json blob mj = Inr out \<and> dict_ok out \<and> fst ` set out = fst ` set fs \<and>
     (\<forall>(k, st, ln) \<in> set fs. map_of out k = Some (shown_as (kind k) (field_value blob st ln)))"
proof -
  let ?ps = "layout_values fs blob"
  have ok: "dict_ok ?ps" using assms(2) by (simp add: keys_layout_values)
  have shown: "friendly_value mj k (field_value blob st ln) = Inr (shown_as (kind k) (field_value blob st ln))"
    if "(k, st, ln) \<in> set fs" for k st ln
    using kind_shown [of mj k "kind k"] assms(3) that field_value_string [of blob st ln] by force
  then have "\<exists>w. friendly_value mj k v = Inr w" if "(k, v) \<in> set ?ps" for k v
    using that by (auto simp: layout_values_def)
  then obtain out where out: "friendly_items mj [] ?ps = Inr out"
    using friendly_items_total by blast
  have "decode_with_model_json blob mj = Inr out"
    using out decode_monitor_layout [OF assms(1,2), of blob]
    by (simp add: decode_with_model_json_def decode_friendly_def)
  moreover have "fst ` set out = fst ` set fs"
    using friendly_items_keys [OF out] keys_layout_values [of fs blob] by (metis list.set_map set_empty2 image_empty sup_bot_left)
  moreover have "dict_ok out" using friendly_items_dict_ok [OF out] by simp
  moreover have "map_of out k = Some (shown_as (kind k) (field_value blob st ln))" if "(k, st, ln) \<in> set fs" for k st ln
  proof -
    have "(k, field_value blob st ln) \<in> set ?ps" using that by (force simp: layout_values_def)
    then have "map_of ?ps k = Some (field_value blob st ln)" using ok by simp
    with shown [OF that] show ?thesis using friendly_items_lookup [OF out ok] by blast
  qed
  ultimately show ?thesis by auto
qed

text \<open>A model with a field of every kind.\<close>

definition kinds_model :: json where
  "kinds_model = JObj
     [(''Monitoring'', JObj [(''type'', JStr ''BINARY(BYTE)''),
        (''protocol'', JArr (map (\<lambda>(k, st, ln). JObj [(''value'', JStr k), (''startByte'', JInt st), (''length'', JInt ln)])
          [(''State'', 0, 1), (''Course'', 1, 1), (''Remain'', 2, 2), (''Option1'', 4, 1), (''Note'', 5, 1), (''Raw'', 6, 1)]))]),
      (''Value'', JObj
        [(''State'', JObj [(''type'', JStr ''Enum''), (''option'', JObj [(''6'', JStr ''@WM_STATE_RUNNING_W'')])]),
         (''Course'', JObj [(''type'', JStr ''Reference''), (''option'', JArr [JStr ''Course''])]),
         (''Remain'', JObj [(''type'', JStr ''Range''), (''option'', JObj [])]),
         (''Option1'', JObj [(''type'', JStr ''Bit''), (''option'', JArr [JObj [(''startbit'', JInt 0), (''value'', JStr ''Turbo'')]])]),
         (''Note'', JObj [(''type'', JStr ''String'')])]),
      (''Course'', JObj [(''7'', JObj [(''_comment'', JStr ''Cotton'')])])]"

definition kinds_fields :: "layout_field list" where
  "kinds_fields = [(''State'', 0, 1), (''Course'', 1, 1), (''Remain'', 2, 2), (''Option1'', 4, 1), (''Note'', 5, 1), (''Raw'', 6, 1)]"

definition kinds_of :: "str \<Rightarrow> field_kind" where
  "kinds_of k = (if k = ''State'' then Enumerated [(''6'', JStr ''@WM_STATE_RUNNING_W'')]
     else if k = ''Course'' then Referenced [(''7'', JObj [(''_comment'', JStr ''Cotton'')])]
     else if k = ''Raw'' then Undeclared else Verbatim)"

lemma kinds_layout: "layout_of kinds_model kinds_fields"
  by (simp add: layout_of_def kinds_model_def kinds_fields_def item_declares_def)

lemma kinds_declared: "\<forall>k \<in> fst ` set kinds_fields. has_kind kinds_model k (kinds_of k)"
proof -
  have "py_lower ''Bit'' = ''bit''" "py_lower ''String'' = ''string''" "py_lower ''Reference'' = ''reference''" by code_simp+
  then show ?thesis
    by (simp add: kinds_fields_def kinds_of_def kinds_model_def described_def undeclared_def string_labels_def comment_ok_def
        bit_options_def get_or_def)
qed

theorem layout_decoded_witness:
  "\<exists>out. decode_with_model_json (map byte_of [6, 7, 1, 44, 3]) kinds_model = Inr out \<and>
     map_of out ''State'' = Some (JStr ''WM_STATE_RUNNING'') \<and> map_of out ''Course'' = Some (JStr ''Cotton'') \<and>
     map_of out ''Remain'' = Some (JStr ''300'') \<and> map_of out ''Option1'' = Some (JStr ''3'') \<and>
     map_of out ''Note'' = Some (JStr ''Unknown'') \<and> map_of out ''Raw'' = Some (JStr ''Unknown'')"
proof -
  let ?blob = "map byte_of [6, 7, 1, 44, 3]"
  have "distinct (map fst kinds_fields)" by (simp add: kinds_fields_def)
  then obtain out where out: "decode_with_model_json ?blob kinds_model = Inr out"
    "\<forall>(k, st, ln) \<in> set kinds_fields. map_of out k = Some (shown_as (kinds_of k) (field_value ?blob st ln))"
    using layout_decoded [OF kinds_layout _ kinds_declared, of ?blob] by blast
  have "shown_as (kinds_of ''State'') (field_value ?blob 0 1) = JStr ''WM_STATE_RUNNING''"
    "shown_as (kinds_of ''Course'') (field_value ?blob 1 1) = JStr ''Cotton''"
    "shown_as (kinds_of ''Remain'') (field_value ?blob 2 2) = JStr ''300''"
    "shown_as (kinds_of ''Option1'') (field_value ?blob 4 1) = JStr ''3''"
    "shown_as (kinds_of ''Note'') (field_value ?blob 5 1) = JStr ''Unknown''"
    "shown_as (kinds_of ''Raw'') (field_value ?blob 6 1) = JStr ''Unknown''"
    by code_simp+
  then show ?thesis using out by (simp add: kinds_fields_def)
qed

theorem decoded_texts_witness:
  "\<exists>d. decode_with_model_json [byte_of 6, byte_of 1, byte_of 44] sample_model = Inr d \<and> (\<forall>(k, v) \<in> set d. \<exists>s. v = JStr s)"
proof -
  have "\<not> isl (decode_with_model_json [byte_of 6, byte_of 1, byte_of 44] sample_model)" by code_simp
  then obtain d where d: "decode_with_model_json [byte_of 6, byte_of 1, byte_of 44] sample_model = Inr d"
    by (cases "decode_with_model_json [byte_of 6, byte_of 1, byte_of 44] sample_model") auto
  have "binary_monitor sample_model = Inr True" by (simp add: binary_monitor_def sample_model_def)
  from decoded_texts [OF this d] d show ?thesis by blast
qed

end
