(* ===== verification/ControlVocab.thy ===== *)
theory ControlVocab
  imports ModelJson
begin

text \<open>
  \<open>server/models/control_vocab.py\<close>: the commands a modelJson declares, the HA entities they become
  and the translation of a received payload into a wire value. The two regular expressions are
  written as scanners; a match is the groups and the number of characters it spans.
\<close>

section \<open>The template's placeholders\<close>

text \<open>\<open>{{word}}\<close>: the word and the rest.\<close>

definition scan_placeholder :: "str \<Rightarrow> (str \<times> str) option" where
  "scan_placeholder s =
     (if startswith s ''{{'' then
        (let w = takeWhile is_word (drop 2 s); r = dropWhile is_word (drop 2 s) in
         if w \<noteq> [] \<and> startswith r ''}}'' then Some (w, drop 2 r) else None)
      else None)"

definition match_placeholder :: "str scanner" where
  "match_placeholder s = map_option (\<lambda>(w, r). (w, length s - length r)) (scan_placeholder s)"

text \<open>\<open>"KEY"\s*:\s*"{{word}}"\<close>.\<close>

definition match_pair :: "(str \<times> str) scanner" where
  "match_pair s =
     (if startswith s [CHR 0x22] then
        (let w = takeWhile is_word (drop 1 s); r = dropWhile is_word (drop 1 s) in
         if w \<noteq> [] \<and> startswith r [CHR 0x22] then
           (let r1 = dropWhile is_space (drop 1 r) in
            if startswith r1 '':'' then
              (let r2 = dropWhile is_space (drop 1 r1) in
               if startswith r2 [CHR 0x22] then
                 (case scan_placeholder (drop 1 r2) of
                    Some (f, r3) \<Rightarrow>
                      if startswith r3 [CHR 0x22] then Some ((w, f), length s - length (drop 1 r3)) else None
                  | None \<Rightarrow> None)
               else None)
            else None)
         else None)
      else None)"

definition wire_keys_from_template :: "str \<Rightarrow> (str, str) dict" where
  "wire_keys_from_template t = dict_of (map (\<lambda>(wire, field). (field, wire)) (findall match_pair 0 t))"

section \<open>Commands\<close>

datatype field_type = Enum | Range

record command_field =
  cf_key :: str
  cf_type :: field_type
  cf_options :: "(str, str) dict"
  cf_min :: json
  cf_max :: json
  cf_wire :: "str option"

record command =
  c_name :: str
  c_cmd :: json
  c_opt :: json
  c_template :: str
  c_fields :: "command_field list"

record entity =
  e_slug :: str
  e_component :: str
  e_name :: str
  e_cmd :: json
  e_opt :: json
  e_wire :: "str option"
  e_payload :: str
  e_options :: "(str, str) dict"
  e_min :: json
  e_max :: json

record wire_command =
  w_cmd :: json
  w_opt :: json
  w_value :: "(str, str) dict"

definition is_simple_action :: "command \<Rightarrow> bool" where
  "is_simple_action c \<longleftrightarrow> c_fields c = []"

definition is_sendable :: "command \<Rightarrow> bool" where
  "is_sendable c \<longleftrightarrow> truthy (c_cmd c)"

definition slug :: "str \<Rightarrow> str" where
  "slug n = replace_char (CHR ''_'') [] (py_lower n)"

definition pretty :: "str \<Rightarrow> str" where
  "pretty n = py_strip (replace_char (CHR ''_'') '' '' n)"

definition for_simple_action :: "command \<Rightarrow> entity" where
  "for_simple_action c = \<lparr>e_slug = slug (c_name c), e_component = ''button'', e_name = pretty (c_name c),
     e_cmd = c_cmd c, e_opt = c_opt c, e_wire = None, e_payload = c_template c, e_options = [],
     e_min = JNull, e_max = JNull\<rparr>"

definition for_field :: "command \<Rightarrow> command_field \<Rightarrow> entity" where
  "for_field c f = \<lparr>e_slug = slug (cf_key f),
     e_component = (if cf_type f = Enum then ''select'' else ''number''), e_name = pretty (cf_key f),
     e_cmd = c_cmd c, e_opt = c_opt c,
     e_wire = Some (case cf_wire f of Some w \<Rightarrow> if w = [] then cf_key f else w | None \<Rightarrow> cf_key f),
     e_payload = [], e_options = cf_options f, e_min = cf_min f, e_max = cf_max f\<rparr>"

definition expand_entities :: "command \<Rightarrow> entity list" where
  "expand_entities c =
     (if is_simple_action c then [for_simple_action c] else map (for_field c) (c_fields c))"

definition ha_options :: "entity \<Rightarrow> str list" where
  "ha_options e = map (\<lambda>k. the (dict_get (e_options e) k)) (sort (dict_keys (e_options e)))"

definition to_wire :: "entity \<Rightarrow> str \<Rightarrow> wire_command option" where
  "to_wire e payload = (case e_wire e of
      None \<Rightarrow> None
    | Some key \<Rightarrow>
        if e_options e \<noteq> [] then
          (case find (\<lambda>(wv, label). payload = label) (e_options e) of
             Some (wv, _) \<Rightarrow> Some \<lparr>w_cmd = e_cmd e, w_opt = e_opt e, w_value = [(key, wv)]\<rparr>
           | None \<Rightarrow> None)
        else if payload = [] then None
        else Some \<lparr>w_cmd = e_cmd e, w_opt = e_opt e, w_value = [(key, payload)]\<rparr>)"

section \<open>Parsing the modelJson\<close>

definition clean_options :: "jdict \<Rightarrow> (str, str) dict res" where
  "clean_options opts = rtraverse (\<lambda>(k, v).
     rbind (clean_label v) (\<lambda>l. case l of JStr s \<Rightarrow> Inr (k, s) | _ \<Rightarrow> Inl TypeError)) opts"

definition parse_field :: "json \<Rightarrow> (str, str) dict \<Rightarrow> str \<Rightarrow> command_field res" where
  "parse_field vals wire_keys fk =
     rbind (json_get vals fk (JObj [])) (\<lambda>vdef.
     rbind (json_get vdef ''type'' (JStr ''Enum'')) (\<lambda>ftype.
     rbind (json_get vdef ''option'' (JObj [])) (\<lambda>opts.
       if ftype = JStr ''Range'' then
         rbind (json_get opts ''min'' JNull) (\<lambda>lo.
         rbind (json_get opts ''max'' JNull) (\<lambda>hi.
           Inr \<lparr>cf_key = fk, cf_type = Range, cf_options = [], cf_min = lo, cf_max = hi,
                cf_wire = dict_get wire_keys fk\<rparr>))
       else
         rbind (json_items opts) (\<lambda>ps. rbind (clean_options ps) (\<lambda>cleaned.
           Inr \<lparr>cf_key = fk, cf_type = Enum, cf_options = cleaned, cf_min = JNull, cf_max = JNull,
                cf_wire = dict_get wire_keys fk\<rparr>)))))"

definition parse_command :: "json \<Rightarrow> str \<times> json \<Rightarrow> command res" where
  "parse_command vals a = (case a of (name, spec) \<Rightarrow>
     rbind (json_get spec ''cmd'' (JStr [])) (\<lambda>cmd.
     rbind (json_get spec ''cmdOpt'' (JStr [])) (\<lambda>opt.
     rbind (json_get spec ''value'' (JStr [])) (\<lambda>v. case v of
         JStr template \<Rightarrow>
           rbind (rtraverse (parse_field vals (wire_keys_from_template template))
                    (findall match_placeholder 0 template)) (\<lambda>fs.
             Inr \<lparr>c_name = name, c_cmd = cmd, c_opt = opt, c_template = template, c_fields = fs\<rparr>)
       | _ \<Rightarrow> Inl TypeError))))"

definition parse_commands :: "json \<Rightarrow> command list res" where
  "parse_commands mj =
     rbind (json_get mj ''ControlWifi'' (JObj [])) (\<lambda>cw.
     rbind (json_get cw ''action'' (JObj [])) (\<lambda>actions.
     rbind (json_get mj ''Value'' (JObj [])) (\<lambda>vals.
     rbind (json_items actions) (\<lambda>items. rtraverse (parse_command vals) items))))"

definition all_entities :: "json \<Rightarrow> entity list res" where
  "all_entities mj =
     rbind (parse_commands mj) (\<lambda>cs.
       Inr (concat (map expand_entities (filter (\<lambda>c. is_sendable c \<and> c_opt c = JStr ''Set'') cs))))"

section \<open>Lemmas\<close>

definition word_str :: "str \<Rightarrow> bool" where
  "word_str w \<longleftrightarrow> w \<noteq> [] \<and> list_all is_word w"

lemma take_word:
  "list_all is_word w \<Longrightarrow> \<not> is_word c \<Longrightarrow> takeWhile is_word (w @ c # r) = w"
  "list_all is_word w \<Longrightarrow> \<not> is_word c \<Longrightarrow> dropWhile is_word (w @ c # r) = c # r"
  by (simp_all add: list_all_iff)

lemma not_word [simp]: "\<not> is_word (CHR 0x22)" "\<not> is_word (CHR 0x7D)" "\<not> is_space (CHR 0x22)"
  "\<not> is_space (CHR '':'')"
  by (simp_all add: is_word_def is_digit_def is_lower_def is_upper_def is_space_def)

definition pair_text :: "str \<Rightarrow> str \<Rightarrow> str" where
  "pair_text w f = CHR 0x22 # w @ CHR 0x22 # CHR '':'' # CHR 0x22 # ''{{'' @ f @ ''}}'' @ [CHR 0x22]"

lemma scan_placeholder_word:
  "word_str f \<Longrightarrow> scan_placeholder (''{{'' @ f @ ''}}'' @ r) = Some (f, r)"
  by (simp add: scan_placeholder_def startswith_def word_str_def take_word)

lemma match_pair_text:
  assumes "word_str w" "word_str f"
  shows "match_pair (pair_text w f @ r) = Some ((w, f), length (pair_text w f))"
proof -
  have "scan_placeholder (''{{'' @ f @ ''}}'' @ CHR 0x22 # r) = Some (f, CHR 0x22 # r)"
    using assms(2) by (rule scan_placeholder_word)
  with assms show ?thesis
    by (simp add: match_pair_def pair_text_def startswith_def word_str_def take_word)
qed

lemma match_pair_other: "c \<noteq> CHR 0x22 \<Longrightarrow> match_pair (c # s) = None"
  by (simp add: match_pair_def startswith_def)

definition render_template :: "(str \<times> str) list \<Rightarrow> str" where
  "render_template ps = ''{ '' @ join '', '' (map (\<lambda>(w, f). pair_text w f) ps) @ '' }''"

lemma findall_pairs:
  "list_all (\<lambda>(w, f). word_str w \<and> word_str f) ps \<Longrightarrow>
   findall match_pair 0 (join '', '' (map (\<lambda>(w, f). pair_text w f) ps) @ '' }'') = ps"
proof (induction ps)
  case Nil
  show ?case by (simp add: match_pair_other)
next
  case (Cons p ps)
  obtain w f where p: "p = (w, f)" by (cases p)
  let ?j = "join '', '' (map (\<lambda>(w, f). pair_text w f) ps)"
  let ?rest = "(if ps = [] then [] else '', '' @ ?j) @ '' }''"
  have "join '', '' (map (\<lambda>(w, f). pair_text w f) (p # ps)) @ '' }'' = pair_text w f @ ?rest"
    using p by (cases ps) auto
  moreover have "findall match_pair 0 (pair_text w f @ ?rest) = (w, f) # findall match_pair 0 ?rest"
    by (rule findall_match) (use Cons.prems p match_pair_text in \<open>auto simp: pair_text_def\<close>)
  moreover have "findall match_pair 0 ?rest = ps"
    using Cons by (cases "ps = []") (auto simp: match_pair_other)
  ultimately show ?case using p by metis
qed

lemma find_Some_set: "find P xs = Some x \<Longrightarrow> x \<in> set xs \<and> P x"
  by (induction xs) (auto split: if_splits)

lemma find_None: "find P xs = None \<longleftrightarrow> (\<forall>x \<in> set xs. \<not> P x)"
  by (induction xs) auto

lemma ha_options_set: "dict_ok (e_options e) \<Longrightarrow> set (ha_options e) = snd ` set (e_options e)"
  by (force simp: ha_options_def image_iff)

lemma rtraverse_in:
  "rtraverse f xs = Inr ys \<Longrightarrow> y \<in> set ys \<Longrightarrow> \<exists>x \<in> set xs. f x = Inr y"
  by (induction xs arbitrary: ys) (auto simp: rbind_Inr_iff)

lemma expand_entity:
  "e \<in> set (expand_entities c) \<Longrightarrow> e_cmd e = c_cmd c \<and> e_opt e = c_opt c"
  by (auto simp: expand_entities_def for_simple_action_def for_field_def split: if_splits)

section \<open>Properties\<close>

definition sample_entity :: entity where
  "sample_entity = \<lparr>e_slug = ''tempfreezer'', e_component = ''select'', e_name = ''TempFreezer'',
     e_cmd = JStr ''Control'', e_opt = JStr ''Set'', e_wire = Some ''REFT'', e_payload = [],
     e_options = [(''5'', ''-19''), (''6'', ''-18'')], e_min = JNull, e_max = JNull\<rparr>"

text \<open>
  A select entity accepts exactly the labels it offers, and sends the wire value of the label
  chosen, never the label itself; an entity without a wire key (a button) sends nothing.
\<close>

lemma select_labels_exact:
  assumes "dict_ok (e_options e)" "e_options e \<noteq> []" "e_wire e = Some key"
  shows "(to_wire e payload \<noteq> None) = (payload \<in> set (ha_options e)) \<and>
     (\<forall>wc. to_wire e payload = Some wc \<longrightarrow> w_cmd wc = e_cmd e \<and> w_opt wc = e_opt e \<and>
        (\<exists>wv. w_value wc = [(key, wv)] \<and> dict_get (e_options e) wv = Some payload)) \<and>
     (\<forall>b. e_wire b = None \<longrightarrow> to_wire b payload = None)"
proof (intro conjI allI impI)
  show "(to_wire e payload \<noteq> None) = (payload \<in> set (ha_options e))"
  proof (cases "find (\<lambda>(wv, label). payload = label) (e_options e)")
    case None
    then have "payload \<notin> snd ` set (e_options e)" by (auto simp: find_None)
    with None assms show ?thesis by (simp add: to_wire_def ha_options_set)
  next
    case (Some x)
    then have "payload \<in> snd ` set (e_options e)" using find_Some_set [OF Some] by force
    with Some assms show ?thesis by (simp add: to_wire_def ha_options_set split: prod.splits)
  qed
  fix wc
  assume wc: "to_wire e payload = Some wc"
  then obtain wv l where f: "find (\<lambda>(wv, label). payload = label) (e_options e) = Some (wv, l)"
      "wc = \<lparr>w_cmd = e_cmd e, w_opt = e_opt e, w_value = [(key, wv)]\<rparr>"
    using assms by (auto simp: to_wire_def split: option.splits)
  with find_Some_set [OF f(1)] assms(1)
  show "w_cmd wc = e_cmd e" "w_opt wc = e_opt e"
    "\<exists>wv. w_value wc = [(key, wv)] \<and> dict_get (e_options e) wv = Some payload"
    by auto
qed (simp add: to_wire_def)

lemma select_labels_exact_witness:
  "to_wire sample_entity ''-19'' \<noteq> None \<and> to_wire sample_entity ''5'' = None"
proof -
  have a: "dict_ok (e_options sample_entity)" "e_options sample_entity \<noteq> []" "e_wire sample_entity = Some ''REFT''"
    by (simp_all add: sample_entity_def)
  have s: "set (ha_options sample_entity) = {''-19'', ''-18''}"
    using ha_options_set [OF a(1)] by (simp add: sample_entity_def)
  show ?thesis
    using select_labels_exact [OF a, of "''-19''"] select_labels_exact [OF a, of "''5''"] s by simp
qed

text \<open>
  Reading a \<open>Set\<close> template back: from the JSON literal with one \<open>"KEY":"{{Field}}"\<close> per field
  the parser finds exactly the declared pairs, in order.
\<close>

lemma template_pairs:
  assumes "list_all (\<lambda>(w, f). word_str w \<and> word_str f) ps" "distinct (map snd ps)"
  shows "findall match_pair 0 (render_template ps) = ps \<and>
     (\<forall>(w, f) \<in> set ps. dict_get (wire_keys_from_template (render_template ps)) f = Some w)"
proof -
  have f: "findall match_pair 0 (render_template ps) = ps"
    using findall_pairs [OF assms(1)] by (simp add: render_template_def match_pair_other)
  have "dict_ok (map (\<lambda>(wire, field). (field, wire)) ps)"
    using assms(2) by (simp add: comp_def case_prod_unfold)
  then have "wire_keys_from_template (render_template ps) = map (\<lambda>(wire, field). (field, wire)) ps"
    by (simp add: wire_keys_from_template_def f)
  with f \<open>dict_ok (map (\<lambda>(wire, field). (field, wire)) ps)\<close> show ?thesis
    by (auto intro: map_of_is_SomeI)
qed

lemma template_pairs_witness:
  "dict_get (wire_keys_from_template (render_template [(''RETM'', ''TempRefrigerator''), (''REFT'', ''TempFreezer'')]))
     ''TempFreezer'' = Some ''REFT''"
proof -
  have "list_all (\<lambda>(w, f). word_str w \<and> word_str f) [(''RETM'', ''TempRefrigerator''), (''REFT'', ''TempFreezer'')]"
    by (simp add: word_str_def is_word_def is_upper_def is_lower_def)
  then show ?thesis
    using template_pairs [of "[(''RETM'', ''TempRefrigerator''), (''REFT'', ''TempFreezer'')]"] by simp
qed

lemma entity_sends_set:
  assumes "all_entities mj = Inr es" "e \<in> set es" "to_wire e payload = Some wc"
  shows "w_opt wc = JStr ''Set'' \<and> truthy (w_cmd wc) \<and> length (w_value wc) = 1 \<and>
     (\<exists>cs c. parse_commands mj = Inr cs \<and> c \<in> set cs \<and> w_cmd wc = c_cmd c)"
proof -
  obtain cs c where c: "parse_commands mj = Inr cs" "c \<in> set cs" "is_sendable c" "c_opt c = JStr ''Set''"
      "e \<in> set (expand_entities c)"
    using assms(1,2) by (auto simp: all_entities_def rbind_Inr_iff)
  have "w_cmd wc = e_cmd e \<and> w_opt wc = e_opt e \<and> length (w_value wc) = 1"
    using assms(3) by (auto simp: to_wire_def split: option.splits if_splits)
  with c expand_entity [OF c(5)] show ?thesis by (auto simp: is_sendable_def)
qed

text \<open>
  Whatever modelJson a device brings, no published entity can send anything but a \<open>Set\<close>
  command with one value: the physical-actuation buttons (\<open>Operation\<close>, \<open>Power\<close>) stay
  unreachable.
\<close>

lemma published_entities_only_set:
  assumes "all_entities mj = Inr es" "e \<in> set es" "to_wire e payload = Some wc"
  shows "w_opt wc = JStr ''Set'' \<and> truthy (w_cmd wc) \<and> length (w_value wc) = 1 \<and>
     (\<exists>cs c. parse_commands mj = Inr cs \<and> c \<in> set cs \<and> w_cmd wc = c_cmd c)"
  using assms by (rule entity_sends_set)

definition fridge_model :: json where
  "fridge_model = JObj
     [(''ControlWifi'', JObj [(''action'', JObj
        [(''SetControl'', JObj [(''cmd'', JStr ''Control''), (''cmdOpt'', JStr ''Set''),
           (''value'', JStr (render_template [(''REFT'', ''TempFreezer'')]))]),
         (''OperationStart'', JObj [(''cmd'', JStr ''Control''), (''cmdOpt'', JStr ''Operation''),
           (''value'', JStr ''Start'')])])]),
      (''Value'', JObj [(''TempFreezer'', JObj [(''type'', JStr ''Enum''),
         (''option'', JObj [(''5'', JStr ''-19''), (''6'', JStr ''@CP_OFF_EN_W'')])])])]"

lemma fridge_entities:
  "all_entities fridge_model = Inr [sample_entity\<lparr>e_options := [(''5'', ''-19''), (''6'', ''CP_OFF_EN'')]\<rparr>]"
  by code_simp

lemma published_entities_only_set_witness:
  "\<exists>wc. to_wire (sample_entity\<lparr>e_options := [(''5'', ''-19''), (''6'', ''CP_OFF_EN'')]\<rparr>) ''-19'' = Some wc \<and>
     w_opt wc = JStr ''Set''"
proof -
  let ?e = "sample_entity\<lparr>e_options := [(''5'', ''-19''), (''6'', ''CP_OFF_EN'')]\<rparr>"
  obtain wc where wc: "to_wire ?e ''-19'' = Some wc" by (simp add: to_wire_def sample_entity_def)
  with published_entities_only_set [OF fridge_entities _ wc] show ?thesis by simp
qed

text \<open>A \<open>Set\<close> action without placeholders is published as a button, which never sends anything.\<close>

lemma set_action_without_fields_is_a_button:
  "rbind (all_entities (JObj [(''ControlWifi'', JObj [(''action'', JObj
      [(''Reset'', JObj [(''cmd'', JStr ''Control''), (''cmdOpt'', JStr ''Set''), (''value'', JStr ''On'')])])])]))
     (\<lambda>es. Inr (map e_component es)) = Inr [''button'']"
  by code_simp

end
