(* ===== verification/HaMqtt.thy ===== *)
theory HaMqtt
  imports ControlVocab
begin

text \<open>
  \<open>server/ha_mqtt.py\<close>: the Home Assistant discovery messages, the state message and the command
  topics. A call of \<open>client.publish\<close> is a value; the functions return the list of their calls.
\<close>

section \<open>Identity and topics\<close>

record mqtt_message =
  m_topic :: str
  m_payload :: str
  m_qos :: nat
  m_retain :: bool

definition dev_slug :: "str \<Rightarrow> str" where
  "dev_slug device_id = ''lgthinq_'' @ device_id"

definition stable_key :: "str \<Rightarrow> str" where
  "stable_key model = filter (\<lambda>c. is_digit c \<or> is_lower c) (py_lower model)"

definition state_topic :: "str \<Rightarrow> str \<Rightarrow> str" where
  "state_topic pfx device_id = pfx @ ''/sensor/'' @ dev_slug device_id @ ''/state''"

definition device_payload :: "str \<Rightarrow> str \<Rightarrow> json" where
  "device_payload model device_id = JObj
     [(''identifiers'', JArr [JStr (dev_slug device_id)]), (''manufacturer'', JStr ''LG''),
      (''model'', JStr model), (''name'', JStr model)]"

definition retained :: "str \<Rightarrow> jdict \<Rightarrow> mqtt_message" where
  "retained topic cfg = \<lparr>m_topic = topic, m_payload = dumps (JObj cfg), m_qos = 1, m_retain = True\<rparr>"

section \<open>Sensors\<close>

definition field_overrides :: "(str, (str \<times> str) list) dict" where
  [const_defs]: "field_overrides =
     [(''TempRefrigerator'', [(''device_class'', ''temperature''),
        (''unit_of_measurement'', [CHR 0xC2, CHR 0xB0] @ ''C'')]),
      (''TempFreezer'', [(''device_class'', ''temperature''),
        (''unit_of_measurement'', [CHR 0xC2, CHR 0xB0] @ ''C'')]),
      (''Remain_Time_H'', [(''device_class'', ''duration''), (''unit_of_measurement'', ''h'')]),
      (''Remain_Time_M'', [(''device_class'', ''duration''), (''unit_of_measurement'', ''min'')]),
      (''WaterFilterUsedMonth'', [(''unit_of_measurement'', ''months'')])]"

definition value_template :: "str \<Rightarrow> str" where
  "value_template field = ''{{ value_json.'' @ field @ '' if value_json.'' @ field @
     '' is defined else '' @ [CHR 0x27, CHR 0x27] @ '' }}''"

definition sensor_topic :: "str \<Rightarrow> str \<Rightarrow> str \<Rightarrow> str" where
  "sensor_topic pfx device_id field =
     pfx @ ''/sensor/'' @ dev_slug device_id @ ''/'' @ py_lower field @ ''/config''"

definition sensor_config :: "str \<Rightarrow> str \<Rightarrow> str \<Rightarrow> str \<Rightarrow> jdict" where
  "sensor_config pfx model device_id field =
     dict_update
       [(''name'', JStr (replace_char (CHR ''_'') '' '' field)),
        (''state_topic'', JStr (state_topic pfx device_id)),
        (''value_template'', JStr (value_template field)),
        (''unique_id'', JStr (dev_slug device_id @ ''_'' @ py_lower field)),
        (''device'', device_payload model device_id)]
       (map (\<lambda>(k, v). (k, JStr v))
         (case dict_get field_overrides field of None \<Rightarrow> [] | Some o' \<Rightarrow> o'))"

definition publish_discovery :: "str \<Rightarrow> str \<Rightarrow> str \<Rightarrow> str list \<Rightarrow> mqtt_message list" where
  "publish_discovery pfx model device_id fs =
     map (\<lambda>f. retained (sensor_topic pfx device_id f) (sensor_config pfx model device_id f)) fs"

definition state_payload :: "jdict \<Rightarrow> jdict" where
  "state_payload decoded = map (\<lambda>(k, v). (k, JStr (py_str v))) decoded"

definition publish_state :: "str \<Rightarrow> jdict \<Rightarrow> str \<Rightarrow> mqtt_message list" where
  "publish_state pfx decoded device_id =
     [\<lparr>m_topic = state_topic pfx device_id, m_payload = dumps (JObj (state_payload decoded)),
       m_qos = 0, m_retain = True\<rparr>]"

definition error_on_template :: str where
  [const_defs]: "error_on_template =
     ''{{ '' @ [CHR 0x27] @ ''on'' @ [CHR 0x27] @
     '' if value_json.Error is defined and value_json.Error and value_json.Error != '' @
     [CHR 0x27] @ ''No Error'' @ [CHR 0x27] @ '' else '' @ [CHR 0x27] @ ''off'' @ [CHR 0x27] @ '' }}''"

definition publish_error_alert_discovery :: "str \<Rightarrow> str \<Rightarrow> str \<Rightarrow> mqtt_message list" where
  "publish_error_alert_discovery pfx model device_id =
     [retained (pfx @ ''/binary_sensor/'' @ dev_slug device_id @ ''/error_alert/config'')
        [(''name'', JStr ''Error''), (''state_topic'', JStr (state_topic pfx device_id)),
         (''value_template'', JStr error_on_template), (''payload_on'', JStr ''on''),
         (''payload_off'', JStr ''off''), (''unique_id'', JStr (dev_slug device_id @ ''_error_alert'')),
         (''device'', device_payload model device_id)]]"

section \<open>Commands\<close>

definition command_topic :: "str \<Rightarrow> str \<Rightarrow> str \<Rightarrow> str \<Rightarrow> str" where
  "command_topic pfx device_id component object_id =
     pfx @ ''/'' @ component @ ''/'' @ dev_slug device_id @ ''/'' @ object_id @ ''/cmd''"

text \<open>
  The regular expression \<open>^pfx/(\w+)/lgthinq_(\S+)/(\w+)/cmd$\<close>: the last two segments are
  fixed, so what stands between \<open>lgthinq_\<close> and them is the device id, slashes included; the
  dollar also stands before a final newline.
\<close>

definition strip_prefix :: "str \<Rightarrow> str \<Rightarrow> str option" where
  "strip_prefix p s = (if startswith s p then Some (drop (length p) s) else None)"

definition strip_suffix :: "str \<Rightarrow> str \<Rightarrow> str option" where
  "strip_suffix p s = (if endswith s p then Some (take (length s - length p) s) else None)"

definition parse_command_topic :: "str \<Rightarrow> str \<Rightarrow> (str \<times> str \<times> str) option" where
  "parse_command_topic pfx topic =
     (let t = (if topic \<noteq> [] \<and> last topic = CHR 10 then butlast topic else topic) in do {
        r \<leftarrow> strip_prefix (py_rstrip_char (CHR ''/'') pfx @ ''/'') t;
        let component = takeWhile is_word r;
        r1 \<leftarrow> (if component = [] then None else strip_prefix ''/lgthinq_'' (dropWhile is_word r));
        r2 \<leftarrow> strip_suffix ''/cmd'' r1;
        let object_id = rev (takeWhile is_word (rev r2));
        let r3 = take (length r2 - length object_id) r2;
        dev \<leftarrow> (if object_id = [] then None else strip_suffix ''/'' r3);
        if dev \<noteq> [] \<and> list_all (\<lambda>c. \<not> is_space c) dev then Some (dev, component, object_id) else None })"

definition command_config :: "str \<Rightarrow> str \<Rightarrow> str \<Rightarrow> entity \<Rightarrow> jdict" where
  "command_config pfx model device_id e =
     [(''name'', JStr (e_name e)),
      (''command_topic'', JStr (command_topic pfx device_id (e_component e) (e_slug e))),
      (''unique_id'', JStr (dev_slug device_id @ ''_cmd_'' @ e_slug e)),
      (''device'', device_payload model device_id)] @
     (if e_component e = ''button'' then []
      else if e_component e = ''select'' then [(''options'', JArr (map JStr (ha_options e)))]
      else if e_component e = ''number'' then
        (if e_min e \<noteq> JNull then [(''min'', e_min e)] else []) @
        (if e_max e \<noteq> JNull then [(''max'', e_max e)] else [])
      else [])"

definition publish_command_discovery :: "str \<Rightarrow> str \<Rightarrow> str \<Rightarrow> entity list \<Rightarrow> mqtt_message list" where
  "publish_command_discovery pfx model device_id entities =
     map (\<lambda>e. retained (pfx @ ''/'' @ e_component e @ ''/'' @ dev_slug device_id @ ''/'' @ e_slug e @ ''/config'')
                (command_config pfx model device_id e)) entities"

section \<open>Lemmas\<close>

lemma strip_prefix_append [simp]: "strip_prefix p (p @ s) = Some s"
  by (simp add: strip_prefix_def)

lemma strip_suffix_append [simp]: "strip_suffix p (s @ p) = Some s"
  by (simp add: strip_suffix_def)

lemma slash_not_word [simp]: "\<not> is_word (CHR ''/'')"
  by (simp add: is_word_def is_digit_def is_lower_def is_upper_def)

lemma rstrip_other [simp]: "s = [] \<or> last s \<noteq> c \<Longrightarrow> py_rstrip_char c s = s"
  by (cases s rule: rev_cases) (auto simp: py_rstrip_char_def)

lemma parse_parts:
  assumes "word_str component" "word_str sl" "dev \<noteq> []" "list_all (\<lambda>c. \<not> is_space c) dev"
    and "pfx = [] \<or> last pfx \<noteq> CHR ''/''"
  shows "parse_command_topic pfx (command_topic pfx dev component sl) = Some (dev, component, sl)"
proof -
  let ?t = "command_topic pfx dev component sl"
  have t: "?t = (pfx @ ''/'') @ component @ ''/lgthinq_'' @ (dev @ ''/'' @ sl) @ ''/cmd''"
    by (simp add: command_topic_def dev_slug_def)
  have nl: "last ?t \<noteq> CHR 10" "?t \<noteq> []" by (simp_all add: command_topic_def)
  let ?r = "component @ ''/lgthinq_'' @ (dev @ ''/'' @ sl) @ ''/cmd''"
  have r: "strip_prefix (py_rstrip_char (CHR ''/'') pfx @ ''/'') ?t = Some ?r"
    using assms(5) unfolding t by (simp only: rstrip_other strip_prefix_append)
  have c: "takeWhile is_word ?r = component" "dropWhile is_word ?r = ''/lgthinq_'' @ (dev @ ''/'' @ sl) @ ''/cmd''"
    using assms(1) by (simp_all add: word_str_def take_word)
  have s: "takeWhile is_word (rev (dev @ ''/'' @ sl)) = rev sl"
    using assms(2) take_word(1) [of "rev sl" "CHR ''/''" "rev dev"] by (simp add: word_str_def)
  have n: "component \<noteq> []" "sl \<noteq> []" using assms(1,2) by (simp_all add: word_str_def)
  have d: "take (length (dev @ ''/'' @ sl) - length sl) (dev @ ''/'' @ sl) = dev @ ''/''" by simp
  show ?thesis
    using nl n assms(3,4)
    by (simp only: parse_command_topic_def Let_def if_False simp_thms r c s rev_rev_ident d
        strip_prefix_append strip_suffix_append bind.bind_lunit if_True)
qed

lemma stable_key_chars: "c \<in> set (stable_key m) \<Longrightarrow> is_digit c \<or> is_lower c"
  by (simp add: stable_key_def)

lemma key_char_word: "is_digit c \<or> is_lower c \<Longrightarrow> is_word c \<and> \<not> is_space c"
  by (auto simp: is_word_def is_digit_def is_lower_def is_space_def)

lemma lower_idem [simp]: "py_lower (py_lower s) = py_lower s"
  by (simp add: py_lower_def lower_char_def is_upper_def)

lemma sensor_topic_inject [simp]:
  "sensor_topic pfx dev f = sensor_topic pfx dev g \<longleftrightarrow> py_lower f = py_lower g"
  by (simp add: sensor_topic_def)

lemma upper_char_lower: "lower_char (upper_char c) = lower_char c"
proof (cases "is_lower c")
  case True
  then have c: "97 \<le> (code c :: nat)" "code c \<le> (122 :: nat)" by (simp_all add: is_lower_def)
  then have "code (upper_char c) = code c - (32 :: nat)" using True by (simp add: upper_char_def)
  moreover have "65 \<le> code c - (32 :: nat)" "code c - (32 :: nat) \<le> 90" "code c - 32 + 32 = (code c :: nat)"
    using c by linarith+
  ultimately show ?thesis using True by (simp add: lower_char_def is_upper_def is_lower_def)
qed (simp add: upper_char_def)

section \<open>Properties\<close>

text \<open>
  A command topic is read back to the device, component and entity it was built for, for every
  identity a model name gives: two entities never share a topic.
\<close>

lemma command_topic_roundtrip:
  assumes "word_str component" "word_str sl" "stable_key model \<noteq> []" "pfx = [] \<or> last pfx \<noteq> CHR ''/''"
  shows "parse_command_topic pfx (command_topic pfx (stable_key model) component sl)
       = Some (stable_key model, component, sl)"
  by (rule parse_parts [OF assms(1,2,3) _ assms(4)])
    (use stable_key_chars key_char_word in \<open>auto simp: list_all_iff\<close>)

lemma command_topic_roundtrip_witness:
  "parse_command_topic ''homeassistant''
     (command_topic ''homeassistant'' (stable_key ''1REB1GLPX1___'') ''select'' ''tempfreezer'')
   = Some (stable_key ''1REB1GLPX1___'', ''select'', ''tempfreezer'')"
proof (rule command_topic_roundtrip)
  show "word_str ''select''" "word_str ''tempfreezer''" by code_simp+
  show "stable_key ''1REB1GLPX1___'' \<noteq> []" by code_simp
qed simp

text \<open>
  The identity HA sees does not depend on how the model name is written: not on its case, and
  keying a key again changes nothing.
\<close>

lemma stable_key_durable:
  "stable_key (py_upper m) = stable_key m \<and> stable_key (py_lower m) = stable_key m \<and>
   stable_key (stable_key m) = stable_key m"
proof (intro conjI)
  show "stable_key (py_upper m) = stable_key m"
    by (simp add: stable_key_def py_lower_def py_upper_def comp_def upper_char_lower)
  show "stable_key (py_lower m) = stable_key m" by (simp add: stable_key_def)
  have "py_lower (stable_key m) = stable_key m"
    unfolding py_lower_def
    by (rule map_idI) (auto dest!: stable_key_chars simp: lower_char_def is_upper_def is_digit_def is_lower_def)
  then show "stable_key (stable_key m) = stable_key m"
    using stable_key_chars by (simp add: stable_key_def [of "stable_key m"] filter_id_conv)
qed

text \<open>
  Discovery announces each field on a topic of its own exactly when no two field names are
  equal up to case.
\<close>

lemma discovery_topics_distinct:
  "distinct (map m_topic (publish_discovery pfx model dev fs)) = distinct (map py_lower fs)"
proof (induction fs)
  case (Cons f fs)
  then show ?case
    by (auto simp: publish_discovery_def retained_def comp_def image_iff)
qed (simp add: publish_discovery_def)

text \<open>
  The washer has both \<open>course\<close> (of the energy summary) and \<open>Course\<close> (of the decoded state): their
  sensors are announced on the same topic, and the later one replaces the earlier.
\<close>

lemma course_sensors_collide:
  "sensor_topic pfx dev ''Course'' = sensor_topic pfx dev ''course''"
  "sensor_config pfx model dev ''Course'' \<noteq> sensor_config pfx model dev ''course''"
proof -
  show "sensor_topic pfx dev ''Course'' = sensor_topic pfx dev ''course''"
    by (simp, code_simp)
  have o: "dict_get field_overrides ''Course'' = None" "dict_get field_overrides ''course'' = None"
    by code_simp+
  show "sensor_config pfx model dev ''Course'' \<noteq> sensor_config pfx model dev ''course''"
    by (simp add: sensor_config_def o value_template_def)
qed

end
