(* ===== verification/Json_Roundtrip.thy ===== *)
theory Json_Roundtrip
  imports Json
begin

text \<open>
  \<open>loads\<close> inverts \<open>dumps\<close> (either separators) on values without \<open>JReal\<close> whose strings hold
  no lone surrogates and whose objects have distinct keys; the fuel of the scanner suffices;
  the printed text is ASCII, so it reads the same as \<open>str\<close> and as \<open>bytes\<close>.
\<close>

fun json_ok :: "json \<Rightarrow> bool" where
  "json_ok JNull = True"
| "json_ok (JBool b) = True"
| "json_ok (JInt n) = True"
| "json_ok (JReal t) = False"
| "json_ok (JStr s) = str_ok s"
| "json_ok (JArr xs) = list_all json_ok xs"
| "json_ok (JObj ps) = (dict_ok ps \<and> list_all (\<lambda>(k, v). str_ok k \<and> json_ok v) ps)"

section \<open>Strings\<close>

lemma code_hex_digit: "n < 16 \<Longrightarrow> code (hex_digit n) = (if n < 10 then 48 + n else 87 + n)"
  by (simp add: hex_digit_def)

lemma hex_val_hex_digit [simp]: "n < 16 \<Longrightarrow> hex_val (hex_digit n) = Some n"
  by (simp add: hex_val_def Let_def code_hex_digit)

lemma hex4_sum:
  "n < 65536 \<Longrightarrow>
   n div 4096 mod 16 * 4096 + n div 256 mod 16 * 256 + n div 16 mod 16 * 16 + n mod 16 = (n::nat)"
proof -
  assume "n < 65536"
  then have "n div 4096 mod 16 = n div 4096" by simp
  moreover have "n div 16 div 16 = n div 256" "n div 256 div 16 = n div 4096"
    by (simp_all flip: div_mult2_eq)
  ultimately show ?thesis
    using div_mult_mod_eq [of n 16] div_mult_mod_eq [of "n div 16" 16] div_mult_mod_eq [of "n div 256" 16]
    by linarith
qed

lemma scan_hex4_hex4 [simp]: "n < 65536 \<Longrightarrow> scan_hex4 (hex4 n @ r) = Some (n, r)"
  using hex4_sum [of n] by (simp add: hex4_def)

lemma scan_low_esc:
  assumes "n < 1114112" "65536 \<le> n"
  shows "scan_low (55296 + (n - 65536) div 1024) (esc_u (56320 + (n - 65536) mod 1024) @ t) = Some (n, t)"
proof -
  have lo: "56320 + (n - 65536) mod 1024 < 57344" by simp
  have hi: "(n - 65536) div 1024 < 1024" using assms by simp
  have "65536 + (n - 65536) div 1024 * 1024 + (n - 65536) mod 1024 = n"
    using assms by presburger
  then show ?thesis
    using lo hi by (simp add: scan_low_def esc_u_def expect_def)
qed

lemma append_singleton_fun [simp]: "(@) [x] = (#) x"
  by (simp add: fun_eq_iff)

lemma scan_str_esc_u:
  assumes "n < 65536" "\<not> is_surrogate n"
  shows "scan_str (esc_u n @ t) = map_option (apfst ((@) (enc_cp n))) (scan_str t)"
proof -
  have "scan_low n t = None" using assms by (auto simp: scan_low_def is_surrogate_def)
  then show ?thesis using assms by (simp add: esc_u_def scan_escape_def)
qed

lemma scan_str_esc_cp:
  assumes "is_scalar n"
  shows "scan_str (esc_cp n @ t) = map_option (apfst ((@) (enc_cp n))) (scan_str t)"
proof (cases "32 \<le> n \<and> n < 127 \<and> n \<noteq> 34 \<and> n \<noteq> 92")
  case True
  then have "esc_cp n = [char_of n]" "code (char_of n) = n" "enc_cp n = [char_of n]"
    by (simp_all add: esc_cp_def enc_cp_def)
  moreover from this True have "char_of n \<noteq> CHR 0x22" "char_of n \<noteq> CHR 0x5C"
    by (simp_all add: char_of_eq_iff)
  ultimately show ?thesis using True by (simp add: apfst_def)
next
  case False
  consider "n = 34" | "n = 92" | "n = 10" | "n = 13" | "n = 9" | "n = 12" | "n = 8"
    | "n < 65536" "esc_cp n = esc_u n" | "65536 \<le> n"
    using False by (force simp: esc_cp_def)
  then show ?thesis
  proof cases
    case 8
    then show ?thesis using assms by (simp add: scan_str_esc_u is_scalar_def)
  next
    case 9
    then have "n < 1114112" "esc_cp n = esc_u (55296 + (n - 65536) div 1024)
        @ esc_u (56320 + (n - 65536) mod 1024)"
      using assms by (simp_all add: is_scalar_def esc_cp_def)
    moreover from this have "55296 + (n - 65536) div 1024 < 65536" by simp
    ultimately show ?thesis
      using 9 scan_low_esc [of n t] by (simp add: esc_u_def [of "55296 + (n - 65536) div 1024"] scan_escape_def)
  qed (simp_all add: esc_cp_def enc_cp_def simple_esc_def scan_escape_def char_of_def bit_0 apfst_def)
qed

lemma scan_str_esc_str [simp]:
  "str_ok s \<Longrightarrow> scan_str (esc_str s @ CHR 0x22 # r) = Some (s, r)"
proof (induction s rule: str_ok_induct)
  case Nil
  show ?case by (subst esc_str.simps) simp
next
  case (Cp n s)
  then have "esc_str (enc_cp n @ s) = esc_cp n @ esc_str s"
    by (subst esc_str.simps) simp
  with Cp show ?case by (simp add: scan_str_esc_cp)
qed

section \<open>Numbers\<close>

text \<open>What follows a number must not continue it.\<close>

definition num_stop :: "str \<Rightarrow> bool" where
  "num_stop r \<longleftrightarrow> (case r of [] \<Rightarrow> True
     | c # _ \<Rightarrow> \<not> is_digit c \<and> c \<noteq> CHR ''.'' \<and> c \<noteq> CHR ''e'' \<and> c \<noteq> CHR ''E'')"

lemma num_stop_takeWhile:
  "num_stop r \<Longrightarrow> takeWhile is_digit (nat_str n @ r) = nat_str n"
  "num_stop r \<Longrightarrow> dropWhile is_digit (nat_str n @ r) = r"
  using nat_str_digits [of _ n]
  by (auto simp: num_stop_def takeWhile_append2 dropWhile_append2 split: list.splits)

lemma scan_tail_stop:
  "num_stop r \<Longrightarrow> scan_frac r = ([], r)"
  "num_stop r \<Longrightarrow> scan_exp r = ([], r)"
  by (auto simp: num_stop_def scan_frac_def scan_exp_def expect_def split: list.splits)

lemma scan_int_nat_str:
  assumes "num_stop r"
  shows "scan_int (nat_str n @ r) = Some (nat_str n, r)"
proof (cases "n = 0")
  case True
  then show ?thesis by (simp add: scan_int_def)
next
  case False
  obtain c cs where cs: "nat_str n = c # cs" by (cases "nat_str n") auto
  then have "is_digit c" using nat_str_digits [of c n] by simp
  moreover have "c \<noteq> CHR ''0''" using nat_str_hd_zero [of n] cs False by auto
  moreover have "takeWhile is_digit (c # cs @ r) = c # cs" "dropWhile is_digit (c # cs @ r) = r"
    using num_stop_takeWhile [OF assms, of n] cs by simp_all
  ultimately show ?thesis using cs by (simp add: scan_int_def)
qed

lemma nat_str_hd: obtains c cs where "nat_str n = c # cs" "is_digit c"
  using nat_str_digits [of _ n] by (cases "nat_str n") auto

lemma scan_num_int_str:
  assumes "num_stop r"
  shows "scan_num (int_str i @ r) = Some (JInt i, r)"
proof (cases "i < 0")
  case True
  then show ?thesis
    using assms by (simp add: scan_num_def int_str_def scan_int_nat_str scan_tail_stop Let_def)
next
  case False
  obtain c cs where cs: "nat_str (nat i) = c # cs" "is_digit c" by (rule nat_str_hd)
  then have "hd (nat_str (nat i) @ r) \<noteq> CHR ''-''" by (auto simp: is_digit_def)
  with False show ?thesis
    using assms by (simp add: scan_num_def int_str_def scan_int_nat_str scan_tail_stop Let_def)
qed

lemma scan_const_digit:
  assumes "is_digit c"
  shows "scan_const (c # s) = None" and "scan_const (CHR ''-'' # c # s) = None"
proof -
  from assms have "c \<noteq> CHR ''n''" "c \<noteq> CHR ''t''" "c \<noteq> CHR ''f''" "c \<noteq> CHR ''N''" "c \<noteq> CHR ''I''"
      "c \<noteq> CHR ''-''"
    by (auto simp: is_digit_def)
  then show "scan_const (c # s) = None" and "scan_const (CHR ''-'' # c # s) = None"
    by (simp_all add: scan_const_def startswith_def)
qed

lemma scan_val_int:
  assumes "num_stop r"
  shows "scan_val (Suc f) (int_str i @ r) = Some (JInt i, r)"
proof -
  obtain c cs where cs: "nat_str (nat \<bar>i\<bar>) = c # cs" "is_digit c" by (rule nat_str_hd)
  then have c: "c \<noteq> CHR 0x22" "c \<noteq> CHR ''{''" "c \<noteq> CHR ''[''" by (auto simp: is_digit_def)
  have "int_str i @ r = (if i < 0 then CHR ''-'' # c # cs @ r else c # cs @ r)"
    using cs by (auto simp: int_str_def)
  moreover have "scan_num (int_str i @ r) = Some (JInt i, r)"
    using assms by (rule scan_num_int_str)
  ultimately show ?thesis using c cs(2) by (auto simp: scan_const_digit)
qed

section \<open>Values\<close>

definition sep_ok :: "char \<Rightarrow> str \<Rightarrow> bool" where
  "sep_ok c s \<longleftrightarrow> (\<exists>w. s = c # w \<and> list_all is_json_space w)"

definition starts_value :: "str \<Rightarrow> bool" where
  "starts_value s \<longleftrightarrow> (\<exists>c cs. s = c # cs \<and> \<not> is_json_space c \<and> c \<notin> {CHR '']'', CHR ''}'', CHR '',''})"

lemma starts_value_append [simp]: "starts_value s \<Longrightarrow> starts_value (s @ t)"
  by (auto simp: starts_value_def)

lemma skip_ws_value [simp]: "starts_value s \<Longrightarrow> skip_ws s = s"
  by (auto simp: starts_value_def)

lemma skip_ws_spaces [simp]: "list_all is_json_space w \<Longrightarrow> skip_ws (w @ s) = skip_ws s"
  by (simp add: dropWhile_append2 list_all_iff)

lemma quote_starts [simp]: "starts_value (quote s)"
  by (simp add: quote_def starts_value_def is_json_space_def)

lemma int_str_starts [simp]: "starts_value (int_str i)"
proof -
  obtain c cs where cs: "nat_str (nat \<bar>i\<bar>) = c # cs" "is_digit c" by (rule nat_str_hd)
  then show ?thesis by (auto simp: int_str_def starts_value_def is_json_space_def is_digit_def)
qed

lemma dumps_starts [simp]: "json_ok v \<Longrightarrow> starts_value (dumps_with i k v)"
  by (cases v) (simp_all, auto simp: starts_value_def is_json_space_def)

lemma dumps_elems_starts: "list_all json_ok xs \<Longrightarrow> xs \<noteq> [] \<Longrightarrow> starts_value (dumps_elems i k xs)"
  by (cases xs) simp_all

lemma dumps_members_starts: "ps \<noteq> [] \<Longrightarrow> starts_value (dumps_members i k ps)"
  by (cases ps) auto

lemma expect_simps [simp]:
  "expect c (c # s) = Some s"
  "x \<noteq> c \<Longrightarrow> expect c (x # s) = None"
  by (simp_all add: expect_def)

lemma expect_value [simp]:
  "starts_value s \<Longrightarrow> c \<in> {CHR '']'', CHR ''}'', CHR '',''} \<Longrightarrow> expect c s = None"
  by (auto simp: starts_value_def expect_def)

lemma num_stop_delims [simp]:
  "num_stop []"
  "num_stop (CHR '']'' # r)" "num_stop (CHR ''}'' # r)" "num_stop (CHR '','' # r)"
  by (simp_all add: num_stop_def is_digit_def)

lemma num_stop_sep [simp]: "sep_ok (CHR '','') i \<Longrightarrow> num_stop (i @ r)"
  by (auto simp: sep_ok_def)

lemma not_space_delims [simp]:
  "\<not> is_json_space (CHR '']'')" "\<not> is_json_space (CHR ''}'')"
  "\<not> is_json_space (CHR '','')" "\<not> is_json_space (CHR '':'')"
  by (simp_all add: is_json_space_def)

lemma dumps_not_Nil [simp]: "json_ok v \<Longrightarrow> dumps_with i k v \<noteq> []"
  using dumps_starts [of v i k] by (auto simp: starts_value_def)

lemma scan_sep_close [simp]:
  "c \<in> {CHR '']'', CHR ''}''} \<Longrightarrow> scan_sep c (c # r) = Some (True, r)"
  by (auto simp: scan_sep_def)

lemma scan_sep_comma:
  assumes "sep_ok (CHR '','') i" and "starts_value r" and "c \<in> {CHR '']'', CHR ''}''}"
  shows "scan_sep c (i @ r) = Some (False, r)"
proof -
  obtain w where "i = CHR '','' # w" "list_all is_json_space w"
    using assms(1) unfolding sep_ok_def by blast
  with assms(2,3) show ?thesis by (auto simp: scan_sep_def)
qed

lemma scan_key_quote:
  assumes "sep_ok (CHR '':'') k" and "starts_value r" and "str_ok s"
  shows "scan_key (quote s @ k @ r) = Some (s, r)"
proof -
  obtain w where "k = CHR '':'' # w" "list_all is_json_space w"
    using assms(1) unfolding sep_ok_def by blast
  with assms(2,3) show ?thesis by (simp add: scan_key_def quote_def)
qed

lemma scan_roundtrip:
  shows "sep_ok (CHR '','') i \<Longrightarrow> sep_ok (CHR '':'') k \<Longrightarrow> json_ok v \<Longrightarrow> num_stop r \<Longrightarrow>
           2 * length (dumps_with i k v) + 1 \<le> f \<Longrightarrow>
           scan_val f (dumps_with i k v @ r) = Some (v, r)"
    and "sep_ok (CHR '','') i \<Longrightarrow> sep_ok (CHR '':'') k \<Longrightarrow> list_all json_ok xs \<Longrightarrow> xs \<noteq> [] \<Longrightarrow>
           2 * length (dumps_elems i k xs) + 2 \<le> f \<Longrightarrow>
           scan_elems f (dumps_elems i k xs @ CHR '']'' # r) = Some (xs, r)"
    and "sep_ok (CHR '','') i \<Longrightarrow> sep_ok (CHR '':'') k \<Longrightarrow>
           list_all (\<lambda>(s, x). str_ok s \<and> json_ok x) ps \<Longrightarrow> ps \<noteq> [] \<Longrightarrow>
           2 * length (dumps_members i k ps) + 2 \<le> f \<Longrightarrow>
           scan_members f (dumps_members i k ps @ CHR ''}'' # r) = Some (ps, r)"
proof (induction i k v and i k xs and i k ps arbitrary: f r and f r and f r
    rule: dumps_with_dumps_elems_dumps_members.induct)
  case (1 i k)
  then show ?case by (cases f) (simp_all add: scan_const_def startswith_def)
next
  case (2 i k b)
  then show ?case by (cases f) (auto simp: scan_const_def startswith_def)
next
  case (3 i k n)
  then show ?case by (cases f) (simp_all add: scan_val_int del: scan_val.simps(2))
next
  case (5 i k s)
  then show ?case by (cases f) (simp_all add: quote_def)
next
  case (6 i k xs)
  then obtain f' where f: "f = Suc f'" by (cases f) auto
  show ?case
  proof (cases "xs = []")
    case False
    then have "starts_value (dumps_elems i k xs @ CHR '']'' # r)"
      using "6.prems" by (simp add: dumps_elems_starts)
    with 6 False f show ?thesis by simp
  qed (simp add: f)
next
  case (7 i k ps)
  then obtain f' where f: "f = Suc f'" by (cases f) auto
  show ?case
  proof (cases "ps = []")
    case False
    then have "starts_value (dumps_members i k ps @ CHR ''}'' # r)"
      by (simp add: dumps_members_starts)
    with 7 False f show ?thesis by simp
  qed (simp add: f)
next
  case (9 i k x xs)
  then obtain f' where f: "f = Suc f'" by (cases f) auto
  have len: "0 < length (dumps_with i k x)" using 9 dumps_not_Nil [of x i k] by auto
  show ?case
  proof (cases "xs = []")
    case True
    with 9 f show ?thesis by simp
  next
    case False
    have "scan_val f' (dumps_with i k x @ i @ dumps_elems i k xs @ CHR '']'' # r) =
        Some (x, i @ dumps_elems i k xs @ CHR '']'' # r)"
      by (rule "9.IH"(1)) (use "9.prems" False f num_stop_sep in auto)
    moreover have "scan_elems f' (dumps_elems i k xs @ CHR '']'' # r) = Some (xs, r)"
      by (rule "9.IH"(2)) (use "9.prems" False f len in \<open>auto simp: sep_ok_def\<close>)
    moreover have "starts_value (dumps_elems i k xs @ CHR '']'' # r)"
      using "9.prems" False by (simp add: dumps_elems_starts)
    ultimately show ?thesis using False f "9.prems"(1) by (simp add: scan_sep_comma)
  qed
next
  case (11 i k s x ps)
  then obtain f' where f: "f = Suc f'" by (cases f) auto
  have ok: "str_ok s" "json_ok x" using "11.prems" by auto
  define t where "t = (if ps = [] then [] else i @ dumps_members i k ps) @ CHR ''}'' # r"
  have whole: "dumps_members i k ((s, x) # ps) @ CHR ''}'' # r = quote s @ k @ dumps_with i k x @ t"
    by (simp add: t_def)
  have "scan_val f' (dumps_with i k x @ t) = Some (x, t)"
    by (rule "11.IH"(1)) (use ok "11.prems" f num_stop_sep in \<open>auto simp: t_def\<close>)
  moreover have "scan_key (quote s @ k @ dumps_with i k x @ t) = Some (s, dumps_with i k x @ t)"
    using ok "11.prems" by (intro scan_key_quote) simp_all
  ultimately have head: "scan_members f (dumps_members i k ((s, x) # ps) @ CHR ''}'' # r) =
      (case scan_sep (CHR ''}'') t of None \<Rightarrow> None
       | Some (fin, r1) \<Rightarrow> if fin then Some ([(s, x)], r1)
           else map_option (apfst ((#) (s, x))) (scan_members f' r1))"
    unfolding whole by (simp add: f)
  show ?case
  proof (cases "ps = []")
    case True
    then show ?thesis unfolding head by (simp add: t_def)
  next
    case False
    have "scan_members f' (dumps_members i k ps @ CHR ''}'' # r) = Some (ps, r)"
      by (rule "11.IH"(2)) (use "11.prems" False f in \<open>auto simp: quote_def\<close>)
    moreover have "starts_value (dumps_members i k ps @ CHR ''}'' # r)"
      using False by (simp add: dumps_members_starts)
    ultimately show ?thesis
      unfolding head using False "11.prems"(1) by (simp add: t_def scan_sep_comma)
  qed
qed simp_all

section \<open>Enough fuel\<close>

lemma skip_ws_length: "length (skip_ws s) \<le> length s"
  by (rule length_dropWhile_le)

lemma expect_length: "expect c s = Some r \<Longrightarrow> length s = Suc (length r)"
  by (auto simp: expect_def split: list.splits if_splits)

lemma expect_skip_length: "expect c (skip_ws s) = Some r \<Longrightarrow> length r < length s"
  using expect_length [of c "skip_ws s" r] skip_ws_length [of s] by linarith

lemma scan_str_length: "scan_str s = Some (t, r) \<Longrightarrow> length r < length s"
proof (induction s arbitrary: t r rule: scan_str.induct)
  case (2 c cs)
  then show ?case
    by (fastforce split: if_splits option.splits dest!: scan_escape_shorter)
qed simp

lemma scan_frac_length: "length (snd (scan_frac s)) \<le> length s"
  using length_dropWhile_le [of is_digit]
  by (auto simp: scan_frac_def le_SucI dest!: expect_length split: option.splits)

lemma scan_exp_length: "length (snd (scan_exp s)) \<le> length s"
  by (auto simp: scan_exp_def Let_def split: list.splits)
    (metis diff_le_self le_SucI le_trans length_drop length_dropWhile_le)+

lemma scan_int_length: "scan_int s = Some (t, r) \<Longrightarrow> length r < length s"
  using length_dropWhile_le [of is_digit]
  by (auto simp: scan_int_def less_Suc_eq_le split: list.splits if_splits)

lemma scan_num_length: "scan_num s = Some (v, r) \<Longrightarrow> length r < length s"
proof -
  assume num: "scan_num s = Some (v, r)"
  define s' where "s' = (if s \<noteq> [] \<and> hd s = CHR ''-'' then tl s else s)"
  from num obtain ds r1 where int: "scan_int s' = Some (ds, r1)"
      and r: "r = snd (scan_exp (snd (scan_frac r1)))"
    by (auto simp: scan_num_def s'_def Let_def bind_eq_Some_conv split: if_splits)
  have "length r1 < length s'" using int by (rule scan_int_length)
  moreover have "length r \<le> length r1"
    unfolding r using scan_exp_length scan_frac_length by (rule le_trans)
  moreover have "length s' \<le> length s" by (simp add: s'_def)
  ultimately show ?thesis by simp
qed

lemma scan_const_length: "scan_const s = Some (v, r) \<Longrightarrow> length r < length s"
  by (auto simp: scan_const_def dest!: startswith_length split: if_splits)

text \<open>A scanner that succeeds consumes input.\<close>

lemma scan_sep_length: "scan_sep c s = Some (fin, r) \<Longrightarrow> length r < length s"
  using skip_ws_length order.strict_trans1
  by (fastforce simp: scan_sep_def dest: expect_skip_length split: option.splits)

lemma scan_key_length:
  assumes "scan_key s = Some (k, r)"
  shows "length r < length s"
proof -
  from assms obtain s1 s2 s3 where k: "expect (CHR 0x22) s = Some s1" "scan_str s1 = Some (k, s2)"
      "expect (CHR '':'') (skip_ws s2) = Some s3" and r: "r = skip_ws s3"
    by (auto simp: scan_key_def bind_eq_Some_conv)
  show ?thesis
    using expect_length [OF k(1)] scan_str_length [OF k(2)] expect_skip_length [OF k(3)]
      skip_ws_length [of s3] unfolding r by linarith
qed

lemma scan_length:
  shows "scan_val f s = Some (v, r) \<Longrightarrow> length r < length s"
    and "scan_elems f s = Some (vs, r) \<Longrightarrow> length r < length s"
    and "scan_members f s = Some (ps, r) \<Longrightarrow> length r < length s"
proof (induction f s and f s and f s arbitrary: v r and vs r and ps r
    rule: scan_val_scan_elems_scan_members.induct)
  case (2 f s)
  obtain c cs where s: "s = c # cs" using "2.prems" by (cases s) auto
  have ws: "length (skip_ws cs) \<le> length cs" by (rule skip_ws_length)
  have members: "length r < length (skip_ws cs)"
    if "c = CHR ''{''" "expect (CHR ''}'') (skip_ws cs) = None"
      "scan_members f (skip_ws cs) = Some (ps, r)" for ps
    using "2.IH"(1) s that by auto
  have elems: "length r < length (skip_ws cs)"
    if "c = CHR ''[''" "expect (CHR '']'') (skip_ws cs) = None"
      "scan_elems f (skip_ws cs) = Some (vs, r)" for vs
    using "2.IH"(2) s that by auto
  show ?case
    using "2.prems" ws members elems unfolding s
    by (auto split: if_splits option.splits dest!: expect_length scan_str_length scan_const_length scan_num_length)
next
  case (4 f s)
  then show ?case
    by (fastforce dest!: scan_sep_length split: option.splits if_splits)
next
  case (6 f s)
  then show ?case
    by (fastforce dest!: scan_sep_length scan_key_length split: option.splits if_splits)
qed simp_all

text \<open>Two units of fuel per character are enough: more fuel never changes the result.\<close>

lemma scan_fuel_enough:
  shows "2 * length s + 1 \<le> f \<Longrightarrow> f \<le> g \<Longrightarrow> scan_val g s = scan_val f s"
    and "2 * length s + 2 \<le> f \<Longrightarrow> f \<le> g \<Longrightarrow> scan_elems g s = scan_elems f s"
    and "2 * length s + 2 \<le> f \<Longrightarrow> f \<le> g \<Longrightarrow> scan_members g s = scan_members f s"
proof (induction f s and f s and f s arbitrary: g and g and g
    rule: scan_val_scan_elems_scan_members.induct)
  case (2 f s)
  from "2.prems" obtain g' where g: "g = Suc g'" "f \<le> g'" by (cases g) auto
  show ?case
  proof (cases s)
    case (Cons c cs)
    have ws: "length (skip_ws cs) \<le> length cs" by (rule skip_ws_length)
    have "scan_members g' (skip_ws cs) = scan_members f (skip_ws cs)"
        if "c = CHR ''{''" "expect (CHR ''}'') (skip_ws cs) = None"
      by (rule "2.IH"(1) [OF Cons]) (use "2.prems" Cons that ws g in auto)
    moreover have "scan_elems g' (skip_ws cs) = scan_elems f (skip_ws cs)"
        if "c = CHR ''[''" "expect (CHR '']'') (skip_ws cs) = None"
      by (rule "2.IH"(2) [OF Cons]) (use "2.prems" Cons that ws g in auto)
    ultimately show ?thesis unfolding g(1) Cons by (auto split: option.splits)
  qed (simp add: g)
next
  case (4 f s)
  from "4.prems" obtain g' where g: "g = Suc g'" "f \<le> g'" by (cases g) auto
  have v: "scan_val g' s = scan_val f s" by (rule "4.IH"(1)) (use "4.prems" g in simp_all)
  have rec: "scan_elems g' r1 = scan_elems f r1"
    if h: "scan_val f s = Some (v0, r0)" "scan_sep (CHR '']'') r0 = Some (False, r1)" for v0 r0 r1
    by (rule "4.IH"(2) [OF h(1) refl h(2) refl])
      (use scan_length(1) [OF h(1)] scan_sep_length [OF h(2)] "4.prems" g in simp_all)
  show ?case unfolding g(1) scan_elems.simps v
    by (auto split: option.splits simp: rec)
next
  case (6 f s)
  from "6.prems" obtain g' where g: "g = Suc g'" "f \<le> g'" by (cases g) auto
  have v: "scan_val g' s1 = scan_val f s1" if h: "scan_key s = Some (k, s1)" for k s1
    by (rule "6.IH"(1) [OF h refl]) (use scan_key_length [OF h] "6.prems" g in simp_all)
  have rec: "scan_members g' r1 = scan_members f r1"
    if h: "scan_key s = Some (k, s1)" "scan_val f s1 = Some (v0, r0)"
      "scan_sep (CHR ''}'') r0 = Some (False, r1)" for k s1 v0 r0 r1
    by (rule "6.IH"(2) [OF h(1) refl h(2) refl h(3) refl])
      (use scan_key_length [OF h(1)] scan_length(1) [OF h(2)] scan_sep_length [OF h(3)] "6.prems" g
        in simp_all)
  show ?case
  proof (cases "scan_key s")
    case (Some a)
    then obtain k s1 where "a = (k, s1)" "scan_key s = Some (k, s1)" by (cases a) auto
    then show ?thesis using v rec unfolding g(1) scan_members.simps
      by (auto split: option.splits)
  qed (simp add: g)
qed simp_all

section \<open>The printed text\<close>

text \<open>Printed text has no byte above 127 and no zero byte.\<close>

definition plain :: "str \<Rightarrow> bool" where
  "plain s \<longleftrightarrow> (\<forall>c \<in> set s. 0 < (code c :: nat) \<and> code c < (128 :: nat))"

lemma plain_simps [simp]:
  "plain []"
  "plain (c # s) \<longleftrightarrow> 0 < (code c :: nat) \<and> code c < (128 :: nat) \<and> plain s"
  "plain (s @ t) \<longleftrightarrow> plain s \<and> plain t"
  by (auto simp: plain_def)

lemma plain_ascii: "plain s \<Longrightarrow> is_ascii s"
  by (simp add: plain_def is_ascii_def)

lemma plain_hex4 [simp]: "plain (hex4 n)"
proof -
  have "0 < code (hex_digit (m mod 16)) \<and> code (hex_digit (m mod 16)) < (128::nat)" for m
    using code_hex_digit [of "m mod 16"] mod_less_divisor [of 16 m] by auto
  then show ?thesis by (simp add: hex4_def)
qed

lemma plain_esc_cp [simp]: "plain (esc_cp n)"
  by (simp add: esc_cp_def esc_u_def)

lemma plain_esc_str [simp]: "plain (esc_str s)"
proof (induction s rule: esc_str.induct)
  case (1 s)
  then show ?case by (subst esc_str.simps) (auto split: prod.splits)
qed

lemma plain_quote [simp]: "plain (quote s)"
  by (simp add: quote_def)

lemma plain_int_str [simp]: "plain (int_str i)"
  using nat_str_digits by (fastforce simp: int_str_def plain_def is_digit_def)

lemma plain_dumps:
  shows "plain i \<Longrightarrow> plain k \<Longrightarrow> json_ok v \<Longrightarrow> plain (dumps_with i k v)"
    and "plain i \<Longrightarrow> plain k \<Longrightarrow> list_all json_ok xs \<Longrightarrow> plain (dumps_elems i k xs)"
    and "plain i \<Longrightarrow> plain k \<Longrightarrow> list_all (\<lambda>(s, x). str_ok s \<and> json_ok x) ps \<Longrightarrow>
           plain (dumps_members i k ps)"
  by (induction i k v and i k xs and i k ps rule: dumps_with_dumps_elems_dumps_members.induct) auto

lemma plain_not_bom: "plain s \<Longrightarrow> \<not> startswith s bom"
  by (cases s) (auto simp: startswith_def bom_def)

section \<open>The round trip\<close>

lemma loads_dumps_with:
  assumes "sep_ok (CHR '','') i" "sep_ok (CHR '':'') k" "plain i" "plain k" "json_ok v"
  shows "loads (dumps_with i k v) = Some v"
proof -
  let ?s = "dumps_with i k v"
  have "starts_value ?s" using assms(5) by simp
  moreover have "scan_val (2 * length ?s + 1) (?s @ []) = Some (v, [])"
    using assms by (intro scan_roundtrip(1)) simp_all
  ultimately show ?thesis
    using plain_not_bom [OF plain_dumps(1) [OF assms(3-5)]] by (simp add: loads_def)
qed

lemma loads_dumps: "json_ok v \<Longrightarrow> loads (dumps v) = Some v"
  unfolding dumps_def by (rule loads_dumps_with) (auto simp: sep_ok_def is_json_space_def)

lemma loads_dumps_compact [simp]: "json_ok v \<Longrightarrow> loads (dumps_compact v) = Some v"
  unfolding dumps_compact_def by (rule loads_dumps_with) (auto simp: sep_ok_def)

lemma plain_dumps_compact [simp]: "json_ok v \<Longrightarrow> plain (dumps_compact v)"
  unfolding dumps_compact_def by (rule plain_dumps(1)) simp_all

lemma dumps_compact_not_Nil [simp]: "json_ok v \<Longrightarrow> dumps_compact v \<noteq> []"
  by (simp add: dumps_compact_def)

text \<open>Text that is printed as it stands.\<close>

definition unescaped :: "str \<Rightarrow> bool" where
  "unescaped s \<longleftrightarrow> list_all (\<lambda>c. 32 \<le> code c \<and> code c < (127::nat) \<and> c \<noteq> CHR 0x22 \<and> c \<noteq> CHR 0x5C) s"

lemma unescaped_simps [simp]:
  "unescaped []"
  "unescaped (c # s) \<longleftrightarrow> (32 \<le> code c \<and> code c < (127::nat) \<and> c \<noteq> CHR 0x22 \<and> c \<noteq> CHR 0x5C) \<and> unescaped s"
  "unescaped (s @ t) \<longleftrightarrow> unescaped s \<and> unescaped t"
  by (simp_all add: unescaped_def)

lemma quote_unescaped:
  assumes "unescaped s"
  shows "quote s = CHR 0x22 # s @ [CHR 0x22]"
proof -
  have char: "esc_cp (code c) = [c]" if "32 \<le> code c" "code c < (127::nat)" "c \<noteq> CHR 0x22" "c \<noteq> CHR 0x5C" for c
  proof -
    have "byte_of 34 = CHR 0x22" "byte_of 92 = CHR 0x5C" by code_simp+
    then have "code c \<noteq> 34" "code c \<noteq> (92::nat)" using that(3,4) char_of_eqI [of c] by metis+
    then show ?thesis using that(1,2) by (simp add: esc_cp_def)
  qed
  have "esc_str s = s"
    using assms
  proof (induction s)
    case Nil
    then show ?case by (simp add: esc_str.simps)
  next
    case (Cons c s)
    then have "next_cp (c # s) = (code c, s)" by (simp add: next_cp_ascii)
    then have "esc_str (c # s) = esc_cp (code c) @ esc_str s" by (subst esc_str.simps) simp
    then show ?case using Cons char [of c] by simp
  qed
  then show ?thesis by (simp add: quote_def)
qed

lemmas dumps_length = dumps_compact_def quote_unescaped

lemma plain_at: "plain b \<Longrightarrow> i < length b \<Longrightarrow> 0 < at b i \<and> at b i < 128"
  by (simp add: plain_def at_def)

lemma detect_plain: "plain b \<Longrightarrow> detect_encoding b = (UTF_8, b)"
proof -
  assume b: "plain b"
  have small: "at b i < 128" for i
  proof (cases "i < length b")
    case True
    with plain_at [OF b] show ?thesis by blast
  qed (simp add: at_def)
  have "2 \<le> length b \<Longrightarrow> at b 0 \<noteq> 0 \<and> at b 1 \<noteq> 0"
    using plain_at [OF b, of 0] plain_at [OF b, of 1] by (cases "b = []") simp_all
  then have "4 \<le> length b \<or> length b = 2 \<Longrightarrow> at b 0 \<noteq> 0 \<and> at b 1 \<noteq> 0" by auto
  then show ?thesis
    using small [of 0] small [of 1] small [of 2] small [of 3] plain_not_bom [OF b]
    by (auto simp: detect_encoding_def)
qed

lemma decode_bytes_plain: "plain b \<Longrightarrow> decode_bytes b = Some b"
  by (simp add: decode_bytes_def detect_plain utf8_decode_surrogatepass_def utf8_valid_ascii plain_ascii)

lemma loads_bytes_dumps_compact [simp]: "json_ok v \<Longrightarrow> loads_bytes (dumps_compact v) = Some v"
  by (simp add: loads_bytes_def decode_bytes_plain)

end
