(* ===== verification/Framing.thy ===== *)
theory Framing
  imports Codec PyValue Json_Roundtrip
begin

text \<open>
  The wire formats of the :47878 control channel (\<open>server/control_channel.py\<close>): the fridge's
  msgpack string around a JSON text, and the washer family's \<open>[4-byte length][JSON]\<close> frames.
  The locale \<open>wire_codec\<close> is the contract the connection loop needs of a format: however the
  stream is cut into chunks, the messages come out as they were sent.
\<close>

type_synonym message = jdict

section \<open>Sending\<close>

definition mp_str :: "str \<Rightarrow> bytes res" where
  "mp_str s =
     (if \<not> utf8_valid False s then Inl ValueError
      else let n = length s in
        if n < 32 then Inr (byte_of (160 + n) # s)
        else if n < 256 then Inr (byte_of 217 # byte_of n # s)
        else if n < 65536 then Inr (byte_of 218 # byte_of (n div 256) # byte_of (n mod 256) # s)
        else Inl ValueError)"

definition mp_int :: "int \<Rightarrow> bytes res" where
  "mp_int i =
     (if 0 \<le> i \<and> i < 128 then Inr [byte_of (nat i)]
      else if 0 \<le> i \<and> i < 256 then Inr [byte_of 204, byte_of (nat i)]
      else if 0 \<le> i \<and> i < 65536 then Inr [byte_of 205, byte_of (nat (i div 256)), byte_of (nat (i mod 256))]
      else Inl ValueError)"

fun mp_encode :: "json \<Rightarrow> bytes res"
  and mp_encode_items :: "(str \<times> json) list \<Rightarrow> bytes res" where
  "mp_encode (JStr s) = mp_str s"
| "mp_encode (JObj ps) =
     (let n = length ps in
      rbind (if n < 16 then Inr [byte_of (128 + n)]
             else if n < 65536 then Inr [byte_of 222, byte_of (n div 256), byte_of (n mod 256)]
             else Inl ValueError)
       (\<lambda>out. rbind (mp_encode_items ps) (\<lambda>r. Inr (out @ r))))"
| "mp_encode (JBool b) = Inr [byte_of (if b then 195 else 194)]"
| "mp_encode (JInt i) = mp_int i"
| "mp_encode JNull = Inl TypeError"
| "mp_encode (JReal t) = Inl TypeError"
| "mp_encode (JArr xs) = Inl TypeError"
| "mp_encode_items [] = Inr []"
| "mp_encode_items ((k, v) # ps) =
     rbind (mp_str k) (\<lambda>a. rbind (mp_encode v) (\<lambda>b. rbind (mp_encode_items ps) (\<lambda>c. Inr (a @ b @ c))))"

definition encode_message :: "message \<Rightarrow> bytes res" where
  "encode_message m = mp_str (dumps_compact (JObj m))"

text \<open>\<open>struct.pack("!I", n)\<close> raises \<open>struct.error\<close> beyond 32 bits.\<close>

definition encode_message_len4 :: "message \<Rightarrow> bytes res" where
  "encode_message_len4 m =
     (let p = dumps_compact (JObj m) in
      if length p < 4294967296 then Inr (be32 (length p) @ p) else Inl StructError)"

definition make_message :: "json \<Rightarrow> json \<Rightarrow> jdict \<Rightarrow> message" where
  "make_message dev wid fields =
     [(''Header'', JObj [(''x-lgedm-deviceId'', dev)]),
      (''Body'', JObj ((''CmdWId'', wid) # fields))]"

definition mon_start_message :: "json \<Rightarrow> json \<Rightarrow> message" where
  "mon_start_message dev wid =
     make_message dev wid [(''Cmd'', JStr ''Mon''), (''CmdOpt'', JStr ''Start'')]"

section \<open>The msgpack reader\<close>

text \<open>
  The reader's position is the rest of the data. Reading at the end gives \<open>None\<close> (here
  \<open>JNull\<close>), also in the middle of a map. One unit of fuel per nested \<open>read\<close>: more than the
  number of bytes is enough (\<open>mp_read_fuel_enough\<close>).
\<close>

definition mp_byte :: "bytes \<Rightarrow> (nat \<times> bytes) res" where
  "mp_byte bs = (case bs of [] \<Rightarrow> Inl IndexError | b # r \<Rightarrow> Inr (code b, r))"

definition mp_word :: "bytes \<Rightarrow> (nat \<times> bytes) res" where
  "mp_word bs = rbind (mp_byte bs) (\<lambda>(h, r). rbind (mp_byte r) (\<lambda>(l, r'). Inr (256 * h + l, r')))"

definition mp_read_str :: "nat \<Rightarrow> bytes \<Rightarrow> (json \<times> bytes) res" where
  "mp_read_str n bs =
     (if length bs < n then Inl ValueError
      else Inr (JStr (utf8_replace (take n bs)), drop n bs))"

function mp_read :: "nat \<Rightarrow> bytes \<Rightarrow> (json \<times> bytes) res"
  and mp_read_map :: "nat \<Rightarrow> nat \<Rightarrow> jdict \<Rightarrow> bytes \<Rightarrow> (json \<times> bytes) res" where
  "mp_read 0 bs = Inl RecursionError"
| "mp_read (Suc f) bs =
     (case bs of [] \<Rightarrow> Inr (JNull, [])
      | c # r \<Rightarrow> let p = code c in
          if 128 \<le> p \<and> p \<le> 143 then mp_read_map f (p - 128) [] r
          else if 160 \<le> p \<and> p \<le> 191 then mp_read_str (p - 160) r
          else if p = 217 then rbind (mp_byte r) (\<lambda>(n, r'). mp_read_str n r')
          else if p = 218 then rbind (mp_word r) (\<lambda>(n, r'). mp_read_str n r')
          else if p = 222 then rbind (mp_word r) (\<lambda>(n, r'). mp_read_map f n [] r')
          else if p < 128 then Inr (JInt (int p), r)
          else if p = 204 then rbind (mp_byte r) (\<lambda>(n, r'). Inr (JInt (int n), r'))
          else if p = 194 then Inr (JBool False, r)
          else if p = 195 then Inr (JBool True, r)
          else Inl ValueError)"
| "mp_read_map f 0 d bs = Inr (JObj d, bs)"
| "mp_read_map f (Suc n) d bs =
     rbind (mp_read f bs) (\<lambda>(key, r).
       rbind (mp_read f r) (\<lambda>(val, r').
         mp_read_map f n (dict_set d (py_str key) val) r'))"
  by pat_completeness auto
termination
  by (relation "measures [\<lambda>x. case x of Inl (f, _) \<Rightarrow> f | Inr (f, _) \<Rightarrow> f,
                          \<lambda>x. case x of Inl _ \<Rightarrow> 0 | Inr (f, n, _) \<Rightarrow> Suc n]") auto

lemma mp_byte_Inr_iff: "mp_byte bs = Inr (n, r) \<longleftrightarrow> (\<exists>b. bs = b # r \<and> n = code b)"
  by (cases bs) (auto simp: mp_byte_def)

lemma mp_word_Inr_iff:
  "mp_word bs = Inr (n, r) \<longleftrightarrow> (\<exists>a b. bs = a # b # r \<and> n = 256 * code a + code b)"
  by (auto simp: mp_word_def rbind_Inr_iff mp_byte_Inr_iff)

lemma mp_byte_word_error [simp]:
  "mp_byte bs \<noteq> Inl RecursionError" "mp_word bs \<noteq> Inl RecursionError"
  "mp_read_str n bs \<noteq> Inl RecursionError"
  by (auto simp: mp_byte_def mp_word_def mp_read_str_def split: list.splits)

lemma mp_read_str_shorter: "mp_read_str n bs = Inr (v, r) \<Longrightarrow> length r \<le> length bs"
  by (auto simp: mp_read_str_def split: if_splits)

lemma mp_read_length:
  "mp_read f bs = Inr (v, r) \<Longrightarrow> length r \<le> length bs - 1"
  "mp_read_map f n d bs = Inr (v, r) \<Longrightarrow> length r \<le> length bs"
proof (induction f bs and f n d bs arbitrary: v r and v r rule: mp_read_mp_read_map.induct)
  case (2 f bs)
  show ?case
  proof (cases bs)
    case Nil
    with "2.prems" show ?thesis by simp
  next
    case (Cons c cs)
    have "length r \<le> length cs"
      using "2.prems" 2(1)[OF Cons refl] 2(2)[OF Cons refl] unfolding Cons
      by (fastforce simp: Let_def rbind_Inr_iff mp_byte_Inr_iff mp_word_Inr_iff
          split: if_splits dest!: mp_read_str_shorter)
    with Cons show ?thesis by simp
  qed
next
  case (4 f n d bs)
  then show ?case
    by (auto simp: rbind_Inr_iff)  (metis (no_types, lifting) diff_le_self le_trans)
qed simp_all

lemma mp_read_fuel_enough:
  "length bs < f \<Longrightarrow> mp_read f bs \<noteq> Inl RecursionError"
  "length bs < f \<or> n = 0 \<Longrightarrow> mp_read_map f n d bs \<noteq> Inl RecursionError"
proof (induction f bs and f n d bs rule: mp_read_mp_read_map.induct)
  case (2 f bs)
  show ?case
  proof (cases bs)
    case (Cons c cs)
    have fuel: "length cs < f" using "2.prems" Cons by simp
    have m: "mp_read_map f n [] r \<noteq> Inl RecursionError"
      if "code c = (222::nat)" "mp_word cs = Inr (n, r)" for n r
      using 2(2)[OF Cons refl, of "(n, r)" n r] that fuel by (auto simp: mp_word_Inr_iff)
    show ?thesis
      using 2(1)[OF Cons refl] m fuel unfolding Cons
      by (auto simp: Let_def rbind_Inl_iff split: if_splits)
  qed simp
next
  case (4 f n d bs)
  then have fuel: "length bs < f" by simp
  show ?case
  proof (cases "mp_read f bs")
    case (Inl e)
    with 4 fuel show ?thesis by auto
  next
    case (Inr x)
    obtain key r where x: "x = (key, r)" by (cases x)
    with Inr mp_read_length(1) have r: "length r \<le> length bs - 1" by blast
    show ?thesis
    proof (cases "mp_read f r")
      case (Inl e)
      with 4(2)[OF Inr] x r fuel Inr show ?thesis by auto
    next
      case (Inr y)
      obtain val r' where y: "y = (val, r')" by (cases y)
      with Inr mp_read_length(1) have "length r' \<le> length r - 1" by blast
      with r fuel have "length r' < f" by linarith
      with 4(3)[OF \<open>mp_read f bs = Inr x\<close> x[symmetric] Inr y[symmetric]] r fuel x y Inr \<open>mp_read f bs = Inr x\<close>
      show ?thesis by auto
    qed
  qed
qed simp_all

section \<open>Receiving: the fridge's stream\<close>

definition msgbuf_sanity_limit :: nat where
  [const_defs]: "msgbuf_sanity_limit = 65536"

text \<open>
  One round of the decoding loop: \<open>None\<close> rewinds to the start of the round and ends the loop.
\<close>

definition mp_next :: "bytes \<Rightarrow> (message \<times> bytes) option" where
  "mp_next bs = (case mp_read (Suc (length bs)) bs of
      Inl e \<Rightarrow> None
    | Inr (JStr s, r) \<Rightarrow> (case loads s of Some (JObj m) \<Rightarrow> Some (m, r) | _ \<Rightarrow> None)
    | Inr (JObj m, r) \<Rightarrow> Some (m, r)
    | Inr (v, r) \<Rightarrow> None)"

lemma mp_next_shorter: "mp_next bs = Some (m, r) \<Longrightarrow> bs \<noteq> [] \<Longrightarrow> length r < length bs"
  using mp_read_length(1) [of "Suc (length bs)" bs]
  by (cases bs) (force simp: mp_next_def split: sum.splits json.splits option.splits prod.splits)+

function mp_loop :: "bytes \<Rightarrow> message list \<times> bytes" where
  "mp_loop bs =
     (if bs = [] then ([], [])
      else case mp_next bs of None \<Rightarrow> ([], bs)
           | Some (m, r) \<Rightarrow> apfst ((#) m) (mp_loop r))"
  by pat_completeness auto
termination
  by (relation "measure length") (use mp_next_shorter in auto)

declare mp_loop.simps [simp del]

definition decode_messages :: "bytes \<Rightarrow> message list \<times> bytes" where
  "decode_messages buf =
     (let (ms, rest) = mp_loop buf in
      if ms = [] \<and> msgbuf_sanity_limit < length rest then ([], []) else (ms, rest))"

section \<open>Receiving: the washer family's stream\<close>

definition len4_max_frame :: nat where
  [const_defs]: "len4_max_frame = 1048576"

function decode_messages_len4 :: "bytes \<Rightarrow> message list \<times> bytes" where
  "decode_messages_len4 bs =
     (if length bs < 4 then ([], bs)
      else let declared = be_int (take 4 bs) in
        if len4_max_frame < declared then decode_messages_len4 (tl bs)
        else if length bs < 4 + declared then ([], bs)
        else let r = drop (4 + declared) bs in
          (case loads_bytes (take declared (drop 4 bs)) of
             Some (JObj m) \<Rightarrow> apfst ((#) m) (decode_messages_len4 r)
           | _ \<Rightarrow> decode_messages_len4 r))"
  by pat_completeness auto
termination
  by (relation "measure length") auto

declare decode_messages_len4.simps [simp del]

section \<open>Reassembling a chunked stream\<close>

text \<open>
  What the receive loops do with a format: append each chunk to what the last decoding left
  and decode again.
\<close>

fun reassemble :: "(bytes \<Rightarrow> message list \<times> bytes) \<Rightarrow> bytes \<Rightarrow> bytes list \<Rightarrow> message list \<times> bytes" where
  "reassemble dec buf [] = ([], buf)"
| "reassemble dec buf (c # cs) =
     (let (ms, rest) = dec (buf @ c) in apfst ((@) ms) (reassemble dec rest cs))"

section \<open>What the reader gives back\<close>

lemma byte_pair:
  fixes n :: nat
  assumes "n < 65536"
  shows "n div 256 mod 256 * 256 + n mod 256 = n" "256 * (n div 256 mod 256) + n mod 256 = n"
proof -
  have "n div 256 mod 256 = n div 256" using assms by simp
  then show "n div 256 mod 256 * 256 + n mod 256 = n" "256 * (n div 256 mod 256) + n mod 256 = n"
    by (simp_all add: div_mult_mod_eq)
qed

lemma mp_read_mp_str:
  assumes "mp_str s = Inr w"
  shows "mp_read (Suc f) (w @ r) = Inr (JStr s, r)"
proof -
  have v: "utf8_valid False s" using assms by (auto simp: mp_str_def split: if_splits)
  consider (fixstr) "length s < 32" "w = byte_of (160 + length s) # s"
    | (str8) "32 \<le> length s" "length s < 256" "w = byte_of 217 # byte_of (length s) # s"
    | (str16) "256 \<le> length s" "length s < 65536"
        "w = byte_of 218 # byte_of (length s div 256) # byte_of (length s mod 256) # s"
    using assms by (auto simp: mp_str_def Let_def split: if_splits)
  then show ?thesis
  proof cases
    case fixstr
    then show ?thesis by (simp add: mp_read_str_def utf8_replace_valid v)
  next
    case str8
    then show ?thesis by (simp add: mp_byte_def mp_read_str_def utf8_replace_valid v)
  next
    case str16
    then have "mp_word (tl w @ r) = Inr (length s, s @ r)"
      by (simp add: mp_word_def mp_byte_def byte_pair)
    with str16 show ?thesis by (simp add: mp_read_str_def utf8_replace_valid v)
  qed
qed

lemma mp_str_not_Nil: "mp_str s = Inr w \<Longrightarrow> w \<noteq> []"
  by (auto simp: mp_str_def Let_def split: if_splits)

text \<open>Values the encoder and the reader agree on: distinct keys, integers of one byte.\<close>

fun mp_ok :: "json \<Rightarrow> bool" where
  "mp_ok (JObj ps) = (dict_ok ps \<and> list_all (\<lambda>(k, v). mp_ok v) ps)"
| "mp_ok (JInt i) = (i < 256)"
| "mp_ok _ = True"

lemma mp_encode_not_Nil: "mp_encode v = Inr w \<Longrightarrow> w \<noteq> []"
  by (cases v) (auto simp: Let_def rbind_Inr_iff mp_int_def mp_str_not_Nil split: if_splits)

lemma mp_read_int:
  assumes "mp_int i = Inr w" "i < 256"
  shows "mp_read (Suc f) (w @ r) = Inr (JInt i, r)"
proof -
  have i: "0 \<le> i" using assms(1) by (auto simp: mp_int_def split: if_splits)
  then have "nat i mod 256 = nat i" using assms(2) by simp
  moreover have "w = (if i < 128 then [byte_of (nat i)] else [byte_of 204, byte_of (nat i)])"
    using assms i by (auto simp: mp_int_def split: if_splits)
  moreover have "nat i < 128" if "i < 128" using that i by linarith
  ultimately show ?thesis using i by (cases "i < 128") (auto simp: mp_byte_def Let_def)
qed

lemma mp_read_mp_encode:
  "mp_encode v = Inr w \<Longrightarrow> mp_ok v \<Longrightarrow> length w < f \<Longrightarrow> mp_read f (w @ r) = Inr (v, r)"
  "mp_encode_items ps = Inr w \<Longrightarrow> list_all (\<lambda>(k, v). mp_ok v) ps \<Longrightarrow> ps = [] \<or> length w < f \<Longrightarrow>
     mp_read_map f (length ps) d (w @ r) = Inr (JObj (dict_update d ps), r)"
proof (induction v and ps arbitrary: w f r and w f r d rule: mp_encode_mp_encode_items.induct)
  case (1 s)
  then have "mp_str s = Inr w" by simp
  with 1(3) show ?case by (cases f) (simp, simp only: mp_read_mp_str)
next
  case (2 ps)
  obtain f' where f: "f = Suc f'" using "2.prems"(3) by (cases f) auto
  obtain hd items where w: "w = hd @ items" and items: "mp_encode_items ps = Inr items"
    and hd: "hd = (if length ps < 16 then [byte_of (128 + length ps)]
                   else [byte_of 222, byte_of (length ps div 256), byte_of (length ps mod 256)])"
    and len: "length ps < 65536"
    using "2.prems"(1) by (auto simp: Let_def rbind_Inr_iff split: if_splits)
  have "length items < f'" using "2.prems"(3) w hd f by (auto split: if_splits)
  moreover have "(if length ps < 16 then Inr [byte_of (128 + length ps)]
      else if length ps < 65536 then
        Inr [byte_of 222, byte_of (length ps div 256), byte_of (length ps mod 256)]
      else Inl ValueError) = Inr hd" using len by (simp add: hd)
  note ih = "2.IH"[OF refl this items, where f = f' and r = r and d = "[]"]
  ultimately have map: "mp_read_map f' (length ps) [] (items @ r) = Inr (JObj ps, r)"
    using ih "2.prems"(2) dict_of_distinct [of ps] by (simp add: dict_of_def)
  show ?case
  proof (cases "length ps < 16")
    case True
    with map show ?thesis by (simp add: w hd f)
  next
    case False
    have "mp_word (byte_of (length ps div 256) # byte_of (length ps mod 256) # items @ r)
          = Inr (length ps, items @ r)"
      using len by (simp add: mp_word_def mp_byte_def byte_pair)
    with map False show ?thesis by (simp add: w hd f)
  qed
next
  case (3 b)
  then show ?case by (cases f) auto
next
  case (4 i)
  then have "mp_int i = Inr w" "i < 256" by simp_all
  with 4(3) show ?case by (cases f) (simp, simp only: mp_read_int)
next
  case (9 k v ps)
  then obtain a b c where w: "w = a @ b @ c" and abc: "mp_str k = Inr a" "mp_encode v = Inr b"
      "mp_encode_items ps = Inr c"
    by (auto simp: rbind_Inr_iff)
  have len: "length w < f" using "9.prems"(3) by simp
  then obtain f' where f: "f = Suc f'" by (cases f) auto
  have "mp_read f (a @ b @ c @ r) = Inr (JStr k, b @ c @ r)"
    unfolding f using abc(1) by (rule mp_read_mp_str)
  moreover have "mp_read f (b @ c @ r) = Inr (v, c @ r)"
    using "9.IH"(1)[OF abc(1,2)] "9.prems"(2) len w abc by simp
  moreover have "mp_read_map f (length ps) (dict_set d k v) (c @ r)
                 = Inr (JObj (dict_update (dict_set d k v) ps), r)"
    using "9.IH"(2)[OF abc] "9.prems"(2) len w abc by simp
  ultimately show ?case by (simp add: w)
qed simp_all

section \<open>The contract of a wire format\<close>

locale wire_codec =
  fixes enc :: "message \<Rightarrow> bytes res"
    and dec :: "bytes \<Rightarrow> message list \<times> bytes"
    and ok :: "message \<Rightarrow> bool"
  assumes enc_ok: "ok m \<Longrightarrow> \<exists>w. enc m = Inr w"
    and dec_frames: "list_all ok ms \<Longrightarrow> list_all2 (\<lambda>m w. enc m = Inr w) ms ws \<Longrightarrow>
      p = [] \<or> (\<exists>m w. ok m \<and> enc m = Inr w \<and> strict_prefix p w) \<Longrightarrow>
      dec (concat ws @ p) = (ms, p)"
begin

definition partial :: "bytes \<Rightarrow> bool" where
  "partial p \<longleftrightarrow> p = [] \<or> (\<exists>m w. ok m \<and> enc m = Inr w \<and> strict_prefix p w)"

lemma partial_Nil [simp]: "partial []"
  by (simp add: partial_def)

lemma partial_prefix: "partial p \<Longrightarrow> prefix x p \<Longrightarrow> partial x"
  by (auto simp: partial_def)

lemma dec_stream:
  "list_all ok ms \<Longrightarrow> list_all2 (\<lambda>m w. enc m = Inr w) ms ws \<Longrightarrow> partial p \<Longrightarrow>
   dec (concat ws @ p) = (ms, p)"
  unfolding partial_def by (rule dec_frames)

lemma cut_stream:
  assumes "list_all ok ms" "list_all2 (\<lambda>m w. enc m = Inr w) ms ws" "partial p"
    and "x @ y = concat ws @ p"
  shows "\<exists>k q. x = concat (take k ws) @ q \<and> partial q \<and> q @ y = concat (drop k ws) @ p"
  using assms
proof (induction ws arbitrary: ms x)
  case Nil
  then have "prefix x p" by (auto simp: prefix_def)
  with Nil show ?case by (auto intro: partial_prefix)
next
  case (Cons w ws)
  then obtain m ms' where ms: "ms = m # ms'" "enc m = Inr w" "ok m"
    by (auto simp: list_all2_Cons2)
  from Cons.prems(4) have "x @ y = w @ (concat ws @ p)" by simp
  then obtain v where "(x = w @ v \<and> v @ y = concat ws @ p) \<or> (x @ v = w \<and> y = v @ concat ws @ p)"
    by (auto simp only: append_eq_append_conv2)
  then consider us where "x = w @ us" "us @ y = concat ws @ p" | us where "x @ us = w" "us \<noteq> []"
    by (metis append_Nil append_Nil2)
  then show ?case
  proof cases
    case (1 us)
    then have "\<exists>k q. us = concat (take k ws) @ q \<and> partial q \<and> q @ y = concat (drop k ws) @ p"
      using Cons.prems ms by (intro Cons.IH [of ms']) auto
    then obtain k q where "us = concat (take k ws) @ q" "partial q" "q @ y = concat (drop k ws) @ p"
      by blast
    with 1 show ?thesis by (intro exI [of _ "Suc k"] exI [of _ q]) simp
  next
    case (2 us)
    then have "strict_prefix x w" by (auto simp: strict_prefix_def)
    with ms have "partial x" by (auto simp: partial_def)
    with Cons.prems(4) show ?thesis by (intro exI [of _ 0] exI [of _ x]) simp
  qed
qed

lemma reassemble_stream:
  assumes "list_all ok ms" "list_all2 (\<lambda>m w. enc m = Inr w) ms ws" "partial p" "partial buf"
    and "buf @ concat cs = concat ws @ p"
  shows "reassemble dec buf cs = (ms, p)"
  using assms
proof (induction cs arbitrary: buf ms ws)
  case Nil
  have "dec buf = ([], buf)" using dec_stream [of "[]" "[]" buf] Nil by simp
  moreover have "dec buf = (ms, p)" using dec_stream [OF Nil(1-3)] Nil(5) by simp
  ultimately show ?case by simp
next
  case (Cons c cs)
  obtain k q where k: "buf @ c = concat (take k ws) @ q" and q: "partial q"
    and rest: "q @ concat cs = concat (drop k ws) @ p"
    using cut_stream [OF Cons.prems(1-3), of "buf @ c" "concat cs"] Cons.prems(5) by auto
  have "list_all ok (take k ms)" "list_all ok (drop k ms)"
    using Cons.prems(1) by (metis append_take_drop_id list_all_append)+
  moreover have "list_all2 (\<lambda>m w. enc m = Inr w) (take k ms) (take k ws)"
    "list_all2 (\<lambda>m w. enc m = Inr w) (drop k ms) (drop k ws)"
    using Cons.prems(2) by (simp_all add: list_all2_takeI list_all2_dropI)
  ultimately have "dec (buf @ c) = (take k ms, q)" "reassemble dec q cs = (drop k ms, p)"
    using k q rest Cons.prems(3) by (simp_all add: dec_stream Cons.IH)
  then show ?case by simp
qed

end

section \<open>The fridge's format keeps the contract\<close>

definition mp_message_ok :: "message \<Rightarrow> bool" where
  "mp_message_ok m \<longleftrightarrow> json_ok (JObj m) \<and> length (dumps_compact (JObj m)) \<le> 65534"

lemma utf8_valid_dumps: "json_ok v \<Longrightarrow> utf8_valid False (dumps_compact v)"
  by (rule utf8_valid_ascii, rule plain_ascii) simp

text \<open>\<open>_mp_str\<close> succeeds exactly on valid text below 64 KiB.\<close>

lemma mp_str_ok_iff: "(\<exists>w. mp_str s = Inr w) \<longleftrightarrow> utf8_valid False s \<and> length s < 65536"
  by (simp add: mp_str_def Let_def)

lemma mp_str_error: "mp_str s = Inl e \<Longrightarrow> e = ValueError"
  by (auto simp: mp_str_def Let_def split: if_splits)

lemma mp_str_length: "mp_str s = Inr w \<Longrightarrow> length w \<le> length s + 3"
  by (auto simp: mp_str_def Let_def split: if_splits)

lemma mp_next_message:
  assumes "json_ok (JObj m)" "encode_message m = Inr w"
  shows "mp_next (w @ r) = Some (m, r)"
proof -
  have "mp_read (Suc (length (w @ r))) (w @ r) = Inr (JStr (dumps_compact (JObj m)), r)"
    using assms(2) unfolding encode_message_def by (rule mp_read_mp_str)
  with assms(1) show ?thesis by (simp add: mp_next_def)
qed

lemma strict_prefix_Cons2: "strict_prefix p (c # s) \<longleftrightarrow> p = [] \<or> (\<exists>q. p = c # q \<and> strict_prefix q s)"
  by (cases p) auto

lemma mp_read_partial:
  assumes "mp_str s = Inr w" "strict_prefix p w" "p \<noteq> []"
  shows "\<exists>e. mp_read (Suc f) p = Inl e"
proof -
  have len: "strict_prefix q s \<Longrightarrow> length q < length s" for q
    by (rule prefix_length_less)
  consider (fixstr) "length s < 32" "w = byte_of (160 + length s) # s"
    | (str8) "32 \<le> length s" "length s < 256" "w = byte_of 217 # byte_of (length s) # s"
    | (str16) "256 \<le> length s" "length s < 65536"
        "w = byte_of 218 # byte_of (length s div 256) # byte_of (length s mod 256) # s"
    using assms by (auto simp: mp_str_def Let_def split: if_splits)
  then show ?thesis
  proof cases
    case fixstr
    with assms len show ?thesis by (auto simp: strict_prefix_Cons2 mp_read_str_def)
  next
    case str8
    with assms len show ?thesis
      by (auto simp: strict_prefix_Cons2 mp_read_str_def mp_byte_def)
  next
    case str16
    then have n: "256 * (length s div 256 mod 256) + length s mod 256 = length s"
      by (simp add: byte_pair)
    show ?thesis using str16 assms len
      by (auto simp: strict_prefix_Cons2 mp_read_str_def mp_word_def mp_byte_def n)
  qed
qed

lemma mp_loop_frames:
  assumes "list_all (\<lambda>m. json_ok (JObj m)) ms" "list_all2 (\<lambda>m w. encode_message m = Inr w) ms ws"
    and "mp_next p = None \<or> p = []"
  shows "mp_loop (concat ws @ p) = (ms, p)"
  using assms(2,1)
proof (induction rule: list_all2_induct)
  case Nil
  then show ?case using assms(3) by (subst mp_loop.simps) auto
next
  case (Cons m ms w ws)
  then have "w \<noteq> []" by (auto simp: encode_message_def mp_str_not_Nil)
  moreover have "mp_next (w @ concat ws @ p) = Some (m, concat ws @ p)"
    using Cons by (intro mp_next_message) auto
  ultimately show ?case using Cons by (subst mp_loop.simps) simp
qed

interpretation fridge_wire: wire_codec encode_message decode_messages mp_message_ok
proof
  fix m
  assume "mp_message_ok m"
  then show "\<exists>w. encode_message m = Inr w"
    by (simp add: mp_message_ok_def encode_message_def mp_str_ok_iff utf8_valid_dumps)
next
  fix ms ws p
  assume ms: "list_all mp_message_ok ms" "list_all2 (\<lambda>m w. encode_message m = Inr w) ms ws"
    and p: "p = [] \<or> (\<exists>m w. mp_message_ok m \<and> encode_message m = Inr w \<and> strict_prefix p w)"
  have "length p \<le> msgbuf_sanity_limit"
    using p by (auto simp: mp_message_ok_def encode_message_def const_defs
        dest!: prefix_length_less mp_str_length)
  moreover have "mp_next p = None \<or> p = []"
    using p mp_read_partial [of _ _ p "length p"]
    by (fastforce simp: encode_message_def mp_next_def split: sum.splits)
  moreover have "list_all (\<lambda>m. json_ok (JObj m)) ms"
    using ms(1) by (auto simp: list_all_iff mp_message_ok_def)
  ultimately show "decode_messages (concat ws @ p) = (ms, p)"
    using ms(2) by (simp add: decode_messages_def mp_loop_frames)
qed

section \<open>The washer family's format keeps the contract\<close>

definition len4_message_ok :: "message \<Rightarrow> bool" where
  "len4_message_ok m \<longleftrightarrow> json_ok (JObj m) \<and> length (dumps_compact (JObj m)) \<le> len4_max_frame"

lemma len4_short: "length bs < 4 \<Longrightarrow> decode_messages_len4 bs = ([], bs)"
  by (subst decode_messages_len4.simps) simp

lemma len4_skip:
  "4 \<le> length bs \<Longrightarrow> len4_max_frame < be_int (take 4 bs) \<Longrightarrow>
   decode_messages_len4 bs = decode_messages_len4 (tl bs)"
  by (subst decode_messages_len4.simps) simp

lemma len4_wait:
  "4 \<le> length bs \<Longrightarrow> be_int (take 4 bs) \<le> len4_max_frame \<Longrightarrow> length bs < 4 + be_int (take 4 bs) \<Longrightarrow>
   decode_messages_len4 bs = ([], bs)"
  by (subst decode_messages_len4.simps) simp

definition frame_messages :: "bytes \<Rightarrow> message list" where
  "frame_messages payload = (case loads_bytes payload of Some (JObj m) \<Rightarrow> [m] | _ \<Rightarrow> [])"

lemma len4_frame:
  "4 + be_int (take 4 bs) \<le> length bs \<Longrightarrow> be_int (take 4 bs) \<le> len4_max_frame \<Longrightarrow>
   decode_messages_len4 bs =
     apfst ((@) (frame_messages (take (be_int (take 4 bs)) (drop 4 bs))))
       (decode_messages_len4 (drop (4 + be_int (take 4 bs)) bs))"
  by (subst decode_messages_len4.simps)
    (auto simp: frame_messages_def prod_eq_iff split: option.splits json.splits)

lemma len4_message:
  assumes "len4_message_ok m" "encode_message_len4 m = Inr w"
  shows "decode_messages_len4 (w @ r) = apfst ((#) m) (decode_messages_len4 r)"
    and "strict_prefix p w \<Longrightarrow> decode_messages_len4 p = ([], p)"
proof -
  let ?p = "dumps_compact (JObj m)"
  have w: "w = be32 (length ?p) @ ?p" and len: "length ?p < 4294967296" "length ?p \<le> len4_max_frame"
    using assms by (auto simp: encode_message_len4_def len4_message_ok_def Let_def split: if_splits)
  have ok: "json_ok (JObj m)" using assms(1) by (simp add: len4_message_ok_def)
  have "frame_messages ?p = [m]" using ok by (simp add: frame_messages_def)
  then show "decode_messages_len4 (w @ r) = apfst ((#) m) (decode_messages_len4 r)"
    using len by (subst len4_frame) (auto simp: w)
  assume p: "strict_prefix p w"
  show "decode_messages_len4 p = ([], p)"
  proof (cases "length p < 4")
    case False
    from p obtain q where q: "w = p @ q" "q \<noteq> []" by (auto simp: strict_prefix_def prefix_def)
    have "take 4 p = take 4 w" using False q by simp
    also have "\<dots> = be32 (length ?p)" by (simp add: w)
    finally have "take 4 p = be32 (length ?p)" "length p < length w" using q by simp_all
    with len False show ?thesis by (intro len4_wait) (auto simp: w)
  qed (rule len4_short)
qed

interpretation washer_wire: wire_codec encode_message_len4 decode_messages_len4 len4_message_ok
proof
  fix m
  assume "len4_message_ok m"
  then show "\<exists>w. encode_message_len4 m = Inr w"
    by (simp add: len4_message_ok_def encode_message_len4_def const_defs Let_def)
next
  fix ms ws p
  assume ms: "list_all len4_message_ok ms" "list_all2 (\<lambda>m w. encode_message_len4 m = Inr w) ms ws"
    and p: "p = [] \<or> (\<exists>m w. len4_message_ok m \<and> encode_message_len4 m = Inr w \<and> strict_prefix p w)"
  have base: "decode_messages_len4 p = ([], p)"
    using p len4_message(2) by (auto simp: len4_short)
  from ms(2,1) show "decode_messages_len4 (concat ws @ p) = (ms, p)"
    by (induction rule: list_all2_induct) (auto simp: base len4_message(1))
qed

section \<open>Every stream of the washer family, garbage included\<close>

lemma len4_cases:
  obtains (short) "length bs < 4"
  | (skip) "4 \<le> length bs" "len4_max_frame < be_int (take 4 bs)"
  | (wait) "4 \<le> length bs" "be_int (take 4 bs) \<le> len4_max_frame" "length bs < 4 + be_int (take 4 bs)"
  | (frame) "4 \<le> length bs" "be_int (take 4 bs) \<le> len4_max_frame" "4 + be_int (take 4 bs) \<le> length bs"
  by linarith

lemma len4_resume:
  "decode_messages_len4 (a @ b) =
     (let (ms, rest) = decode_messages_len4 a in apfst ((@) ms) (decode_messages_len4 (rest @ b)))"
proof (induction a rule: length_induct)
  case (1 a)
  show ?case
  proof (cases a rule: len4_cases)
    case short
    then show ?thesis by (simp add: len4_short apfst_def map_prod_def prod_eq_iff)
  next
    case skip
    then have "length (tl a) < length a" by (cases a) auto
    with 1 have "decode_messages_len4 (tl a @ b) =
      (let (ms, rest) = decode_messages_len4 (tl a) in apfst ((@) ms) (decode_messages_len4 (rest @ b)))"
      by blast
    moreover have "decode_messages_len4 (a @ b) = decode_messages_len4 (tl a @ b)"
      using skip len4_skip [of "a @ b"] by (cases a) auto
    moreover have "decode_messages_len4 a = decode_messages_len4 (tl a)"
      using skip by (simp add: len4_skip)
    ultimately show ?thesis by simp
  next
    case wait
    then show ?thesis by (simp add: len4_wait apfst_def map_prod_def prod_eq_iff)
  next
    case frame
    let ?n = "be_int (take 4 a)"
    have "length (drop (4 + ?n) a) < length a" using frame(1) by simp
    with 1 have ih: "decode_messages_len4 (drop (4 + ?n) a @ b) =
      (let (ms, rest) = decode_messages_len4 (drop (4 + ?n) a)
       in apfst ((@) ms) (decode_messages_len4 (rest @ b)))"
      by blast
    have "decode_messages_len4 (a @ b) = apfst ((@) (frame_messages (take ?n (drop 4 a))))
            (decode_messages_len4 (drop (4 + ?n) a @ b))"
      using frame len4_frame [of "a @ b"] by simp
    with ih show ?thesis
      using len4_frame [OF frame(3,2)] by (simp add: Let_def split_beta prod_eq_iff)
  qed
qed

lemma len4_remainder_bound: "length (snd (decode_messages_len4 bs)) < 4 + len4_max_frame"
proof (induction bs rule: length_induct)
  case (1 bs)
  show ?case
  proof (cases bs rule: len4_cases)
    case short
    then show ?thesis by (simp add: len4_short)
  next
    case skip
    then have "length (tl bs) < length bs" by (cases bs) auto
    with 1 skip show ?thesis by (simp add: len4_skip)
  next
    case wait
    then show ?thesis by (simp add: len4_wait)
  next
    case frame
    then have "length (drop (4 + be_int (take 4 bs)) bs) < length bs" by simp
    with 1 have "length (snd (decode_messages_len4 (drop (4 + be_int (take 4 bs)) bs))) < 4 + len4_max_frame"
      by blast
    with len4_frame [OF frame(3,2)] show ?thesis by simp
  qed
qed

lemma be_int_4: "be_int [a, b, c, d] = 16777216 * code a + 65536 * code b + 256 * code c + code d"
  by (simp add: be_int_def)

lemma len4_resync:
  assumes "list_all (\<lambda>c. code c \<noteq> (0::nat)) g" "3 \<le> length s"
  shows "decode_messages_len4 (g @ s) = decode_messages_len4 s"
  using assms(1)
proof (induction g)
  case (Cons c g)
  have "3 \<le> length (g @ s)" using assms(2) by simp
  then obtain x y z r where "g @ s = x # y # z # r"
    unfolding numeral_3_eq_3 Suc_le_length_iff by blast
  then have "take 4 (c # g @ s) = [c, x, y, z]" by simp
  moreover have "0 < (code c :: nat)" using Cons.prems by simp
  ultimately have "len4_max_frame < be_int (take 4 ((c # g) @ s))"
    by (simp add: be_int_4 const_defs)
  moreover have "4 \<le> length ((c # g) @ s)" using assms(2) by simp
  ultimately have "decode_messages_len4 ((c # g) @ s) = decode_messages_len4 (g @ s)"
    using len4_skip [of "(c # g) @ s"] by simp
  with Cons show ?case by simp
qed simp

lemma len4_remainder_settled:
  "decode_messages_len4 bs = (ms, rest) \<Longrightarrow> decode_messages_len4 rest = ([], rest)"
  using len4_resume [of bs "[]"] by (simp add: Let_def apfst_def map_prod_def prod_eq_iff split_beta)

lemma reassemble_len4:
  "decode_messages_len4 buf = ([], buf) \<Longrightarrow>
   reassemble decode_messages_len4 buf cs = decode_messages_len4 (buf @ concat cs)"
proof (induction cs arbitrary: buf)
  case (Cons c cs)
  obtain ms rest where d: "decode_messages_len4 (buf @ c) = (ms, rest)" by fastforce
  then have "reassemble decode_messages_len4 rest cs = decode_messages_len4 (rest @ concat cs)"
    using len4_remainder_settled Cons.IH by blast
  with d show ?case using len4_resume [of "buf @ c" "concat cs"] by simp
qed simp

section \<open>The fridge's buffer is bounded\<close>

text \<open>
  When more bytes come behind what the reader has read, a value it had finished before the end is read again; one
  it had not, or had made up at the end, takes up at least all the bytes there were.
\<close>

lemma mp_read_str_more:
  "mp_read_str n bs = Inr (v, r) \<Longrightarrow> mp_read_str n (bs @ c) = Inr (v, r @ c)"
  "mp_read_str n bs = Inl e \<Longrightarrow> mp_read_str n (bs @ c) = Inr (v', r') \<Longrightarrow> length r' \<le> length c"
  by (auto simp: mp_read_str_def split: if_splits)

lemma mp_byte_more:
  "mp_byte bs = Inr (n, r) \<Longrightarrow> mp_byte (bs @ c) = Inr (n, r @ c)"
  "mp_byte bs = Inl e \<Longrightarrow> bs = []"
  by (auto simp: mp_byte_def split: list.splits)

lemma mp_word_more:
  "mp_word bs = Inr (n, r) \<Longrightarrow> mp_word (bs @ c) = Inr (n, r @ c)"
  "mp_word bs = Inl e \<Longrightarrow> length bs < 2"
  by (auto simp: mp_word_def mp_byte_def rbind_Inr_iff split: list.splits)

definition extends :: "(json \<times> bytes) res \<Rightarrow> (json \<times> bytes) res \<Rightarrow> bytes \<Rightarrow> bool" where
  "extends x y c \<longleftrightarrow> (case x of
      Inr (v, r) \<Rightarrow> if r \<noteq> [] then y = Inr (v, r @ c) else (\<forall>v' r'. y = Inr (v', r') \<longrightarrow> length r' \<le> length c)
    | Inl e \<Rightarrow> e = RecursionError \<or> (\<forall>v' r'. y = Inr (v', r') \<longrightarrow> length r' \<le> length c))"

lemma extendsI_short:
  "(\<And>v r. x \<noteq> Inr (v, r) \<or> r = []) \<Longrightarrow> (\<And>v' r'. y = Inr (v', r') \<Longrightarrow> length r' \<le> length c) \<Longrightarrow> extends x y c"
  by (auto simp: extends_def split: sum.splits)

lemma mp_read_more:
  "f \<le> f' \<Longrightarrow> extends (mp_read f bs) (mp_read f' (bs @ c)) c"
  "f \<le> f' \<Longrightarrow> extends (mp_read_map f n d bs) (mp_read_map f' n d (bs @ c)) c"
proof (induction f bs and f n d bs arbitrary: f' and f' rule: mp_read_mp_read_map.induct)
  case (1 bs)
  then show ?case by (simp add: extends_def)
next
  case (2 f bs)
  obtain f'' where f': "f' = Suc f''" "f \<le> f''" using "2.prems" by (cases f') auto
  show ?case
  proof (cases bs)
    case Nil
    then show ?thesis using mp_read_length(1) [of f' c]
      by (intro extendsI_short) (auto dest: order_trans)
  next
    case (Cons b r)
    have byte: "extends (rbind (mp_byte r) g) (rbind (mp_byte (r @ c)) g') c"
      if ge: "\<And>n r'. extends (g (n, r')) (g' (n, r' @ c)) c" and gl: "\<And>n r' v q. g' (n, r') = Inr (v, q) \<Longrightarrow> length q \<le> length r'" for g g'
    proof (cases "mp_byte r")
      case (Inl e)
      then have "r = []" by (rule mp_byte_more)
      with Inl gl show ?thesis
        by (intro extendsI_short) (fastforce simp: rbind_Inr_iff mp_byte_Inr_iff dest: le_SucI)+
    next
      case (Inr x)
      then obtain n q where x: "mp_byte r = Inr (n, q)" by (cases x) auto
      with ge show ?thesis using mp_byte_more(1) [OF x] by simp
    qed
    have word_short: "extends (rbind (mp_word r) g) (rbind (mp_word (r @ c)) g') c"
      if e: "mp_word r = Inl e" and gl: "\<And>n r' v q. g' (n, r') = Inr (v, q) \<Longrightarrow> length q \<le> length r'" for g g' e
    proof -
      have l: "length r < 2" using e by (rule mp_word_more)
      have "length q \<le> length c" if y: "rbind (mp_word (r @ c)) g' = Inr (v, q)" for v q
      proof -
        obtain n r' where n: "mp_word (r @ c) = Inr (n, r')" "g' (n, r') = Inr (v, q)"
          using y by (auto simp: rbind_Inr_iff)
        obtain a b where "r @ c = a # b # r'" using n(1) by (auto simp: mp_word_Inr_iff)
        then have "length (r @ c) = length (a # b # r')" by simp
        with gl [OF n(2)] l show ?thesis by simp
      qed
      with e show ?thesis by (intro extendsI_short) auto
    qed
    have word: "extends (rbind (mp_word r) g) (rbind (mp_word (r @ c)) g') c"
      if ge: "\<And>n r'. extends (g (n, r')) (g' (n, r' @ c)) c" and gl: "\<And>n r' v q. g' (n, r') = Inr (v, q) \<Longrightarrow> length q \<le> length r'" for g g'
    proof (cases "mp_word r")
      case (Inl e)
      then show ?thesis using gl by (rule word_short)
    next
      case (Inr x)
      then obtain n q where x: "mp_word r = Inr (n, q)" by (cases x) auto
      with ge show ?thesis using mp_word_more(1) [OF x] by simp
    qed
    have str: "extends (mp_read_str n r') (mp_read_str n (r' @ c)) c" for n r'
      using mp_read_str_more [of n r'] by (cases "mp_read_str n r'") (auto simp: extends_def)
    have flat: "extends (Inr (v, r')) (Inr (v, r' @ c)) c" "extends (Inl e) (Inl e') c" for v r' e e'
      by (auto simp: extends_def)
    let ?p = "code b :: nat"
    have ih: "128 \<le> ?p \<and> ?p \<le> 143 \<Longrightarrow> extends (mp_read_map f (?p - 128) [] r) (mp_read_map f'' (?p - 128) [] (r @ c)) c"
      "?p = 222 \<Longrightarrow> mp_word r = Inr (n, r') \<Longrightarrow> extends (mp_read_map f n [] r') (mp_read_map f'' n [] (r' @ c)) c" for n r'
      using "2.IH" [OF Cons refl] f'(2) by auto
    show ?thesis
    proof (cases "128 \<le> ?p \<and> ?p \<le> 143")
      case True
      then show ?thesis using ih(1) by (simp add: Cons f'(1))
    next
      case False
      show ?thesis
      proof (cases "?p = 222")
        case True
        show ?thesis
        proof (cases "mp_word r")
          case (Inl e)
          then show ?thesis
            using word_short [OF Inl, of "\<lambda>(n, r'). mp_read_map f'' n [] r'" "\<lambda>(n, r'). mp_read_map f n [] r'"] mp_read_length(2) True
            by (simp add: Cons f'(1))
        next
          case (Inr x)
          then obtain n q where "mp_word r = Inr (n, q)" by (cases x) auto
          then show ?thesis using ih(2) [OF True] mp_word_more(1) True by (simp add: Cons f'(1))
        qed
      next
        case 222: False
        show ?thesis
          using False 222 str byte [of "\<lambda>(n, r'). mp_read_str n r'" "\<lambda>(n, r'). mp_read_str n r'"]
            word [of "\<lambda>(n, r'). mp_read_str n r'" "\<lambda>(n, r'). mp_read_str n r'"]
            byte [of "\<lambda>(n, r'). Inr (JInt (int n), r')" "\<lambda>(n, r'). Inr (JInt (int n), r')"]
          by (auto simp: Cons f'(1) Let_def flat mp_read_str_shorter)
      qed
    qed
  qed
next
  case (3 f d bs)
  then show ?case by (auto simp: extends_def)
next
  case (4 f n d bs)
  show ?case
  proof (cases "\<exists>key r1. mp_read f bs = Inr (key, r1) \<and> r1 \<noteq> []")
    case False
    have "length r' \<le> length c" if y: "mp_read_map f' (Suc n) d (bs @ c) = Inr (v', r')" "mp_read f bs \<noteq> Inl RecursionError" for v' r'
    proof -
      obtain key r1 val r2 where k: "mp_read f' (bs @ c) = Inr (key, r1)" "mp_read f' r1 = Inr (val, r2)"
          "mp_read_map f' n (dict_set d (py_str key) val) r2 = Inr (v', r')"
        using y(1) by (auto simp: rbind_Inr_iff)
      have "length r1 \<le> length c"
        using "4.IH"(1) [OF "4.prems"] False k(1) y(2) by (auto simp: extends_def split: sum.splits)
      with mp_read_length(1) [OF k(2)] mp_read_length(2) [OF k(3)] show ?thesis by simp
    qed
    moreover have "mp_read_map f (Suc n) d bs \<noteq> Inr (v, r) \<or> r = []" for v r
      using False mp_read_length by (auto simp: rbind_Inr_iff) (metis length_0_conv le_zero_eq diff_0_eq_0 length_greater_0_conv)+
    ultimately show ?thesis by (cases "mp_read f bs = Inl RecursionError") (auto simp: extends_def split: sum.splits)
  next
    case True
    then obtain key r1 where k: "mp_read f bs = Inr (key, r1)" "r1 \<noteq> []" by blast
    then have k': "mp_read f' (bs @ c) = Inr (key, r1 @ c)" using "4.IH"(1) [OF "4.prems"] by (simp add: extends_def)
    let ?k = "py_str key"
    have x: "mp_read_map f (Suc n) d bs = rbind (mp_read f r1) (\<lambda>(val, r2). mp_read_map f n (dict_set d ?k val) r2)"
      and y: "mp_read_map f' (Suc n) d (bs @ c) =
        rbind (mp_read f' (r1 @ c)) (\<lambda>(val, r2). mp_read_map f' n (dict_set d ?k val) r2)"
      by (simp_all add: k(1) k')
    have val: "extends (mp_read f r1) (mp_read f' (r1 @ c)) c"
      using "4.IH"(2) [OF k(1) refl "4.prems"] .
    show ?thesis
    proof (cases "\<exists>val r2. mp_read f r1 = Inr (val, r2) \<and> r2 \<noteq> []")
      case True
      then obtain val r2 where v: "mp_read f r1 = Inr (val, r2)" "r2 \<noteq> []" by blast
      then have "mp_read f' (r1 @ c) = Inr (val, r2 @ c)" using val by (simp add: extends_def)
      then show ?thesis
        using "4.IH"(3) [OF k(1) refl v(1) refl "4.prems"] unfolding x y by (simp add: v(1))
    next
      case False
      show ?thesis
      proof (cases "mp_read f r1 = Inl RecursionError")
        case True
        then have "mp_read_map f (Suc n) d bs = Inl RecursionError" unfolding x by simp
        then show ?thesis by (simp only: extends_def) simp
      next
        case rec: False
        have "length r' \<le> length c" if z: "mp_read_map f' (Suc n) d (bs @ c) = Inr (v', r')" for v' r'
        proof -
          obtain val r2 where w: "mp_read f' (r1 @ c) = Inr (val, r2)"
              "mp_read_map f' n (dict_set d ?k val) r2 = Inr (v', r')"
            using z unfolding y by (auto simp: rbind_Inr_iff)
          have "length r2 \<le> length c"
            using val False w(1) rec by (auto simp: extends_def split: sum.splits)
          with mp_read_length(2) [OF w(2)] show ?thesis by simp
        qed
        moreover have "mp_read_map f (Suc n) d bs \<noteq> Inr (v, r) \<or> r = []" for v r
          using False mp_read_length(2) unfolding x by (fastforce simp: rbind_Inr_iff)
        ultimately show ?thesis by (intro extendsI_short)
      qed
    qed
  qed
qed


lemma mp_next_more:
  assumes "mp_next bs = None" "bs \<noteq> []" "mp_next (bs @ c) = Some (m, r)"
  shows "length r \<le> length c"
proof -
  let ?x = "mp_read (Suc (length bs)) bs" and ?y = "mp_read (Suc (length (bs @ c))) (bs @ c)"
  have e: "extends ?x ?y c" by (rule mp_read_more) simp
  have ne: "?x \<noteq> Inl RecursionError" by (rule mp_read_fuel_enough) simp
  obtain v where v: "?y = Inr (v, r)"
    using assms(3) by (auto simp: mp_next_def split: sum.splits json.splits option.splits)
  show ?thesis
  proof (cases "\<exists>w q. ?x = Inr (w, q) \<and> q \<noteq> []")
    case True
    then obtain w q where w: "?x = Inr (w, q)" "q \<noteq> []" by blast
    then have "?y = Inr (w, q @ c)" using e by (simp add: extends_def)
    then have "mp_next (bs @ c) = map_option (apsnd (\<lambda>q. q @ c)) (mp_next bs)"
      unfolding mp_next_def using w by (simp split: json.splits option.splits)
    with assms show ?thesis by simp
  next
    case False
    with e ne v show ?thesis by (auto simp: extends_def split: sum.splits)
  qed
qed

definition mp_settled :: "bytes \<Rightarrow> bool" where
  "mp_settled buf \<longleftrightarrow> buf = [] \<or> mp_next buf = None"

lemma mp_loop_settled: "mp_settled (snd (mp_loop bs))"
  by (induction bs rule: mp_loop.induct)
    (subst mp_loop.simps, auto simp: mp_settled_def split: option.splits)

lemma mp_loop_length: "length (snd (mp_loop bs)) \<le> length bs"
proof (induction bs rule: mp_loop.induct)
  case (1 bs)
  then show ?case
    using mp_next_shorter [of bs]
    by (subst mp_loop.simps) (fastforce split: option.splits)
qed

text \<open>
  What the fridge's decoder keeps: at most the sanity limit, or one chunk when it delivered something.
\<close>

lemma mp_remainder_settled: "mp_settled (snd (decode_messages buf))"
  using mp_loop_settled [of buf] by (simp add: decode_messages_def mp_settled_def split_beta)

lemma mp_remainder_bound:
  assumes "mp_settled buf" "length c \<le> msgbuf_sanity_limit"
  shows "length (snd (decode_messages (buf @ c))) \<le> msgbuf_sanity_limit"
proof (cases "fst (mp_loop (buf @ c)) = []")
  case True
  then show ?thesis by (simp add: decode_messages_def split_beta)
next
  case False
  then obtain m r where m: "buf @ c \<noteq> []" "mp_next (buf @ c) = Some (m, r)" "snd (mp_loop (buf @ c)) = snd (mp_loop r)"
    by (cases "mp_next (buf @ c)") (auto simp: mp_loop.simps [of "buf @ c"] split: if_splits)
  have "length r \<le> length c"
  proof (cases "buf = []")
    case True
    with m mp_next_shorter [of c m r] show ?thesis by simp
  next
    case False
    with assms(1) m(2) show ?thesis by (intro mp_next_more [of buf c m r]) (auto simp: mp_settled_def)
  qed
  with assms(2) m(3) mp_loop_length [of r] show ?thesis by (simp add: decode_messages_def split_beta)
qed

section \<open>Properties\<close>

definition sample_message :: message where
  "sample_message = make_message (JStr ''d1'') (JStr ''n-1'') [(''Cmd'', JStr ''Alive'')]"

lemma sample_message_ok: "mp_message_ok sample_message" "len4_message_ok sample_message"
proof -
  have "length (dumps_compact (JObj sample_message)) < 200" by code_simp
  moreover have "json_ok (JObj sample_message)"
    by (simp add: sample_message_def make_message_def)
  ultimately show "mp_message_ok sample_message" "len4_message_ok sample_message"
    by (simp_all add: mp_message_ok_def len4_message_ok_def const_defs)
qed

text \<open>
  The fridge's stream: whatever chunks TCP cuts the encoded messages into, the receive loop
  over \<open>decode_messages\<close> delivers exactly the messages sent, in order, and keeps nothing.
\<close>

lemma fridge_stream_delivered:
  assumes "list_all mp_message_ok ms" "list_all2 (\<lambda>m w. encode_message m = Inr w) ms ws"
    and "concat cs = concat ws"
  shows "reassemble decode_messages [] cs = (ms, [])"
  using fridge_wire.reassemble_stream [OF assms(1,2), of "[]" "[]" cs] assms(3) by simp

lemma fridge_stream_delivered_witness:
  "\<exists>w. encode_message sample_message = Inr w \<and>
     reassemble decode_messages [] [take 9 w, drop 9 w @ take 1 w, drop 1 w]
       = ([sample_message, sample_message], [])"
proof -
  obtain w where w: "encode_message sample_message = Inr w"
    using fridge_wire.enc_ok sample_message_ok(1) by blast
  then have "reassemble decode_messages [] [take 9 w, drop 9 w @ take 1 w, drop 1 w]
       = ([sample_message, sample_message], [])"
    using fridge_stream_delivered [of "[sample_message, sample_message]" "[w, w]"] sample_message_ok(1)
    by (simp del: reassemble.simps)
  with w show ?thesis by blast
qed

text \<open>
  C10. The washer family's stream: the same for \<open>decode_messages_len4\<close> and frames up to the
  sanity bound.
\<close>

theorem washer_stream_delivered:
  assumes "list_all len4_message_ok ms" "list_all2 (\<lambda>m w. encode_message_len4 m = Inr w) ms ws"
    and "concat cs = concat ws"
  shows "reassemble decode_messages_len4 [] cs = (ms, [])"
  using washer_wire.reassemble_stream [OF assms(1,2), of "[]" "[]" cs] assms(3) by simp

theorem washer_stream_delivered_witness:
  "\<exists>w. encode_message_len4 sample_message = Inr w \<and>
     reassemble decode_messages_len4 [] [take 2 w, drop 2 w] = ([sample_message], [])"
proof -
  obtain w where w: "encode_message_len4 sample_message = Inr w"
    using washer_wire.enc_ok sample_message_ok(2) by blast
  then have "reassemble decode_messages_len4 [] [take 2 w, drop 2 w] = ([sample_message], [])"
    using washer_stream_delivered [of "[sample_message]" "[w]"] sample_message_ok(2)
    by (simp del: reassemble.simps)
  with w show ?thesis by blast
qed

text \<open>
  For any byte stream whatever, garbage included, the messages the washer family's receive
  loop delivers and what it keeps do not depend on how the stream was cut into chunks.
\<close>

lemma len4_chunking_irrelevant:
  "reassemble decode_messages_len4 [] cs = decode_messages_len4 (concat cs)"
  using reassemble_len4 [of "[]" cs] by (simp add: len4_short)

text \<open>
  A length the garbage seems to declare is waited for, if it is not absurd: up to a maximal frame of what
  follows is swallowed with it.
\<close>

lemma len4_zero_garbage_waits:
  assumes "length s < 1048575"
  shows "decode_messages_len4 ([byte_of 0, byte_of 15, byte_of 255, byte_of 255] @ s) =
    ([], [byte_of 0, byte_of 15, byte_of 255, byte_of 255] @ s)"
  using assms by (intro len4_wait) (simp_all add: be_int_4 const_defs)

text \<open>
  C11. What the washer family's decoder keeps for later is always shorter than one maximal frame, and
  behind a run of garbage bytes none of which is zero it delivers the frames that follow. (Garbage with
  a zero byte in it may be taken for the length of a frame: \<open>len4_zero_garbage_waits\<close>.)
\<close>

theorem len4_never_wedges:
  "length (snd (decode_messages_len4 bs)) < 4 + len4_max_frame \<and>
   (list_all (\<lambda>c. code c \<noteq> (0::nat)) g \<longrightarrow> 3 \<le> length s \<longrightarrow>
     decode_messages_len4 (g @ s) = decode_messages_len4 s)"
  by (simp add: len4_remainder_bound len4_resync)

theorem len4_never_wedges_witness:
  "\<exists>w. encode_message_len4 sample_message = Inr w \<and>
     decode_messages_len4 (''GET / HTTP'' @ w) = ([sample_message], [])"
proof -
  obtain w where w: "encode_message_len4 sample_message = Inr w"
    using washer_wire.enc_ok sample_message_ok(2) by blast
  have d: "decode_messages_len4 w = ([sample_message], [])"
    using washer_wire.dec_stream [of "[sample_message]" "[w]" "[]"] w sample_message_ok(2) by simp
  have "3 \<le> length w" using w by (auto simp: encode_message_len4_def Let_def split: if_splits)
  moreover have "list_all (\<lambda>c. code c \<noteq> (0::nat)) ''GET / HTTP''" by simp
  ultimately have "decode_messages_len4 (''GET / HTTP'' @ w) = decode_messages_len4 w"
    using len4_never_wedges [of "[]" "''GET / HTTP''" w] by blast
  with w d show ?thesis by auto
qed

text \<open>
  What \<open>_mp_encode\<close> writes for a value with distinct keys and integers below 256, the
  reader reads back, and stops where the value ended.
\<close>

lemma mp_roundtrip:
  assumes "mp_encode v = Inr w" "mp_ok v"
  shows "mp_read (Suc (length (w @ r))) (w @ r) = Inr (v, r)"
  by (rule mp_read_mp_encode(1) [OF assms]) simp

lemma mp_roundtrip_witness:
  "\<exists>w. mp_encode (JObj [(''a'', JInt 200), (''b'', JObj [(''c'', JBool True)])]) = Inr w \<and>
     mp_read (Suc (length w)) w = Inr (JObj [(''a'', JInt 200), (''b'', JObj [(''c'', JBool True)])], [])"
proof -
  let ?v = "JObj [(''a'', JInt 200), (''b'', JObj [(''c'', JBool True)])]"
  have "case mp_encode ?v of Inl _ \<Rightarrow> False | Inr _ \<Rightarrow> True" by code_simp
  then obtain w where w: "mp_encode ?v = Inr w" by (cases "mp_encode ?v") auto
  have "mp_ok ?v" by simp
  with w have "mp_read (Suc (length (w @ []))) (w @ []) = Inr (?v, [])" by (rule mp_roundtrip)
  with w show ?thesis by auto
qed

section \<open>What the reader cannot read\<close>

lemma mp_int_unreadable:
  assumes "256 \<le> n" "n < 65536"
  shows "\<exists>w. mp_encode (JInt n) = Inr w \<and> mp_read (Suc (length (w @ r))) (w @ r) = Inl ValueError"
  using assms by (simp add: mp_int_def)





end
