(* ===== verification/WmEnvelope.thy ===== *)
theory WmEnvelope
  imports Codec PyValue
begin

text \<open>
  \<open>server/models/wm_envelope.py\<close> and \<open>server/models/washer_wtwn3.py\<close>: the diagmon envelope
  (base64 around XML around base64) and the washer's reading of the bytes. The XML parser
  (expat behind \<open>ElementTree\<close>) is the argument \<open>parse_xml\<close> of the definitions; the tree it
  returns and the searches in it are modelled.
\<close>

section \<open>XML trees\<close>

datatype xml = Elem (xml_tag: str) (xml_text: "str option") (xml_children: "xml list")

type_synonym xml_parser = "str \<Rightarrow> xml res"

definition text_or_empty :: "xml \<Rightarrow> str" where
  "text_or_empty e = (case xml_text e of None \<Rightarrow> [] | Some t \<Rightarrow> t)"

text \<open>\<open>(root.findtext(tag) or "").strip()\<close>: the first child with the tag.\<close>

definition findtext :: "xml \<Rightarrow> str \<Rightarrow> str option" where
  "findtext root tag =
     map_option text_or_empty (find (\<lambda>c. xml_tag c = tag) (xml_children root))"

definition stripped_text :: "xml \<Rightarrow> str \<Rightarrow> str" where
  "stripped_text root tag = py_strip (case findtext root tag of None \<Rightarrow> [] | Some t \<Rightarrow> t)"

text \<open>\<open>root.find(".//tag")\<close>: the first descendant in document order.\<close>

fun doc_order :: "xml \<Rightarrow> xml list"
  and doc_orders :: "xml list \<Rightarrow> xml list" where
  "doc_order (Elem t x cs) = Elem t x cs # doc_orders cs"
| "doc_orders [] = []"
| "doc_orders (c # cs) = doc_order c @ doc_orders cs"

definition find_desc :: "xml \<Rightarrow> str \<Rightarrow> xml option" where
  "find_desc root tag = find (\<lambda>e. xml_tag e = tag) (doc_orders (xml_children root))"

text \<open>\<open>if el is not None and el.text and el.text.strip()\<close>: the text, when all three hold.\<close>

definition found_text :: "xml \<Rightarrow> str \<Rightarrow> str option" where
  "found_text root tag =
     Option.bind (find_desc root tag) (\<lambda>el.
     Option.bind (xml_text el) (\<lambda>t. if py_strip t = [] then None else Some t))"

section \<open>The envelope\<close>

record env_field =
  f_offset :: nat
  f_name :: str
  f_confidence :: str
  f_note :: str

definition binary_fields :: "str list" where
  [const_defs]: "binary_fields = [''monData'', ''diagData'', ''option'']"

definition text_fields :: "str list" where
  [const_defs]: "text_fields = [''eventType'', ''event'', ''course'', ''power'', ''energyWater'',
     ''useDate'', ''dlCourse'', ''count'', ''maxCount'']"

definition strip_b64decode :: "str \<Rightarrow> bytes res" where
  "strip_b64decode s = res_of_option ValueError (b64decode (py_strip s))"

definition env_decode_mondata :: "bytes \<Rightarrow> env_field list \<Rightarrow> jdict" where
  "env_decode_mondata b fs =
     foldl (\<lambda>out f. if f_offset f < length b then dict_set out (f_name f) (JInt (int (code (b ! f_offset f))))
                    else out)
       [(''raw'', JStr (to_hex b)), (''len'', JInt (int (length b)))] fs"

definition add_text_fields :: "xml \<Rightarrow> jdict \<Rightarrow> jdict" where
  "add_text_fields root result =
     foldl (\<lambda>out tag. case found_text root tag of None \<Rightarrow> out
                      | Some t \<Rightarrow> dict_set out tag (JStr (py_strip t))) result text_fields"

fun add_binary_fields ::
  "env_field list \<Rightarrow> env_field list \<Rightarrow> xml \<Rightarrow> str list \<Rightarrow> jdict \<Rightarrow> jdict res" where
  "add_binary_fields mfs dfs root [] result = Inr result"
| "add_binary_fields mfs dfs root (bname # rest) result =
     (case found_text root bname of
        None \<Rightarrow> add_binary_fields mfs dfs root rest result
      | Some t \<Rightarrow> rbind (strip_b64decode t) (\<lambda>raw.
          let fs = (if bname = ''monData'' \<or> bname = ''option'' then mfs else dfs) in
          add_binary_fields mfs dfs root rest
            (dict_set result bname (JObj (env_decode_mondata raw fs)))))"

definition env_decode_payload ::
  "xml_parser \<Rightarrow> str \<Rightarrow> str \<Rightarrow> env_field list \<Rightarrow> env_field list \<Rightarrow> jdict res" where
  "env_decode_payload parse_xml diag_type data_b64 mfs dfs =
     rbind (strip_b64decode data_b64) (\<lambda>raw.
       let inner = utf8_replace raw in
       (case parse_xml inner of
          Inl e \<Rightarrow>
            if e = ParseError then
              Inr [(''diagMonType'', JStr diag_type), (''raw_text'', JStr inner)]
            else Inl e
        | Inr root \<Rightarrow>
            add_binary_fields mfs dfs root binary_fields
              (add_text_fields root [(''diagMonType'', JStr diag_type)])))"

definition env_decode_report ::
  "xml_parser \<Rightarrow> str \<Rightarrow> env_field list \<Rightarrow> env_field list \<Rightarrow> jdict list res" where
  "env_decode_report parse_xml report_xml mfs dfs =
     rbind (parse_xml report_xml) (\<lambda>root.
       let diag_type = stripped_text root ''diagMonType'';
           data = stripped_text root ''diagMonData'' in
       if diag_type = [] \<or> data = [] then Inr []
       else rbind (env_decode_payload parse_xml diag_type data mfs dfs) (\<lambda>p. Inr [p]))"

section \<open>The washer\<close>

unbundle bit_operations_syntax

definition opt1_bits :: "(str \<times> int) list" where
  [const_defs]: "opt1_bits = [(''opt_turbowash'', 0x01), (''opt_crease_care'', 0x02),
     (''opt_medic_rinse'', 0x10), (''opt_pre_wash'', 0x40), (''opt_steam'', 0x80)]"

definition opt2_bits :: "(str \<times> int) list" where
  [const_defs]: "opt2_bits = [(''opt_remote_start'', 0x02), (''opt_door_lock'', 0x40),
     (''opt_child_lock'', 0x80)]"

definition set_flags :: "int \<Rightarrow> (str \<times> int) list \<Rightarrow> jdict \<Rightarrow> jdict" where
  "set_flags v bits d =
     foldl (\<lambda>d (n, bm). dict_set d n (JStr (if v AND bm \<noteq> 0 then ''on'' else ''off''))) d bits"

definition enrich_source :: "str \<Rightarrow> (str \<times> int) list \<Rightarrow> jdict \<Rightarrow> jdict" where
  "enrich_source source bits d =
     (case py_int (py_str (get_or d source JNull)) of None \<Rightarrow> d | Some v \<Rightarrow> set_flags v bits d)"

definition enrich_decoded :: "jdict \<Rightarrow> jdict" where
  "enrich_decoded d = enrich_source ''Option2'' opt2_bits (enrich_source ''Option1'' opt1_bits d)"

definition washer_mondata_fields :: "env_field list" where
  [const_defs]: "washer_mondata_fields =
     [\<lparr>f_offset = 0, f_name = ''state_byte'', f_confidence = ''medium'',
       f_note = ''progresses during cycle (6->7->8->10), 0x00 idle''\<rparr>,
      \<lparr>f_offset = 5, f_name = ''course'', f_confidence = ''high'',
       f_note = ''wash program id (== energyMonInfo <course>)''\<rparr>,
      \<lparr>f_offset = 18, f_name = ''cycle_active'', f_confidence = ''high'',
       f_note = ''0x01 while a cycle is active, 0x02 once idle''\<rparr>,
      \<lparr>f_offset = 19, f_name = ''phase_step'', f_confidence = ''medium'',
       f_note = ''monotonic through the cycle (3->6->7->8->10)''\<rparr>]"

definition washer_diagdata_fields :: "env_field list" where
  [const_defs]: "washer_diagdata_fields =
     [\<lparr>f_offset = 51, f_name = ''course'', f_confidence = ''high'',
       f_note = ''cycle program id; == energyMonInfo <course> on both captured cycles (7 and 1); ''
         @ ''verified on WTWN3 only: other type-201 models inherit this layout unverified ''
         @ ''via the registry'' @ [CHR 0x27] @ ''s type fallback''\<rparr>]"

definition cycle_active_value :: "json \<Rightarrow> json" where
  "cycle_active_value v =
     (if v = JInt 1 then JBool True else if v = JInt 2 then JBool False else v)"

definition apply_washer_read :: "str \<Rightarrow> jdict \<Rightarrow> jdict" where
  "apply_washer_read key payload = (case dict_get payload key of
      Some (JObj node) \<Rightarrow>
        (case dict_get node ''cycle_active'' of
           None \<Rightarrow> payload
         | Some v \<Rightarrow> dict_set payload key (JObj (dict_set node ''cycle_active'' (cycle_active_value v))))
    | _ \<Rightarrow> payload)"

definition apply_washer_reads :: "jdict \<Rightarrow> jdict" where
  "apply_washer_reads payload = apply_washer_read ''option'' (apply_washer_read ''monData'' payload)"

definition washer_decode_payload :: "xml_parser \<Rightarrow> str \<Rightarrow> str \<Rightarrow> jdict res" where
  "washer_decode_payload parse_xml diag_type data_b64 =
     rbind (env_decode_payload parse_xml diag_type data_b64 washer_mondata_fields washer_diagdata_fields)
       (\<lambda>p. Inr (apply_washer_reads p))"

definition washer_decode_report :: "xml_parser \<Rightarrow> str \<Rightarrow> jdict list res" where
  "washer_decode_report parse_xml report_xml =
     rbind (env_decode_report parse_xml report_xml washer_mondata_fields washer_diagdata_fields)
       (\<lambda>ps. Inr (map apply_washer_reads ps))"

section \<open>What the envelope gives\<close>

lemma dict_set_fold_other:
  "k \<notin> f_name ` set fs \<Longrightarrow>
   map_of (foldl (\<lambda>out f. if f_offset f < length b then dict_set out (f_name f) (g f) else out) d fs) k
     = map_of d k"
  by (induction fs arbitrary: d) auto

lemma env_mondata_raw:
  assumes "''raw'' \<notin> f_name ` set fs"
  shows "map_of (env_decode_mondata b fs) ''raw'' = Some (JStr (to_hex b))"
  unfolding env_decode_mondata_def by (subst dict_set_fold_other) (use assms in auto)

lemma fold_field:
  "distinct (map f_name fs) \<Longrightarrow> f \<in> set fs \<Longrightarrow> f_offset f < length b \<Longrightarrow>
   map_of (foldl (\<lambda>out f. if f_offset f < length b then dict_set out (f_name f) (g f) else out) d fs)
     (f_name f) = Some (g f)"
proof (induction fs arbitrary: d)
  case (Cons x fs)
  show ?case
  proof (cases "f = x")
    case True
    with Cons.prems have "f_name f \<notin> f_name ` set fs" by auto
    with True Cons.prems show ?thesis by (simp add: dict_set_fold_other)
  next
    case False
    with Cons show ?thesis by simp
  qed
qed simp

lemma env_mondata_field:
  "distinct (map f_name fs) \<Longrightarrow> f \<in> set fs \<Longrightarrow> f_offset f < length b \<Longrightarrow>
   map_of (env_decode_mondata b fs) (f_name f) = Some (JInt (int (code (b ! f_offset f))))"
  unfolding env_decode_mondata_def by (rule fold_field)

lemma b64_char_not_space [simp]: "n < 64 \<Longrightarrow> \<not> is_space (b64_char n)"
  by (auto simp: b64_char_def is_space_def)

lemma b64encode_no_space: "c \<in> set (b64encode bs) \<Longrightarrow> \<not> is_space c"
  by (induction bs rule: b64encode.induct) (auto simp: is_space_def [of "CHR ''=''"])

lemma b64encode_not_Nil [simp]: "b64encode bs = [] \<longleftrightarrow> bs = []"
  by (cases bs rule: b64encode.cases) simp_all

lemma strip_b64encode [simp]: "py_strip (b64encode bs) = b64encode bs"
  by (rule py_strip_id) (metis b64encode_no_space hd_in_set last_in_set)

lemma strip_b64decode_encode [simp]: "strip_b64decode (b64encode bs) = Inr bs"
  by (simp add: strip_b64decode_def)

lemma add_binary_other:
  "add_binary_fields mfs dfs root bs d = Inr p \<Longrightarrow> k \<notin> set bs \<Longrightarrow> map_of p k = map_of d k"
  by (induction mfs dfs root bs d rule: add_binary_fields.induct)
    (auto simp: rbind_Inr_iff Let_def split: option.splits)

lemma add_binary_found:
  "add_binary_fields mfs dfs root bs d = Inr p \<Longrightarrow> distinct bs \<Longrightarrow> k \<in> set bs \<Longrightarrow>
   found_text root k = Some (b64encode blob) \<Longrightarrow>
   map_of p k = Some (JObj (env_decode_mondata blob (if k = ''monData'' \<or> k = ''option'' then mfs else dfs)))"
proof (induction mfs dfs root bs d rule: add_binary_fields.induct)
  case (2 mfs dfs root bname rest result)
  show ?case
  proof (cases "k = bname")
    case True
    with 2 obtain d' where "add_binary_fields mfs dfs root rest d' = Inr p" "k \<notin> set rest"
      "d' = dict_set result k
        (JObj (env_decode_mondata blob (if k = ''monData'' \<or> k = ''option'' then mfs else dfs)))"
      by (auto simp: Let_def)
    then show ?thesis by (simp add: add_binary_other)
  next
    case False
    with 2 show ?thesis by (auto simp: rbind_Inr_iff split: option.splits)
  qed
qed simp

lemma fold_flags_other:
  "k \<notin> fst ` set bits \<Longrightarrow> map_of (set_flags v bits d) k = map_of d k"
  unfolding set_flags_def by (induction bits arbitrary: d) auto

lemma set_flags_get:
  "distinct (map fst bits) \<Longrightarrow> (n, bm) \<in> set bits \<Longrightarrow>
   map_of (set_flags v bits d) n = Some (JStr (if v AND bm \<noteq> 0 then ''on'' else ''off''))"
proof (induction bits arbitrary: d)
  case (Cons b bits)
  show ?case
  proof (cases "b = (n, bm)")
    case True
    with Cons.prems have "n \<notin> fst ` set bits" by auto
    with True fold_flags_other [of n bits v] show ?thesis by (simp add: set_flags_def)
  next
    case False
    with Cons show ?thesis by (cases b) (auto simp: set_flags_def)
  qed
qed simp

lemma enrich_source_other:
  "k \<notin> fst ` set bits \<Longrightarrow> map_of (enrich_source s bits d) k = map_of d k"
  by (auto simp: enrich_source_def fold_flags_other split: option.splits)

lemma enrich_source_flag:
  "distinct (map fst bits) \<Longrightarrow> (n, bm) \<in> set bits \<Longrightarrow> py_int (py_str (get_or d s JNull)) = Some v \<Longrightarrow>
   map_of (enrich_source s bits d) n = Some (JStr (if v AND bm \<noteq> 0 then ''on'' else ''off''))"
  by (simp add: enrich_source_def set_flags_get)

lemma get_or_cong: "map_of d k = map_of e k \<Longrightarrow> get_or d k v = get_or e k v"
  by (simp add: get_or_def)

section \<open>Properties\<close>

text \<open>
  The post-decode hook of the washer: when the model decodes \<open>Option1\<close> and \<open>Option2\<close> to
  numbers, every option flag is \<open>on\<close> exactly when its bit is set, and nothing else changes.
\<close>

lemma option_flags:
  assumes "map_of d ''Option1'' = Some (JStr (int_str v1))" "map_of d ''Option2'' = Some (JStr (int_str v2))"
  shows "(\<forall>(n, bm) \<in> set opt1_bits. map_of (enrich_decoded d) n
            = Some (JStr (if v1 AND bm \<noteq> 0 then ''on'' else ''off''))) \<and>
         (\<forall>(n, bm) \<in> set opt2_bits. map_of (enrich_decoded d) n
            = Some (JStr (if v2 AND bm \<noteq> 0 then ''on'' else ''off''))) \<and>
         (\<forall>k. k \<notin> fst ` set (opt1_bits @ opt2_bits) \<longrightarrow> map_of (enrich_decoded d) k = map_of d k)"
proof -
  let ?d1 = "enrich_source ''Option1'' opt1_bits d"
  have dist: "distinct (map fst opt1_bits)" "distinct (map fst opt2_bits)"
    and disj: "fst ` set opt1_bits \<inter> fst ` set opt2_bits = {}"
    and no2: "''Option2'' \<notin> fst ` set opt1_bits"
    by (auto simp: opt1_bits_def opt2_bits_def)
  have v1: "py_int (py_str (get_or d ''Option1'' JNull)) = Some v1"
    using assms(1) by (simp add: get_or_def)
  have "map_of ?d1 ''Option2'' = map_of d ''Option2''" using no2 by (rule enrich_source_other)
  then have v2: "py_int (py_str (get_or ?d1 ''Option2'' JNull)) = Some v2"
    using assms(2) by (simp add: get_or_def)
  have 1: "map_of (enrich_decoded d) n = Some (JStr (if v1 AND bm \<noteq> 0 then ''on'' else ''off''))"
    if m: "(n, bm) \<in> set opt1_bits" for n bm
  proof -
    have "n \<notin> fst ` set opt2_bits" using disj m by force
    then show ?thesis
      using enrich_source_flag [OF dist(1) m v1] by (simp add: enrich_decoded_def enrich_source_other)
  qed
  have 2: "map_of (enrich_decoded d) n = Some (JStr (if v2 AND bm \<noteq> 0 then ''on'' else ''off''))"
    if "(n, bm) \<in> set opt2_bits" for n bm
    unfolding enrich_decoded_def using dist(2) that v2 by (rule enrich_source_flag)
  have 3: "map_of (enrich_decoded d) k = map_of d k" if "k \<notin> fst ` set (opt1_bits @ opt2_bits)" for k
    using that by (simp add: enrich_decoded_def enrich_source_other image_Un)
  from 1 2 3 show ?thesis by blast
qed

lemma option_flags_witness:
  "map_of (enrich_decoded [(''Option1'', JStr ''0''), (''Option2'', JStr ''64'')]) ''opt_door_lock''
     = Some (JStr ''on'')"
proof -
  have s: "int_str 0 = ''0''" "int_str 64 = ''64''" by code_simp+
  have "(''opt_door_lock'', 0x40) \<in> set opt2_bits" by (simp add: opt2_bits_def)
  then show ?thesis
    using option_flags [of "[(''Option1'', JStr ''0''), (''Option2'', JStr ''64'')]" 0 64]
    by (auto simp: s)
qed

text \<open>
  The double decoding loses nothing: when the report's XML carries \<open>diagMonData\<close> as base64 of
  an XML text whose \<open>monData\<close> is base64 of a blob, the payload's \<open>monData.raw\<close> is the blob in
  hex, from which \<open>bytes.fromhex\<close> gives it back, and the confirmed bytes carry their names.
\<close>

lemma washer_report_recovers_blob:
  assumes "parse_xml report = Inr root" "stripped_text root ''diagMonType'' = t" "t \<noteq> []"
    and "stripped_text root ''diagMonData'' = b64encode inner" "inner \<noteq> []" "utf8_valid False inner"
    and "parse_xml inner = Inr iroot" "found_text iroot ''monData'' = Some (b64encode blob)"
    and "env_decode_report parse_xml report washer_mondata_fields washer_diagdata_fields = Inr ps"
  shows "\<exists>p node. ps = [p] \<and> map_of p ''monData'' = Some (JObj node) \<and>
     (\<exists>h. map_of node ''raw'' = Some (JStr h) \<and> from_hex h = Some blob) \<and>
     (\<forall>f \<in> set washer_mondata_fields. f_offset f < length blob \<longrightarrow>
        map_of node (f_name f) = Some (JInt (int (code (blob ! f_offset f)))))"
proof -
  have inner: "utf8_replace inner = inner" using assms(6) by (rule utf8_replace_valid)
  obtain p where p: "ps = [p]" "env_decode_payload parse_xml t (b64encode inner)
      washer_mondata_fields washer_diagdata_fields = Inr p"
    using assms by (auto simp: env_decode_report_def Let_def rbind_Inr_iff)
  then have "add_binary_fields washer_mondata_fields washer_diagdata_fields iroot binary_fields
      (add_text_fields iroot [(''diagMonType'', JStr t)]) = Inr p"
    using assms(7) inner by (simp add: env_decode_payload_def)
  from add_binary_found [OF this _ _ assms(8)]
  have node: "map_of p ''monData'' = Some (JObj (env_decode_mondata blob washer_mondata_fields))"
    by (simp add: binary_fields_def)
  have "map_of (env_decode_mondata blob washer_mondata_fields) ''raw'' = Some (JStr (to_hex blob))"
    by (rule env_mondata_raw) (simp add: washer_mondata_fields_def)
  moreover have "distinct (map f_name washer_mondata_fields)" by (simp add: washer_mondata_fields_def)
  ultimately show ?thesis
    using p(1) node env_mondata_field [of washer_mondata_fields] by auto
qed

definition sample_inner :: bytes where
  "sample_inner = ''<x><monData>BgA=</monData></x>''"

definition sample_root :: xml where
  "sample_root = Elem ''Report'' None
     [Elem ''devId'' (Some ''dev-1'') [], Elem ''modelName'' (Some ''WTWN3'') [], Elem ''devType'' (Some ''201'') [],
      Elem ''diagMonType'' (Some ''WmDiag'') [], Elem ''diagMonData'' (Some (b64encode sample_inner)) []]"

definition sample_parser :: xml_parser where
  "sample_parser s =
     (if s = ''<Report/>'' then Inr sample_root
      else if s = sample_inner then Inr (Elem ''x'' None [Elem ''monData'' (Some ''BgA='') []])
      else Inl ParseError)"

lemma washer_report_recovers_blob_witness:
  "\<exists>p node h. env_decode_report sample_parser ''<Report/>'' washer_mondata_fields washer_diagdata_fields
       = Inr [p] \<and> map_of p ''monData'' = Some (JObj node) \<and>
     map_of node ''raw'' = Some (JStr h) \<and> from_hex h = Some [byte_of 6, byte_of 0] \<and>
     map_of node ''state_byte'' = Some (JInt 6)"
proof -
  let ?iroot = "Elem ''x'' None [Elem ''monData'' (Some ''BgA='') []]"
  let ?r = "env_decode_report sample_parser ''<Report/>'' washer_mondata_fields washer_diagdata_fields"
  have "case ?r of Inl _ \<Rightarrow> False | Inr ps \<Rightarrow> True" by code_simp
  then obtain ps where ps: "?r = Inr ps" by (cases ?r) auto
  have "\<exists>p node. ps = [p] \<and> map_of p ''monData'' = Some (JObj node) \<and>
     (\<exists>h. map_of node ''raw'' = Some (JStr h) \<and> from_hex h = Some [byte_of 6, byte_of 0]) \<and>
     (\<forall>f \<in> set washer_mondata_fields. f_offset f < length [byte_of 6, byte_of 0] \<longrightarrow>
        map_of node (f_name f) = Some (JInt (int (code ([byte_of 6, byte_of 0] ! f_offset f)))))"
  proof (rule washer_report_recovers_blob [OF _ _ _ _ _ _ _ _ ps])
    show "sample_parser ''<Report/>'' = Inr sample_root" by (simp add: sample_parser_def)
    show "stripped_text sample_root ''diagMonType'' = ''WmDiag''" by code_simp
    show "stripped_text sample_root ''diagMonData'' = b64encode sample_inner" by code_simp
    show "sample_parser sample_inner = Inr ?iroot" by code_simp
    show "found_text ?iroot ''monData'' = Some (b64encode [byte_of 6, byte_of 0])" by code_simp
    show "utf8_valid False sample_inner" by (rule utf8_valid_ascii) code_simp
  qed (simp_all add: sample_inner_def)
  with ps show ?thesis by (fastforce simp: washer_mondata_fields_def)
qed

end
