(* ===== verification/Registry.thy ===== *)
theory Registry
  imports ModelJson WmEnvelope Json_Roundtrip
begin

text \<open>
  \<open>server/models/registry.py\<close>: which decoder and which modelJson a device gets. The file system
  is the argument \<open>read_text\<close> (a path to its text or an error); the module's \<open>_MEM_CACHE\<close> is an
  explicit state; a modelJson \<open>None\<close> is \<open>JNull\<close>, as is a file that contains \<open>null\<close>.
\<close>

section \<open>The registered decoders\<close>

record decoder =
  model_id :: str
  device_type :: int
  fixture :: str
  state_fields :: "str list"
  has_enrich :: bool
  washer_reads :: bool

definition washer_wtwn3 :: decoder where
  [const_defs]: "washer_wtwn3 = \<lparr>model_id = ''WTWN3'', device_type = 201,
     fixture = ''washer_wtwn3.model.json'', state_fields = [''monData'', ''option''],
     has_enrich = True, washer_reads = True\<rparr>"

definition dryer_rc90u2 :: decoder where
  [const_defs]: "dryer_rc90u2 = \<lparr>model_id = ''RC90U2_WW'', device_type = 202,
     fixture = ''dryer_rc90u2.model.json'', state_fields = [''monData'', ''option''],
     has_enrich = False, washer_reads = False\<rparr>"

definition fridge_1reb1glpx1 :: decoder where
  [const_defs]: "fridge_1reb1glpx1 = \<lparr>model_id = ''1REB1GLPX1___'', device_type = 101,
     fixture = ''fridge_1REB1GLPX1.model.json'', state_fields = [''monData''],
     has_enrich = False, washer_reads = False\<rparr>"

definition modules :: "decoder list" where
  [const_defs]: "modules = [washer_wtwn3, dryer_rc90u2, fridge_1reb1glpx1]"

definition by_model :: "(str, decoder) dict" where
  "by_model = map (\<lambda>m. (model_id m, m)) modules"

definition by_type :: "(int, decoder) dict" where
  "by_type = map (\<lambda>m. (device_type m, m)) modules"

definition decoder_for :: "str \<Rightarrow> int option \<Rightarrow> decoder option" where
  "decoder_for name dtype =
     (case dict_get by_model (py_strip name) of
        Some m \<Rightarrow> Some m
      | None \<Rightarrow> Option.bind dtype (dict_get by_type))"

section \<open>Resolving a modelJson\<close>

record reg_env =
  parse_xml :: xml_parser
  read_text :: "str \<Rightarrow> str res"
  cache_dir :: str
  fixture_dir :: str

type_synonym model_cache = "(str, json) dict"

definition cache_path :: "('e) reg_env_scheme \<Rightarrow> str \<Rightarrow> str" where
  "cache_path env name = path_join (cache_dir env) (name @ ''.model.json'')"

text \<open>The regular expression \<open>[A-Za-z0-9._-]+\Z\<close>.\<close>

definition safe_name :: "str \<Rightarrow> bool" where
  "safe_name n \<longleftrightarrow> n \<noteq> [] \<and>
     list_all (\<lambda>c. is_upper c \<or> is_lower c \<or> is_digit c \<or> c \<in> {CHR ''.'', CHR ''_'', CHR ''-''}) n"

definition read_json :: "'e reg_env_scheme \<Rightarrow> str \<Rightarrow> json res" where
  "read_json env path = (case read_text env path of
      Inl e \<Rightarrow> if e = OSError then Inr JNull else Inl e
    | Inr s \<Rightarrow> Inr (case loads s of None \<Rightarrow> JNull | Some v \<Rightarrow> v))"

definition load_fresh :: "'e reg_env_scheme \<Rightarrow> str \<Rightarrow> decoder option \<Rightarrow> json res" where
  "load_fresh env name dec =
     rbind (if name \<noteq> [] \<and> safe_name name then read_json env (cache_path env name) else Inr JNull) (\<lambda>mj.
       case dec of
         None \<Rightarrow> Inr mj
       | Some d \<Rightarrow>
           if mj = JNull \<and> name = model_id d \<and> fixture d \<noteq> []
           then read_json env (path_join (fixture_dir env) (fixture d))
           else Inr mj)"

definition load_model_json ::
  "'e reg_env_scheme \<Rightarrow> model_cache \<Rightarrow> str \<Rightarrow> decoder option \<Rightarrow> (json \<times> model_cache) res" where
  "load_model_json env cache model_name dec =
     (let name = py_strip model_name in
      case dict_get cache name of
        Some mj \<Rightarrow> Inr (mj, cache)
      | None \<Rightarrow> rbind (load_fresh env name dec) (\<lambda>mj. Inr (mj, dict_set cache name mj)))"

definition model_json_for ::
  "'e reg_env_scheme \<Rightarrow> model_cache \<Rightarrow> str \<Rightarrow> int option \<Rightarrow> (json \<times> model_cache) res" where
  "model_json_for env cache name dtype = load_model_json env cache name (decoder_for name dtype)"

section \<open>Decoding\<close>

definition identity_from_report :: "'e reg_env_scheme \<Rightarrow> str \<Rightarrow> (str \<times> int option) res" where
  "identity_from_report env report_xml =
     rbind (parse_xml env report_xml) (\<lambda>root.
       let raw_type = stripped_text root ''devType'' in
       Inr (stripped_text root ''modelName'', if raw_type = [] then None else py_int raw_type))"

definition decoder_decode_report :: "'e reg_env_scheme \<Rightarrow> decoder \<Rightarrow> str \<Rightarrow> jdict list res" where
  "decoder_decode_report env d report_xml =
     (if washer_reads d then washer_decode_report (parse_xml env) report_xml
      else env_decode_report (parse_xml env) report_xml [] [])"

definition decode_raw :: "json \<Rightarrow> decoder \<Rightarrow> json \<Rightarrow> jdict res" where
  "decode_raw mj d raw =
     rbind (case raw of JStr s \<Rightarrow> res_of_option ValueError (from_hex s) | _ \<Rightarrow> Inl TypeError) (\<lambda>blob.
     rbind (decode_with_model_json blob mj) (\<lambda>decoded.
       Inr (if has_enrich d then enrich_decoded decoded else decoded)))"

definition apply_state_field :: "json \<Rightarrow> decoder \<Rightarrow> jdict \<Rightarrow> str \<Rightarrow> jdict" where
  "apply_state_field mj d payload field = (case dict_get payload field of
      Some (JObj node) \<Rightarrow>
        if truthy (get_or node ''raw'' JNull) then
          (case decode_raw mj d (get_or node ''raw'' JNull) of
             Inl _ \<Rightarrow> payload
           | Inr decoded \<Rightarrow> dict_set payload (field @ ''_decoded'') (JObj decoded))
        else payload
    | _ \<Rightarrow> payload)"

definition apply_course_label :: "json \<Rightarrow> jdict \<Rightarrow> jdict" where
  "apply_course_label mj payload = (case dict_get payload ''diagData'' of
      Some (JObj diag) \<Rightarrow>
        (case dict_get diag ''course'' of
           None \<Rightarrow> payload
         | Some c \<Rightarrow>
             (case reference_name mj ''Course'' (JStr (py_str c)) of
                Inl _ \<Rightarrow> payload
              | Inr l \<Rightarrow> dict_set payload ''diagData''
                  (JObj (dict_set diag ''course_label'' (if truthy l then l else JNull)))))
    | _ \<Rightarrow> payload)"

definition apply_model_json :: "json \<Rightarrow> decoder \<Rightarrow> jdict \<Rightarrow> jdict" where
  "apply_model_json mj d payload =
     apply_course_label mj (foldl (apply_state_field mj d) payload (state_fields d))"

fun json_of_int_option :: "int option \<Rightarrow> json" where
  "json_of_int_option None = JNull"
| "json_of_int_option (Some n) = JInt n"

definition unknown_payload :: "str \<Rightarrow> int option \<Rightarrow> jdict" where
  "unknown_payload name dtype =
     [(''diagMonType'', JStr ''UNKNOWN''), (''modelName'', JStr name), (''devType'', json_of_int_option dtype),
      (''note'', JStr ''no decoder registered; capture the device and add a module to decode'')]"

definition decode_report ::
  "'e reg_env_scheme \<Rightarrow> model_cache \<Rightarrow> str \<Rightarrow> str option \<Rightarrow> int option \<Rightarrow> (jdict list \<times> model_cache) res" where
  "decode_report env cache report_xml name_arg type_arg =
     rbind (if name_arg = None \<or> type_arg = None then
              rbind (identity_from_report env report_xml) (\<lambda>(rn, rt).
                Inr (case name_arg of None \<Rightarrow> rn | Some n \<Rightarrow> n,
                     case type_arg of None \<Rightarrow> rt | Some t \<Rightarrow> Some t))
            else Inr (the name_arg, type_arg)) (\<lambda>(name, dtype).
       case decoder_for name dtype of
         None \<Rightarrow> Inr ([unknown_payload name dtype], cache)
       | Some d \<Rightarrow>
           rbind (decoder_decode_report env d report_xml) (\<lambda>payloads.
           rbind (load_model_json env cache name (Some d)) (\<lambda>(mj, cache').
             Inr (if mj = JNull then payloads else map (apply_model_json mj d) payloads, cache'))))"

text \<open>The text of a caught exception is represented by its class.\<close>

fun exc_text :: "py_exc \<Rightarrow> str" where
  "exc_text KeyError = ''KeyError''"
| "exc_text IndexError = ''IndexError''"
| "exc_text ValueError = ''ValueError''"
| "exc_text TypeError = ''TypeError''"
| "exc_text AttributeError = ''AttributeError''"
| "exc_text RecursionError = ''RecursionError''"
| "exc_text OSError = ''OSError''"
| "exc_text StructError = ''struct.error''"
| "exc_text ParseError = ''ParseError''"
| "exc_text OtherError = ''Exception''"

definition decode_mondata ::
  "'e reg_env_scheme \<Rightarrow> model_cache \<Rightarrow> bytes \<Rightarrow> str \<Rightarrow> (jdict \<times> model_cache) res" where
  "decode_mondata env cache blob model_name =
     rbind (model_json_for env cache model_name None) (\<lambda>(mj, cache').
       if mj = JNull then
         Inr ([(''diagMonType'', JStr ''PUMP_47878''), (''modelName'', JStr model_name),
               (''note'', JStr ''no modelJson available; decode skipped'')], cache')
       else
         (case decode_with_model_json blob mj of
            Inl e \<Rightarrow> Inr ([(''diagMonType'', JStr ''PUMP_47878''), (''modelName'', JStr model_name),
                (''note'', JStr (''monData decode failed: '' @ exc_text e))], cache')
          | Inr decoded \<Rightarrow>
              let enriched = (case dict_get by_model model_name of
                    Some m \<Rightarrow> if has_enrich m then enrich_decoded decoded else decoded
                  | None \<Rightarrow> decoded)
              in Inr ([(''diagMonType'', JStr ''PUMP_47878''), (''monData_decoded'', JObj enriched)], cache')))"

section \<open>The dispatch tables\<close>

lemma py_strip_idem [simp]: "py_strip (py_strip s) = py_strip s"
proof (rule py_strip_id)
  let ?t = "dropWhile is_space s"
  let ?u = "dropWhile is_space (rev ?t)"
  have "\<not> is_space (last (rev ?u))" if "?u \<noteq> []"
    using that hd_dropWhile [of is_space "rev ?t"] by (simp add: last_rev)
  moreover have "\<not> is_space (hd (rev ?u))" if "?u \<noteq> []"
  proof -
    from that have "?t \<noteq> []" by (metis dropWhile.simps(1) rev.simps(1))
    then have h: "\<not> is_space (hd ?t)" by (rule hd_dropWhile)
    have "suffix ?u (rev ?t)" by (rule suffix_dropWhile)
    then obtain v where "rev ?t = v @ ?u" by (auto simp: suffix_def)
    then have "?t = rev ?u @ rev v" by (metis rev_append rev_rev_ident)
    then have "hd ?t = hd (rev ?u)" using that by (metis hd_append2 rev_is_Nil_conv)
    with h show ?thesis by simp
  qed
  ultimately show "py_strip s = [] \<or> \<not> is_space (hd (py_strip s)) \<and> \<not> is_space (last (py_strip s))"
    by (auto simp: py_strip_def)
qed

lemma by_model_Some: "dict_get by_model n = Some m \<Longrightarrow> m \<in> set modules \<and> model_id m = n"
  by (auto simp: by_model_def dest: map_of_SomeD)

lemma by_model_None: "dict_get by_model n = None \<Longrightarrow> m \<in> set modules \<Longrightarrow> model_id m \<noteq> n"
  by (force simp: by_model_def map_of_eq_None_iff)

lemma by_type_Some: "dict_get by_type n = Some m \<Longrightarrow> m \<in> set modules \<and> device_type m = n"
  by (auto simp: by_type_def dest: map_of_SomeD)

lemma decoder_for_module: "decoder_for name dtype = Some d \<Longrightarrow> d \<in> set modules"
  by (auto simp: decoder_for_def bind_eq_Some_conv split: option.splits
      dest: by_model_Some by_type_Some)

lemma decoder_for_strip [simp]: "decoder_for (py_strip n) t = decoder_for n t"
  by (simp add: decoder_for_def)

text \<open>
  The fixture only counts for the decoder's own model, so how the decoder was found does not
  matter.
\<close>

lemma load_fresh_type:
  "load_fresh env (py_strip n) (decoder_for n t) = load_fresh env (py_strip n) (decoder_for n None)"
proof (cases "dict_get by_model (py_strip n)")
  case None
  then have "decoder_for n None = None" by (simp add: decoder_for_def)
  moreover have "py_strip n \<noteq> model_id d" if "decoder_for n t = Some d" for d
    using by_model_None [OF None decoder_for_module [OF that]] by simp
  ultimately show ?thesis
    by (cases "decoder_for n t") (auto simp: load_fresh_def cong: rbind_cong)
next
  case (Some m)
  then show ?thesis by (simp add: decoder_for_def)
qed

definition cache_exact :: "'e reg_env_scheme \<Rightarrow> model_cache \<Rightarrow> bool" where
  "cache_exact env cache \<longleftrightarrow>
     (\<forall>n mj. map_of cache n = Some mj \<longrightarrow> py_strip n = n \<and> load_fresh env n (decoder_for n None) = Inr mj)"

lemma load_exact:
  assumes "cache_exact env cache"
  shows "rbind (load_model_json env cache n (decoder_for n t)) (\<lambda>(mj, _). Inr mj)
       = load_fresh env (py_strip n) (decoder_for n None)"
    and "load_model_json env cache n (decoder_for n t) = Inr (mj, cache') \<Longrightarrow> cache_exact env cache'"
proof -
  have "load_fresh env (py_strip n) (decoder_for n None) = Inr a"
    if "map_of cache (py_strip n) = Some a" for a
    using assms that decoder_for_strip [of n None] unfolding cache_exact_def by metis
  then show "rbind (load_model_json env cache n (decoder_for n t)) (\<lambda>(mj, _). Inr mj)
       = load_fresh env (py_strip n) (decoder_for n None)"
    using load_fresh_type [of env n t]
    by (cases "map_of cache (py_strip n)"; cases "load_fresh env (py_strip n) (decoder_for n None)")
      (auto simp: load_model_json_def)
  assume "load_model_json env cache n (decoder_for n t) = Inr (mj, cache')"
  then show "cache_exact env cache'"
    using assms load_fresh_type [of env n t]
    by (auto simp: load_model_json_def Let_def cache_exact_def rbind_Inr_iff split: option.splits if_splits)
qed

lemma load_fresh_no_file:
  "read_text env (cache_path env n) = Inl OSError \<Longrightarrow> d \<noteq> None \<longrightarrow> n \<noteq> model_id (the d) \<Longrightarrow>
   load_fresh env n d = Inr JNull"
  by (auto simp: load_fresh_def read_json_def split: option.splits)

definition fresh_paths :: "'e reg_env_scheme \<Rightarrow> str set" where
  "fresh_paths env =
     {cache_path env n | n. n \<noteq> [] \<and> CHR ''/'' \<notin> set n}
     \<union> {path_join (fixture_dir env) (fixture d) | d. d \<in> set modules}"

lemma safe_name_no_slash: "safe_name n \<Longrightarrow> CHR ''/'' \<notin> set n"
  by (auto simp: safe_name_def list_all_iff is_upper_def is_lower_def is_digit_def)

lemma load_fresh_confined:
  assumes "\<And>p. p \<in> fresh_paths env \<Longrightarrow> r p = read_text env p" "d \<noteq> None \<longrightarrow> the d \<in> set modules"
  shows "load_fresh (env\<lparr>read_text := r\<rparr>) n d = load_fresh env n d"
proof -
  have "read_json (env\<lparr>read_text := r\<rparr>) (cache_path env n) = read_json env (cache_path env n)"
    if "n \<noteq> []" "safe_name n"
  proof -
    have "cache_path env n \<in> fresh_paths env"
      using safe_name_no_slash that by (auto simp: fresh_paths_def)
    then show ?thesis by (simp add: read_json_def assms(1))
  qed
  moreover have "read_json (env\<lparr>read_text := r\<rparr>) (path_join (fixture_dir env) (fixture x))
      = read_json env (path_join (fixture_dir env) (fixture x))" if "x \<in> set modules" for x
  proof -
    have "path_join (fixture_dir env) (fixture x) \<in> fresh_paths env"
      using that by (auto simp: fresh_paths_def)
    then show ?thesis by (simp add: read_json_def assms(1))
  qed
  moreover have "cache_path (env\<lparr>read_text := r\<rparr>) n = cache_path env n"
    by (simp add: cache_path_def)
  ultimately show ?thesis
    using assms(2) by (cases d) (auto simp: load_fresh_def cong: rbind_cong if_cong)
qed

lemma decode_report_cache_exact:
  "cache_exact env cache \<Longrightarrow> decode_report env cache xml n t = Inr (ps, cache') \<Longrightarrow> cache_exact env cache'"
  unfolding decode_report_def
  by (auto simp: rbind_Inr_iff split: option.splits) (metis load_exact(2))+

lemma decode_mondata_cache_exact:
  "cache_exact env cache \<Longrightarrow> decode_mondata env cache blob n = Inr (p, cache') \<Longrightarrow> cache_exact env cache'"
  by (auto simp: decode_mondata_def model_json_for_def rbind_Inr_iff Let_def
      split: if_splits sum.splits dest: load_exact(2))

lemma load_exact_cong:
  assumes "cache_exact env cache"
  shows "rbind (load_model_json env cache n (decoder_for n t)) (\<lambda>(mj, _). f mj)
       = rbind (load_model_json env [] n (decoder_for n t)) (\<lambda>(mj, _). f mj)"
proof -
  have e: "cache_exact env []" by (simp add: cache_exact_def)
  have a: "rbind (load_model_json env c n (decoder_for n t)) (\<lambda>(mj, _). f mj)
      = rbind (rbind (load_model_json env c n (decoder_for n t)) (\<lambda>(mj, _). Inr mj)) f" for c
    by (auto simp: rbind_assoc intro!: rbind_cong)
  show ?thesis unfolding a load_exact(1) [OF assms] load_exact(1) [OF e] ..
qed

lemma decode_report_values:
  "rbind (decode_report env cache xml n t) (\<lambda>(ps, _). Inr ps) =
   rbind (if n = None \<or> t = None then
            rbind (identity_from_report env xml) (\<lambda>(rn, rt).
              Inr (case n of None \<Rightarrow> rn | Some n \<Rightarrow> n, case t of None \<Rightarrow> rt | Some t \<Rightarrow> Some t))
          else Inr (the n, t)) (\<lambda>(name, dtype).
     case decoder_for name dtype of
       None \<Rightarrow> Inr [unknown_payload name dtype]
     | Some d \<Rightarrow> rbind (decoder_decode_report env d xml) (\<lambda>payloads.
         rbind (load_model_json env cache name (decoder_for name dtype)) (\<lambda>(mj, _).
           Inr (if mj = JNull then payloads else map (apply_model_json mj d) payloads))))"
  unfolding decode_report_def rbind_assoc
  by (rule rbind_cong [OF refl]) (auto simp: rbind_assoc intro!: rbind_cong split: option.splits prod.splits)

section \<open>Properties\<close>

definition sample_env :: reg_env where
  "sample_env = \<lparr>parse_xml = sample_parser,
     read_text = (\<lambda>p. if p = ''fx/washer_wtwn3.model.json'' then Inr (dumps sample_model) else Inl OSError),
     cache_dir = ''cache'', fixture_dir = ''fx''\<rparr>"

lemma sample_load:
  "load_fresh sample_env ''WTWN3'' (decoder_for ''WTWN3'' None) = Inr sample_model"
proof -
  have "json_ok sample_model" by (simp add: sample_model_def)
  then have l: "loads (dumps sample_model) = Some sample_model" by (rule loads_dumps)
  have d: "decoder_for ''WTWN3'' None = Some washer_wtwn3" by code_simp
  have s: "safe_name ''WTWN3''" by code_simp
  have p: "cache_path sample_env ''WTWN3'' = ''cache/WTWN3.model.json''"
    "path_join (fixture_dir sample_env) (fixture washer_wtwn3) = ''fx/washer_wtwn3.model.json''"
    by code_simp+
  have m: "model_id washer_wtwn3 = ''WTWN3''" "fixture washer_wtwn3 \<noteq> []"
    by (simp_all add: washer_wtwn3_def)
  have r1: "read_json sample_env ''cache/WTWN3.model.json'' = Inr JNull"
    by (simp add: read_json_def sample_env_def)
  have r2: "read_json sample_env ''fx/washer_wtwn3.model.json'' = Inr sample_model"
    using l by (simp add: read_json_def sample_env_def)
  show ?thesis by (simp add: load_fresh_def d s p m r1 r2)
qed

text \<open>
  C14. The in-memory modelJson cache is invisible: with a cache that only holds what the files
  gave (the invariant, which both decoders keep), reports and pump blobs decode exactly as they
  would with an empty cache.
\<close>

theorem mem_cache_transparent:
  assumes "cache_exact env cache"
  shows "rbind (decode_report env cache xml n t) (\<lambda>(ps, _). Inr ps)
           = rbind (decode_report env [] xml n t) (\<lambda>(ps, _). Inr ps) \<and>
         rbind (decode_mondata env cache blob model) (\<lambda>(p, _). Inr p)
           = rbind (decode_mondata env [] blob model) (\<lambda>(p, _). Inr p) \<and>
         (\<forall>ps cache'. decode_report env cache xml n t = Inr (ps, cache') \<longrightarrow> cache_exact env cache') \<and>
         (\<forall>p cache'. decode_mondata env cache blob model = Inr (p, cache') \<longrightarrow> cache_exact env cache')"
proof (intro conjI allI impI)
  show "rbind (decode_report env cache xml n t) (\<lambda>(ps, _). Inr ps)
           = rbind (decode_report env [] xml n t) (\<lambda>(ps, _). Inr ps)"
    unfolding decode_report_values load_exact_cong [OF assms] ..
  have v: "rbind (decode_mondata env c blob model) (\<lambda>(p, _). Inr p) =
     rbind (load_model_json env c model (decoder_for model None)) (\<lambda>(mj, _).
       rbind (decode_mondata env [(py_strip model, mj)] blob model) (\<lambda>(p, _). Inr p))" for c
    unfolding decode_mondata_def model_json_for_def rbind_assoc
    by (rule rbind_cong [OF refl])
      (auto simp: load_model_json_def Let_def split: prod.splits sum.splits option.splits)
  show "rbind (decode_mondata env cache blob model) (\<lambda>(p, _). Inr p)
           = rbind (decode_mondata env [] blob model) (\<lambda>(p, _). Inr p)"
    unfolding v [of cache] v [of "[]"] by (rule load_exact_cong [OF assms])
qed (use assms decode_report_cache_exact decode_mondata_cache_exact in blast)+

theorem mem_cache_transparent_witness:
  "rbind (decode_mondata sample_env [(''WTWN3'', sample_model)] [byte_of 6] ''WTWN3'') (\<lambda>(p, _). Inr p)
     = rbind (decode_mondata sample_env [] [byte_of 6] ''WTWN3'') (\<lambda>(p, _). Inr p)"
proof -
  have "py_strip ''WTWN3'' = ''WTWN3''" by code_simp
  then have "cache_exact sample_env [(''WTWN3'', sample_model)]"
    using sample_load by (simp add: cache_exact_def)
  then show ?thesis using mem_cache_transparent by blast
qed

text \<open>
  C13. A byte layout never crosses model names: a device that only falls back to a decoder by its
  type, and has no cached modelJson of its own, gets exactly the envelope decode, whatever
  fixtures are committed.
\<close>

theorem fixture_never_crosses:
  assumes "cache_exact env cache" "decoder_for name (Some ty) = Some d" "py_strip name \<noteq> model_id d"
    and "read_text env (cache_path env (py_strip name)) = Inl OSError"
  shows "rbind (decode_report env cache xml (Some name) (Some ty)) (\<lambda>(ps, _). Inr ps)
       = decoder_decode_report env d xml"
proof -
  have "load_fresh env (py_strip name) (decoder_for name None) = Inr JNull"
    using load_fresh_no_file [OF assms(4), of "Some d"] load_fresh_type [of env name "Some ty"] assms(2,3)
    by simp
  then have l: "rbind (load_model_json env cache name (Some d)) (\<lambda>(mj, _). Inr mj) = Inr JNull"
    using load_exact(1) [OF assms(1), of name "Some ty"] assms(2) by simp
  then obtain c where "load_model_json env cache name (Some d) = Inr (JNull, c)"
    by (auto simp: rbind_Inr_iff)
  with assms(2) show ?thesis
    by (cases "decoder_decode_report env d xml") (simp_all add: decode_report_values)
qed

theorem fixture_never_crosses_witness:
  "rbind (decode_report sample_env [] ''<Report/>'' (Some ''OTHER'') (Some 201)) (\<lambda>(ps, _). Inr ps)
     = decoder_decode_report sample_env washer_wtwn3 ''<Report/>''"
proof (rule fixture_never_crosses)
  show "cache_exact sample_env []" by (simp add: cache_exact_def)
  show "decoder_for ''OTHER'' (Some 201) = Some washer_wtwn3" by code_simp
  show "py_strip ''OTHER'' \<noteq> model_id washer_wtwn3" by code_simp
  have "cache_path sample_env (py_strip ''OTHER'') = ''cache/OTHER.model.json''" by code_simp
  then show "read_text sample_env (cache_path sample_env (py_strip ''OTHER'')) = Inl OSError"
    by (simp add: sample_env_def)
qed

text \<open>
  C15. A crafted \<open>modelName\<close> cannot reach another file: two file systems that agree on the
  committed fixtures and on the files \<open><name>.model.json\<close> with no slash in the name give every
  model name the same modelJson.
\<close>

theorem model_reads_confined:
  assumes "\<And>p. p \<in> fresh_paths env \<Longrightarrow> r p = read_text env p"
  shows "model_json_for (env\<lparr>read_text := r\<rparr>) cache name dtype = model_json_for env cache name dtype"
proof -
  have "decoder_for name dtype \<noteq> None \<longrightarrow> the (decoder_for name dtype) \<in> set modules"
    using decoder_for_module by auto
  from load_fresh_confined [OF assms this] show ?thesis
    by (simp only: model_json_for_def load_model_json_def)
qed

theorem model_reads_confined_witness:
  "model_json_for (sample_env\<lparr>read_text :=
       (\<lambda>p. if p = ''/etc/passwd'' then Inr ''x'' else read_text sample_env p)\<rparr>) [] ''../../etc/passwd'' None
     = model_json_for sample_env [] ''../../etc/passwd'' None"
proof (rule model_reads_confined)
  fix p
  assume "p \<in> fresh_paths sample_env"
  moreover have "hd (path_join ''cache'' (n @ ''.model.json'')) = CHR ''c'' \<or> CHR ''/'' \<in> set n" for n
    by (cases n) (auto simp: path_join_def startswith_def)
  moreover have "hd (path_join ''fx'' (fixture d)) = CHR ''f''" if "d \<in> set modules" for d
    using that by (auto simp: modules_def washer_wtwn3_def dryer_rc90u2_def fridge_1reb1glpx1_def
        path_join_def startswith_def)
  ultimately have "hd p = CHR ''c'' \<or> hd p = CHR ''f''"
    by (fastforce simp: fresh_paths_def cache_path_def sample_env_def)
  then show "(if p = ''/etc/passwd'' then Inr ''x'' else read_text sample_env p) = read_text sample_env p"
    by auto
qed

end
