(* ===== verification/State.thy ===== *)
theory State
  imports Registry
begin

text \<open>
  \<open>server/state.py\<close>: the store of the latest decoded state per device, its JSONL event log and the
  sink it notifies. The clock, the outcome of appending to the log file and the sink are the
  environment; the sink has a state of its own and may raise. An operation returns its result
  (a value or the exception that leaves it) and the store it leaves, also when it raises.
\<close>

section \<open>The store\<close>

record 's store =
  latest :: "(str, jdict) dict"
  model_by_devid :: "(str, str) dict"
  warned :: "(str \<times> str) list"
  warnings :: "str list"
  log_lines :: "str list"
  mem_cache :: model_cache
  sink_state :: 's

type_synonym 's sink = "str \<Rightarrow> jdict \<Rightarrow> 's \<Rightarrow> unit res \<times> 's"

record 's state_env = reg_env +
  now :: str
  append_ok :: "str \<Rightarrow> bool"
  on_state :: "'s sink option"

type_synonym ('s, 'a) action = "'s store \<Rightarrow> 'a res \<times> 's store"

definition initial_store :: "'s \<Rightarrow> 's store" where
  "initial_store s = \<lparr>latest = [], model_by_devid = [], warned = [], warnings = [], log_lines = [],
     mem_cache = [], sink_state = s\<rparr>"

section \<open>Its operations\<close>

definition warn_once :: "str \<Rightarrow> str \<Rightarrow> str \<Rightarrow> 's store \<Rightarrow> 's store" where
  "warn_once dev reason message st =
     (if (dev, reason) \<in> set (warned st) then st
      else st\<lparr>warned := warned st @ [(dev, reason)], warnings := warnings st @ [message]\<rparr>)"

definition notify :: "'s state_env \<Rightarrow> str \<Rightarrow> jdict \<Rightarrow> 's store \<Rightarrow> 's store" where
  "notify env dev p st = (case on_state env of
      None \<Rightarrow> st
    | Some f \<Rightarrow> st\<lparr>sink_state := snd (f dev p (sink_state st))\<rparr>)"

definition commit :: "'s state_env \<Rightarrow> str \<Rightarrow> jdict \<Rightarrow> ('s, unit) action" where
  "commit env dev p st =
     (let st1 = st\<lparr>latest := dict_set (latest st) dev p\<rparr>;
          line = dumps (JObj p) @ [CHR 10] in
      if \<not> append_ok env line then (Inl OSError, st1)
      else (Inr (), notify env dev p (st1\<lparr>log_lines := log_lines st1 @ [line]\<rparr>)))"

definition stamp :: "str \<Rightarrow> str \<Rightarrow> str \<Rightarrow> jdict \<Rightarrow> jdict" where
  "stamp dev model ts p =
     dict_set (dict_set (dict_set p ''devId'' (JStr dev)) ''modelName'' (JStr model)) ''ts'' (JStr ts)"

definition is_unknown :: "jdict \<Rightarrow> bool" where
  "is_unknown p \<longleftrightarrow> dict_get p ''diagMonType'' = Some (JStr ''UNKNOWN'')"

fun commit_all :: "'s state_env \<Rightarrow> str \<Rightarrow> jdict list \<Rightarrow> ('s, unit) action" where
  "commit_all env dev [] st = (Inr (), st)"
| "commit_all env dev (p # ps) st =
     (if is_unknown p then commit_all env dev ps st
      else case commit env dev p st of
          (Inl e, st1) \<Rightarrow> (Inl e, st1)
        | (Inr _, st1) \<Rightarrow> commit_all env dev ps st1)"

definition learn_model :: "str \<Rightarrow> str \<Rightarrow> 's store \<Rightarrow> 's store" where
  "learn_model dev model st =
     (if dev \<noteq> [] \<and> model \<noteq> [] then st\<lparr>model_by_devid := dict_set (model_by_devid st) dev model\<rparr> else st)"

datatype report = RText str | RBytes bytes

definition report_text :: "report \<Rightarrow> str" where
  "report_text r = (case r of RText s \<Rightarrow> s | RBytes b \<Rightarrow> utf8_replace b)"

definition ingest_report :: "'s state_env \<Rightarrow> report \<Rightarrow> ('s, jdict list) action" where
  "ingest_report env r st =
     (let xml = report_text r in
      case parse_xml env xml of
        Inl e \<Rightarrow> (Inl e, st)
      | Inr root \<Rightarrow>
          let dev = stripped_text root ''devId'';
              model = stripped_text root ''modelName'';
              raw_type = stripped_text root ''devType'';
              dtype = (if raw_type = [] then None else py_int raw_type);
              st1 = learn_model dev model st in
          (case decode_report env (mem_cache st1) xml (Some model) dtype of
             Inl e \<Rightarrow> (Inl e, st1)
           | Inr (payloads, cache') \<Rightarrow>
               let stamped = map (stamp dev model (now env)) payloads in
               (case commit_all env dev stamped (st1\<lparr>mem_cache := cache'\<rparr>) of
                  (Inl e, st2) \<Rightarrow> (Inl e, st2)
                | (Inr _, st2) \<Rightarrow> (Inr stamped, st2))))"

definition unmapped_message :: "str \<Rightarrow> str" where
  "unmapped_message dev = ''[state] pump data for unmapped devId='' @ cp_take 8 dev @
     ''; waiting for its first 46030 report to learn the model''"

definition degraded_message :: "str \<Rightarrow> str \<Rightarrow> str" where
  "degraded_message model n = ''[state] pump decode degraded for '' @ model @ '': '' @ n"

text \<open>
  A device id that is not a string: hashing a list or a dict fails, any other value is not in the
  map and the warning's \<open>dev_id[:8]\<close> fails.
\<close>

definition ingest_mondata :: "'s state_env \<Rightarrow> json \<Rightarrow> bytes \<Rightarrow> ('s, jdict option) action" where
  "ingest_mondata env dev_id blob st = (case dev_id of
      JStr dev \<Rightarrow>
        (let model = (case dict_get (model_by_devid st) dev of None \<Rightarrow> [] | Some m \<Rightarrow> m) in
         if model = [] then
           (Inr None, warn_once dev ''unmapped'' (unmapped_message dev) st)
         else (case decode_mondata env (mem_cache st) blob model of
             Inl e \<Rightarrow> (Inl e, st)
           | Inr (p, cache') \<Rightarrow>
               let st1 = st\<lparr>mem_cache := cache'\<rparr> in
               if ''monData_decoded'' \<notin> set (dict_keys p) then
                 let n = py_str (get_or p ''note'' JNull) in
                 (Inr None, warn_once dev (''note:'' @ n) (degraded_message model n) st1)
               else
                 let p' = stamp dev model (now env) p in
                 (case commit env dev p' st1 of
                    (Inl e, st2) \<Rightarrow> (Inl e, st2)
                  | (Inr _, st2) \<Rightarrow> (Inr (Some p'), st2))))
    | _ \<Rightarrow> (Inl TypeError, st))"

section \<open>Lemmas on the operations\<close>

lemma warn_once_fields [simp]:
  "latest (warn_once d r m st) = latest st"
  "model_by_devid (warn_once d r m st) = model_by_devid st"
  "log_lines (warn_once d r m st) = log_lines st"
  "mem_cache (warn_once d r m st) = mem_cache st"
  "sink_state (warn_once d r m st) = sink_state st"
  by (simp_all add: warn_once_def)

lemma set_same_cache: "mem_cache st = c \<Longrightarrow> st\<lparr>mem_cache := c\<rparr> = st"
  by auto

lemma warn_once_cache [simp]:
  "(warn_once d r m (st\<lparr>mem_cache := c\<rparr>))\<lparr>mem_cache := c\<rparr> = warn_once d r m (st\<lparr>mem_cache := c\<rparr>)"
  by (simp add: warn_once_def)

lemma warn_once_idem [simp]: "warn_once d r m (warn_once d r m st) = warn_once d r m st"
  by (simp add: warn_once_def)

lemma learn_model_fields [simp]:
  "latest (learn_model d m st) = latest st" "warned (learn_model d m st) = warned st"
  "warnings (learn_model d m st) = warnings st" "log_lines (learn_model d m st) = log_lines st"
  "mem_cache (learn_model d m st) = mem_cache st" "sink_state (learn_model d m st) = sink_state st"
  by (simp_all add: learn_model_def)

lemma learn_model_quiet [simp]:
  "learn_model d m (st\<lparr>sink_state := y\<rparr>) = (learn_model d m st)\<lparr>sink_state := y\<rparr>"
  by (simp add: learn_model_def)

lemma notify_fields [simp]:
  "latest (notify env d p st) = latest st"
  "model_by_devid (notify env d p st) = model_by_devid st"
  "warned (notify env d p st) = warned st"
  "warnings (notify env d p st) = warnings st"
  "log_lines (notify env d p st) = log_lines st"
  "mem_cache (notify env d p st) = mem_cache st"
  by (simp_all add: notify_def split: option.splits)

lemma commit_fields:
  assumes "commit env d p st = (r, st')"
  shows "latest st' = dict_set (latest st) d p" "model_by_devid st' = model_by_devid st"
    "warned st' = warned st" "warnings st' = warnings st" "mem_cache st' = mem_cache st"
    "r = Inr () \<Longrightarrow> log_lines st' = log_lines st @ [dumps (JObj p) @ [CHR 10]]"
  using assms by (auto simp: commit_def Let_def split: if_splits)

lemma commit_all_fields:
  "commit_all env d ps st = (r, st') \<Longrightarrow>
     model_by_devid st' = model_by_devid st \<and> warned st' = warned st \<and> warnings st' = warnings st \<and>
     mem_cache st' = mem_cache st \<and> (\<forall>d'. d' \<noteq> d \<longrightarrow> map_of (latest st') d' = map_of (latest st) d')"
proof (induction env d ps st rule: commit_all.induct)
  case (2 env d p ps st)
  obtain x st1 where c: "commit env d p st = (x, st1)" by fastforce
  note f = commit_fields [OF c]
  show ?case
  proof (cases "is_unknown p")
    case True
    with 2 show ?thesis by simp
  next
    case False
    show ?thesis
    proof (cases x)
      case (Inl e)
      with 2 False c f show ?thesis by auto
    next
      case (Inr u)
      with 2 False c have "model_by_devid st' = model_by_devid st1 \<and> warned st' = warned st1 \<and>
         warnings st' = warnings st1 \<and> mem_cache st' = mem_cache st1 \<and>
         (\<forall>d'. d' \<noteq> d \<longrightarrow> map_of (latest st') d' = map_of (latest st1) d')"
        by simp
      with f show ?thesis by simp
    qed
  qed
qed simp

lemma commit_all_latest:
  "commit_all env d ps st = (Inr u, st') \<Longrightarrow>
     map_of (latest st') d =
       (case filter (\<lambda>p. \<not> is_unknown p) ps of [] \<Rightarrow> map_of (latest st) d
        | qs \<Rightarrow> Some (last qs)) \<and>
     log_lines st' = log_lines st @ map (\<lambda>p. dumps (JObj p) @ [CHR 10]) (filter (\<lambda>p. \<not> is_unknown p) ps)"
proof (induction env d ps st rule: commit_all.induct)
  case (2 env d p ps st)
  show ?case
  proof (cases "is_unknown p")
    case False
    obtain x st1 where c: "commit env d p st = (x, st1)" by fastforce
    with 2 False have x: "x = Inr ()" and "commit_all env d ps st1 = (Inr u, st')"
      by (auto split: sum.splits)
    with 2(2) [OF False, of x st1 "()"] c
    have "map_of (latest st') d =
       (case filter (\<lambda>p. \<not> is_unknown p) ps of [] \<Rightarrow> map_of (latest st1) d | qs \<Rightarrow> Some (last qs))"
       "log_lines st' = log_lines st1 @ map (\<lambda>p. dumps (JObj p) @ [CHR 10]) (filter (\<lambda>p. \<not> is_unknown p) ps)"
      by auto
    with commit_fields [OF c] x False show ?thesis by (simp split: list.splits)
  qed (use 2 in simp)
qed simp

definition unsinked :: "'s state_env \<Rightarrow> 's state_env" where
  "unsinked env = env\<lparr>on_state := None\<rparr>"

lemma unsinked_fields [simp]:
  "parse_xml (unsinked env) = parse_xml env" "read_text (unsinked env) = read_text env"
  "cache_dir (unsinked env) = cache_dir env" "fixture_dir (unsinked env) = fixture_dir env"
  "now (unsinked env) = now env" "append_ok (unsinked env) = append_ok env"
  "on_state (unsinked env) = None"
  by (simp_all add: unsinked_def)

lemma load_unsinked [simp]: "load_model_json (unsinked env) = load_model_json env"
  by (intro ext) (simp add: load_model_json_def load_fresh_def read_json_def cache_path_def
      cong: rbind_cong if_cong option.case_cong)

lemma decoder_unsinked [simp]:
  "decoder_decode_report (unsinked env) = decoder_decode_report env"
  "identity_from_report (unsinked env) = identity_from_report env"
  by (intro ext, simp add: decoder_decode_report_def)
    (intro ext, simp add: identity_from_report_def)

lemma decode_unsinked [simp]:
  "decode_report (unsinked env) = decode_report env"
  "decode_mondata (unsinked env) = decode_mondata env"
  by (intro ext, unfold decode_report_def decoder_unsinked load_unsinked, rule refl)
    (intro ext, unfold decode_mondata_def model_json_for_def load_unsinked, rule refl)

lemma commit_quiet:
  "commit env d p st = (r, st') \<Longrightarrow>
   commit (unsinked env) d p (st\<lparr>sink_state := y\<rparr>) = (r, st'\<lparr>sink_state := y\<rparr>)"
  by (auto simp: commit_def notify_def Let_def split: if_splits option.splits)

lemma commit_all_quiet:
  "commit_all env d ps st = (r, st') \<Longrightarrow>
   commit_all (unsinked env) d ps (st\<lparr>sink_state := y\<rparr>) = (r, st'\<lparr>sink_state := y\<rparr>)"
proof (induction env d ps st rule: commit_all.induct)
  case (2 env d p ps st)
  obtain x st1 where c: "commit env d p st = (x, st1)" by fastforce
  from commit_quiet [OF this, of y] 2 c show ?case
    by (cases "is_unknown p"; cases x) auto
qed simp

lemma warn_once_quiet [simp]:
  "warn_once d r m (st\<lparr>sink_state := y\<rparr>) = (warn_once d r m st)\<lparr>sink_state := y\<rparr>"
  by (simp add: warn_once_def)

lemma ingest_report_quiet:
  assumes "ingest_report env r st = (res, st')"
  shows "ingest_report (unsinked env) r (st\<lparr>sink_state := y\<rparr>) = (res, st'\<lparr>sink_state := y\<rparr>)"
proof (cases "parse_xml env (report_text r)")
  case (Inl e)
  with assms show ?thesis by (auto simp: ingest_report_def)
next
  case (Inr root)
  let ?dev = "stripped_text root ''devId''" and ?model = "stripped_text root ''modelName''"
  let ?raw = "stripped_text root ''devType''"
  let ?dr = "decode_report env (mem_cache st) (report_text r) (Some ?model)
               (if ?raw = [] then None else py_int ?raw)"
  let ?st1 = "learn_model ?dev ?model st"
  show ?thesis
  proof (cases ?dr)
    case (Inl e)
    with Inr assms show ?thesis by (auto simp: ingest_report_def Let_def)
  next
    case (Inr x)
    obtain ps cache where x: "x = (ps, cache)" by fastforce
    let ?ps = "map (stamp ?dev ?model (now env)) ps"
    obtain c st2 where c: "commit_all env ?dev ?ps (?st1\<lparr>mem_cache := cache\<rparr>) = (c, st2)" by fastforce
    have q: "commit_all (unsinked env) ?dev ?ps ((?st1\<lparr>mem_cache := cache\<rparr>)\<lparr>sink_state := y\<rparr>)
        = (c, st2\<lparr>sink_state := y\<rparr>)"
      using c by (rule commit_all_quiet)
    have sw: "(?st1\<lparr>mem_cache := cache\<rparr>)\<lparr>sink_state := y\<rparr> = ?st1\<lparr>sink_state := y, mem_cache := cache\<rparr>"
      by simp
    show ?thesis
      using assms q [unfolded sw] c Inr x \<open>parse_xml env (report_text r) = Inr root\<close>
      by (cases c) (simp_all add: ingest_report_def Let_def)
  qed
qed

lemma ingest_mondata_quiet:
  assumes "ingest_mondata env dev_id blob st = (res, st')"
  shows "ingest_mondata (unsinked env) dev_id blob (st\<lparr>sink_state := y\<rparr>) = (res, st'\<lparr>sink_state := y\<rparr>)"
proof (cases "\<exists>dev. dev_id = JStr dev")
  case False
  with assms show ?thesis by (cases dev_id) (auto simp: ingest_mondata_def)
next
  case True
  then obtain dev where dev: "dev_id = JStr dev" by blast
  let ?model = "case dict_get (model_by_devid st) dev of None \<Rightarrow> [] | Some m \<Rightarrow> m"
  show ?thesis
  proof (cases "decode_mondata env (mem_cache st) blob ?model")
    case (Inl e)
    with assms dev show ?thesis by (auto simp: ingest_mondata_def Let_def split: if_splits)
  next
    case (Inr x)
    obtain p cache where x: "x = (p, cache)" by fastforce
    obtain c st2 where c: "commit env dev (stamp dev ?model (now env) p) (st\<lparr>mem_cache := cache\<rparr>) = (c, st2)"
      by fastforce
    have q: "commit (unsinked env) dev (stamp dev ?model (now env) p)
        ((st\<lparr>mem_cache := cache\<rparr>)\<lparr>sink_state := y\<rparr>) = (c, st2\<lparr>sink_state := y\<rparr>)"
      using c by (rule commit_quiet)
    have sw: "(st\<lparr>mem_cache := cache\<rparr>)\<lparr>sink_state := y\<rparr> = st\<lparr>sink_state := y, mem_cache := cache\<rparr>"
      by simp
    have sw2: "warn_once d r m (st\<lparr>sink_state := y, mem_cache := cache\<rparr>)
        = (warn_once d r m (st\<lparr>mem_cache := cache\<rparr>))\<lparr>sink_state := y\<rparr>" for d r m
      unfolding sw [symmetric] by (rule warn_once_quiet)
    show ?thesis
      using assms q [unfolded sw] c Inr x dev
      by (cases c) (auto simp add: ingest_mondata_def Let_def sw2 split: if_splits)
  qed
qed

section \<open>The invariant of the store\<close>

lemma ingest_report_commits:
  assumes "ingest_report env r st = (Inr ps, st')" "parse_xml env (report_text r) = Inr root"
  shows "\<exists>u c. commit_all env (stripped_text root ''devId'') ps
     ((learn_model (stripped_text root ''devId'') (stripped_text root ''modelName'') st)\<lparr>mem_cache := c\<rparr>)
       = (Inr u, st')"
proof -
  let ?dev = "stripped_text root ''devId''" and ?model = "stripped_text root ''modelName''"
  let ?raw = "stripped_text root ''devType''"
  let ?dr = "decode_report env (mem_cache st) (report_text r) (Some ?model)
               (if ?raw = [] then None else py_int ?raw)"
  obtain qs c where dr: "?dr = Inr (qs, c)"
    using assms by (cases ?dr) (simp_all add: ingest_report_def Let_def, metis surj_pair)
  let ?st1 = "(learn_model ?dev ?model st)\<lparr>mem_cache := c\<rparr>"
  let ?ps = "map (stamp ?dev ?model (now env)) qs"
  obtain x st2 where ca: "commit_all env ?dev ?ps ?st1 = (x, st2)" by fastforce
  with assms dr show ?thesis
    by (cases x) (simp_all add: ingest_report_def Let_def, metis)
qed

definition payload_ok :: "str \<Rightarrow> jdict \<Rightarrow> bool" where
  "payload_ok d p \<longleftrightarrow> map_of p ''devId'' = Some (JStr d) \<and> \<not> is_unknown p"

definition store_ok :: "'s store \<Rightarrow> bool" where
  "store_ok st \<longleftrightarrow> dict_ok (latest st) \<and> (\<forall>d p. map_of (latest st) d = Some p \<longrightarrow> payload_ok d p) \<and>
     distinct (warned st) \<and> length (warnings st) = length (warned st) \<and>
     (\<forall>d m. map_of (model_by_devid st) d = Some m \<longrightarrow> d \<noteq> [] \<and> m \<noteq> [])"

lemma stamp_devid: "map_of (stamp d m ts p) ''devId'' = Some (JStr d)"
  by (simp add: stamp_def)

lemma stamp_unknown [simp]: "is_unknown (stamp d m ts p) = is_unknown p"
  by (simp add: stamp_def is_unknown_def)

lemma store_ok_commit: "commit env d p st = (r, st') \<Longrightarrow> payload_ok d p \<Longrightarrow> store_ok st \<Longrightarrow> store_ok st'"
  using commit_fields [of env d p st r st'] by (auto simp: store_ok_def)

lemma store_ok_commit_all:
  "commit_all env d ps st = (r, st') \<Longrightarrow> \<forall>p \<in> set ps. map_of p ''devId'' = Some (JStr d) \<Longrightarrow>
   store_ok st \<Longrightarrow> store_ok st'"
proof (induction env d ps st rule: commit_all.induct)
  case (2 env d p ps st)
  obtain x st1 where c: "commit env d p st = (x, st1)" by fastforce
  with 2 show ?case
    by (cases "is_unknown p"; cases x) (auto simp: payload_ok_def dest!: store_ok_commit)
qed simp

lemma store_ok_warn: "store_ok st \<Longrightarrow> store_ok (warn_once d r m st)"
  by (auto simp: store_ok_def warn_once_def)

lemma store_ok_learn: "store_ok st \<Longrightarrow> store_ok (learn_model d m st)"
  by (auto simp: store_ok_def learn_model_def)

lemma store_ok_cache [simp]: "store_ok (st\<lparr>mem_cache := c\<rparr>) = store_ok st"
  by (simp add: store_ok_def)

lemma store_ok_report: "ingest_report env r st = (res, st') \<Longrightarrow> store_ok st \<Longrightarrow> store_ok st'"
  by (auto simp: ingest_report_def Let_def store_ok_learn stamp_devid split: sum.splits prod.splits
      elim!: store_ok_commit_all)

lemma pump_payload: "decode_mondata env c blob m = Inr (p, c') \<Longrightarrow> \<not> is_unknown p"
  by (auto simp: decode_mondata_def is_unknown_def rbind_Inr_iff Let_def split: if_splits sum.splits)

lemma store_ok_mondata: "ingest_mondata env d blob st = (res, st') \<Longrightarrow> store_ok st \<Longrightarrow> store_ok st'"
  by (auto simp: ingest_mondata_def Let_def store_ok_warn payload_ok_def stamp_devid pump_payload
      split: json.splits sum.splits prod.splits if_splits elim!: store_ok_commit)

datatype event = ReportPosted report | PumpFrame json bytes

fun handle_event :: "'s state_env \<times> event \<Rightarrow> 's store \<Rightarrow> 's store" where
  "handle_event (env, ReportPosted r) st = snd (ingest_report env r st)"
| "handle_event (env, PumpFrame d b) st = snd (ingest_mondata env d b st)"

lemma store_ok_step: "store_ok st \<Longrightarrow> store_ok (handle_event e st)"
  by (cases "(e, st)" rule: handle_event.cases)
    (auto intro: store_ok_report store_ok_mondata prod.collapse [symmetric])

interpretation store_loop: event_loop handle_event store_ok "\<lambda>_. True"
  by unfold_locales (rule store_ok_step)

section \<open>Properties\<close>

definition sample_state_env :: "nat sink option \<Rightarrow> nat state_env" where
  "sample_state_env f = \<lparr>parse_xml = sample_parser, read_text = (\<lambda>p. Inl OSError),
     cache_dir = ''cache'', fixture_dir = ''fx'', now = ''2026-01-01'', append_ok = (\<lambda>l. True), on_state = f\<rparr>"

text \<open>
  Whatever reports and pump frames arrive, in whatever order and with whatever failures of
  the log file, the parser, the files or the sink, the store keeps its invariant: the payload
  under a device id is that device's and never an \<open>UNKNOWN\<close> diagnostic, no reason is warned of
  twice for a device, and only real ids map to real model names.
\<close>

lemma store_invariant:
  "store_ok (foldl (\<lambda>st e. handle_event e st) (initial_store s) es)"
  by (rule store_loop.fold_inv) (simp_all add: store_ok_def initial_store_def list_all_iff)

text \<open>
  A sink failure never breaks ingestion: with any sink, whatever it does or raises, a report
  and a pump frame return and store exactly what they would with no sink at all.
\<close>

lemma sink_isolated:
  "(\<exists>res st'. ingest_report env r st = (res, st') \<and>
      ingest_report (unsinked env) r (st\<lparr>sink_state := y\<rparr>) = (res, st'\<lparr>sink_state := y\<rparr>)) \<and>
   (\<exists>res st'. ingest_mondata env d blob st = (res, st') \<and>
      ingest_mondata (unsinked env) d blob (st\<lparr>sink_state := y\<rparr>) = (res, st'\<lparr>sink_state := y\<rparr>))"
  using ingest_report_quiet [of env r st _ _ y] ingest_mondata_quiet [of env d blob st _ _ y]
  by (metis surj_pair)

text \<open>
  A degraded pump frame (unmapped device, no modelJson, undecodable blob) is no state: it
  leaves the latest payloads, the log and the sink alone, and the same frame again changes
  nothing, not even the warnings: at 1.5 Hz the log stays silent.
\<close>

lemma degraded_frame_silent:
  assumes "ingest_mondata env d blob st = (Inr None, st')"
  shows "latest st' = latest st \<and> log_lines st' = log_lines st \<and> sink_state st' = sink_state st \<and>
     ingest_mondata env d blob st' = (Inr None, st')"
proof -
  obtain dev where d: "d = JStr dev" using assms by (cases d) (auto simp: ingest_mondata_def)
  let ?model = "case dict_get (model_by_devid st) dev of None \<Rightarrow> [] | Some m \<Rightarrow> m"
  show ?thesis
  proof (cases "?model = []")
    case True
    then show ?thesis using assms d by (auto simp: ingest_mondata_def Let_def)
  next
    case False
    then obtain p c where p: "decode_mondata env (mem_cache st) blob ?model = Inr (p, c)"
        "''monData_decoded'' \<notin> set (dict_keys p)"
      using assms d by (auto simp: ingest_mondata_def Let_def split: sum.splits prod.splits if_splits)
    obtain mj where "load_model_json env (mem_cache st) ?model (decoder_for ?model None) = Inr (mj, c)"
      using p(1) by (auto simp: decode_mondata_def model_json_for_def rbind_Inr_iff Let_def
          split: if_splits sum.splits)
    then have "load_model_json env c ?model (decoder_for ?model None)
        = load_model_json env (mem_cache st) ?model (decoder_for ?model None)"
      by (auto simp: load_model_json_def Let_def rbind_Inr_iff split: option.splits)
    then have "decode_mondata env c blob ?model = Inr (p, c)"
      using p(1) by (simp add: decode_mondata_def model_json_for_def)
    moreover have st': "st' = warn_once dev (''note:'' @ py_str (get_or p ''note'' JNull))
        (degraded_message ?model (py_str (get_or p ''note'' JNull))) (st\<lparr>mem_cache := c\<rparr>)"
      using assms d False p by (simp add: ingest_mondata_def Let_def)
    moreover have "st'\<lparr>mem_cache := c\<rparr> = st'" by (rule set_same_cache) (simp add: st')
    ultimately show ?thesis
      using d False p(2) by (simp add: ingest_mondata_def Let_def)
  qed
qed

lemma degraded_frame_silent_witness:
  "ingest_mondata (sample_state_env None) (JStr ''dev-1'') [byte_of 6]
     (snd (ingest_mondata (sample_state_env None) (JStr ''dev-1'') [byte_of 6] (initial_store 0)))
   = (Inr None, snd (ingest_mondata (sample_state_env None) (JStr ''dev-1'') [byte_of 6] (initial_store 0)))"
proof -
  let ?r = "ingest_mondata (sample_state_env None) (JStr ''dev-1'') [byte_of 6] (initial_store 0)"
  have "?r = (Inr None, snd ?r)" by (simp add: ingest_mondata_def initial_store_def)
  then show ?thesis using degraded_frame_silent by blast
qed

text \<open>
  C12. A report that is ingested stores the last of its payloads that is not a diagnostic under
  its own device, logs each of them once in order, learns the device's model, and leaves every
  other device's state alone.
\<close>

theorem report_stored:
  assumes "ingest_report env r st = (Inr ps, st')" "parse_xml env (report_text r) = Inr root"
    and "dev = stripped_text root ''devId''" "model = stripped_text root ''modelName''"
  shows "map_of (latest st') dev =
       (case filter (\<lambda>p. \<not> is_unknown p) ps of [] \<Rightarrow> map_of (latest st) dev | qs \<Rightarrow> Some (last qs)) \<and>
     log_lines st' = log_lines st @ map (\<lambda>p. dumps (JObj p) @ [CHR 10]) (filter (\<lambda>p. \<not> is_unknown p) ps) \<and>
     (\<forall>d. d \<noteq> dev \<longrightarrow> map_of (latest st') d = map_of (latest st) d) \<and>
     (dev \<noteq> [] \<longrightarrow> model \<noteq> [] \<longrightarrow> map_of (model_by_devid st') dev = Some model)"
proof -
  obtain u c where c: "commit_all env dev ps ((learn_model dev model st)\<lparr>mem_cache := c\<rparr>) = (Inr u, st')"
    using ingest_report_commits [OF assms(1,2)] unfolding assms(3,4) by blast
  show ?thesis
  proof (intro conjI)
    show "map_of (latest st') dev =
       (case filter (\<lambda>p. \<not> is_unknown p) ps of [] \<Rightarrow> map_of (latest st) dev | qs \<Rightarrow> Some (last qs))"
      using commit_all_latest [OF c] by (simp cong: list.case_cong)
    show "log_lines st' = log_lines st @ map (\<lambda>p. dumps (JObj p) @ [CHR 10]) (filter (\<lambda>p. \<not> is_unknown p) ps)"
      using commit_all_latest [OF c] by simp
    show "\<forall>d. d \<noteq> dev \<longrightarrow> map_of (latest st') d = map_of (latest st) d"
      using commit_all_fields [OF c] by simp
    show "dev \<noteq> [] \<longrightarrow> model \<noteq> [] \<longrightarrow> map_of (model_by_devid st') dev = Some model"
      using commit_all_fields [OF c] by (simp add: learn_model_def)
  qed
qed

definition sample_report :: report where
  "sample_report = RText ''<Report/>''"

theorem report_stored_witness:
  "\<exists>ps st'. ingest_report (sample_state_env None) sample_report (initial_store 0) = (Inr ps, st') \<and>
     map_of (latest st') ''dev-1'' = Some (last ps) \<and> length (log_lines st') = 1"
proof -
  let ?r = "ingest_report (sample_state_env None) sample_report (initial_store 0)"
  have "case ?r of (Inl _, _) \<Rightarrow> False | (Inr ps, _) \<Rightarrow> length ps = 1 \<and> list_all (\<lambda>p. \<not> is_unknown p) ps"
    by code_simp
  then obtain ps st' where r: "?r = (Inr ps, st')" and ps: "length ps = 1" "list_all (\<lambda>p. \<not> is_unknown p) ps"
    by (auto split: prod.splits sum.splits)
  obtain root where root: "parse_xml (sample_state_env None) (report_text sample_report) = Inr root"
    and d: "stripped_text root ''devId'' = ''dev-1''"
  proof -
    have "case parse_xml (sample_state_env None) (report_text sample_report) of Inl _ \<Rightarrow> False
      | Inr root \<Rightarrow> stripped_text root ''devId'' = ''dev-1''" by code_simp
    then show thesis using that by (auto split: sum.splits)
  qed
  have "filter (\<lambda>p. \<not> is_unknown p) ps = ps" using ps(2) by (simp add: filter_id_conv list_all_iff)
  with report_stored [OF r root d [symmetric] refl] ps(1) r show ?thesis
    by (auto simp: initial_store_def length_Suc_conv)
qed

end
