(* ===== verification/ControlChannel.thy ===== *)
theory ControlChannel
  imports Framing State
begin

text \<open>
  \<open>server/control_channel.py\<close>: the table of connected appliances, sending and querying, the handling
  of incoming messages in both modes (terminating and passthrough), one connection's life, the
  polling round and the binding of the port. Sockets are numbers; what was written to them is
  the list \<open>sent\<close>; the outcome of a write, of a handshake or of a bind is the environment. The
  locks make each access to the table one step of the model.
\<close>

section \<open>State\<close>

datatype family = Msgpack | Len4

fun encode_by :: "family \<Rightarrow> message \<Rightarrow> bytes res" where
  "encode_by Msgpack m = encode_message m"
| "encode_by Len4 m = encode_message_len4 m"

fun decode_by :: "family \<Rightarrow> bytes \<Rightarrow> message list \<times> bytes" where
  "decode_by Msgpack b = decode_messages b"
| "decode_by Len4 b = decode_messages_len4 b"

type_synonym connection = "nat \<times> family"

record 's world =
  connections :: "(json, connection) dict"
  cmd_counter :: nat
  sent :: "(nat \<times> bytes) list"
  device_store :: "'s store"

record 's chan_env = "'s state_env" +
  allow_control :: bool
  store_wired :: bool
  send_ok :: "nat \<Rightarrow> bytes \<Rightarrow> bool"

type_synonym ('s, 'a) chan_action = "'s world \<Rightarrow> 'a res \<times> 's world"

definition base_env :: "'s chan_env \<Rightarrow> 's state_env" where
  "base_env env = state_env.truncate env"

text \<open>
  A device id comes out of a message, so it is any JSON value; as a key of the table it must be
  hashable, and \<open>True\<close> is the key \<open>1\<close>. \<open>dev_id[:8]\<close> needs a string or a list.
\<close>

fun hash_key :: "json \<Rightarrow> json res" where
  "hash_key (JArr xs) = Inl TypeError"
| "hash_key (JObj ps) = Inl TypeError"
| "hash_key (JBool b) = Inr (JInt (of_bool b))"
| "hash_key v = Inr v"

fun slice8 :: "json \<Rightarrow> str res" where
  "slice8 (JStr s) = Inr (cp_take 8 s)"
| "slice8 (JArr xs) = Inr (py_repr (JArr (take 8 xs)))"
| "slice8 _ = Inl TypeError"

section \<open>The table of connections\<close>

definition register :: "json \<Rightarrow> nat \<Rightarrow> family \<Rightarrow> ('s, unit) chan_action" where
  "register dev sock fam w = (case hash_key dev of
      Inl e \<Rightarrow> (Inl e, w)
    | Inr k \<Rightarrow> (Inr (), w\<lparr>connections := dict_set (connections w) k (sock, fam)\<rparr>))"

definition drop_if :: "json \<Rightarrow> nat option \<Rightarrow> 's world \<Rightarrow> 's world" where
  "drop_if k sock w = (case dict_get (connections w) k of
      None \<Rightarrow> w
    | Some (s, _) \<Rightarrow> if sock = None \<or> sock = Some s
                    then w\<lparr>connections := dict_pop (connections w) k\<rparr> else w)"

definition unregister :: "json \<Rightarrow> nat option \<Rightarrow> ('s, unit) chan_action" where
  "unregister dev sock w = (case hash_key dev of
      Inl e \<Rightarrow> (Inl e, w)
    | Inr k \<Rightarrow> (Inr (), drop_if k sock w))"

definition devices :: "'s world \<Rightarrow> json list" where
  "devices w = dict_keys (connections w)"

section \<open>Sending\<close>

definition next_wid :: "json \<Rightarrow> ('s, str) chan_action" where
  "next_wid dev w =
     (let n = cmd_counter w + 1; w' = w\<lparr>cmd_counter := n\<rparr> in
      case slice8 dev of
        Inl e \<Rightarrow> (Inl e, w')
      | Inr d \<Rightarrow> (Inr (''n-'' @ d @ ''-'' @ nat_str n), w'))"

text \<open>A write on a socket: what the peer may have received is not tracked when it fails.\<close>

definition sendall :: "'s chan_env \<Rightarrow> nat \<Rightarrow> bytes \<Rightarrow> ('s, unit) chan_action" where
  "sendall env sock b w =
     (if send_ok env sock b then (Inr (), w\<lparr>sent := sent w @ [(sock, b)]\<rparr>) else (Inl OSError, w))"

definition push :: "'s chan_env \<Rightarrow> json \<Rightarrow> message \<Rightarrow> ('s, bool) chan_action" where
  "push env dev msg w = (case hash_key dev of
      Inl e \<Rightarrow> (Inl e, w)
    | Inr k \<Rightarrow>
        (case dict_get (connections w) k of
           None \<Rightarrow> (Inr False, w)
         | Some (sock, fam) \<Rightarrow>
             (case encode_by fam msg of
                Inl e \<Rightarrow> (Inl e, w)
              | Inr b \<Rightarrow>
                  (case sendall env sock b w of
                     (Inl e, w1) \<Rightarrow> (Inr False, drop_if k (Some sock) w1)
                   | (Inr _, w1) \<Rightarrow> (Inr True, w1)))))"

definition query_state :: "'s chan_env \<Rightarrow> json \<Rightarrow> ('s, bool) chan_action" where
  "query_state env dev w = (case next_wid dev w of
      (Inl e, w1) \<Rightarrow> (Inl e, w1)
    | (Inr wid, w1) \<Rightarrow> push env dev (mon_start_message dev (JStr wid)) w1)"

definition send_command :: "'s chan_env \<Rightarrow> json \<Rightarrow> json \<Rightarrow> json \<Rightarrow> json \<Rightarrow> ('s, bool) chan_action" where
  "send_command env dev val cmd cmd_opt w =
     (if \<not> allow_control env then (Inr False, w)
      else case next_wid dev w of
          (Inl e, w1) \<Rightarrow> (Inl e, w1)
        | (Inr wid, w1) \<Rightarrow>
            push env dev (make_message dev (JStr wid)
              [(''Cmd'', cmd), (''CmdOpt'', cmd_opt), (''Value'', val), (''Data'', JStr [])]) w1)"

section \<open>Incoming messages\<close>

definition ingest_blob :: "'s chan_env \<Rightarrow> json \<Rightarrow> bytes \<Rightarrow> ('s, unit) chan_action" where
  "ingest_blob env dev blob w =
     (if blob = [] then (Inr (), w)
      else case slice8 dev of
          Inl e \<Rightarrow> (Inl e, w)
        | Inr _ \<Rightarrow>
            if store_wired env then
              (case ingest_mondata (base_env env) dev blob (device_store w) of
                 (Inl e, st) \<Rightarrow> (Inl e, w\<lparr>device_store := st\<rparr>)
               | (Inr _, st) \<Rightarrow> (Inr (), w\<lparr>device_store := st\<rparr>))
            else (Inr (), w))"

definition b64_of :: "json \<Rightarrow> bytes option" where
  "b64_of v = (case v of JStr s \<Rightarrow> b64decode s | _ \<Rightarrow> None)"

text \<open>The snapshot branch of \<open>handle_incoming\<close>: an undecodable \<open>Data\<close> is logged, with \<open>dev_id[:8]\<close>.\<close>

definition handle_snapshot :: "'s chan_env \<Rightarrow> json \<Rightarrow> jdict \<Rightarrow> ('s, unit) chan_action" where
  "handle_snapshot env dev body w = (case b64_of (get_or body ''Data'' (JStr [])) of
      None \<Rightarrow> (rbind (slice8 dev) (\<lambda>_. Inr ()), w)
    | Some blob \<Rightarrow> ingest_blob env dev blob w)"

definition ack_message :: "json \<Rightarrow> json \<Rightarrow> message" where
  "ack_message dev wid = make_message dev wid [(''ReturnCode'', JStr ''0000'')]"

definition is_acked :: "json \<Rightarrow> json \<Rightarrow> bool" where
  "is_acked cmd opt \<longleftrightarrow> cmd = JStr ''DevInfo'' \<or> cmd = JStr ''Alive'' \<or>
     cmd = JStr ''Mon'' \<and> (opt = JStr ''Start'' \<or> opt = JStr ''Stop'')"

definition handle_incoming ::
  "'s chan_env \<Rightarrow> json \<Rightarrow> message \<Rightarrow> family \<Rightarrow> ('s, bytes option) chan_action" where
  "handle_incoming env dev msg fam w = (case get_or msg ''Body'' (JObj []) of
      JObj body \<Rightarrow>
        (let cmd = get_or body ''Cmd'' (JStr []);
             wid = get_or body ''CmdWId'' (JStr []);
             opt = get_or body ''CmdOpt'' (JStr []) in
         if is_acked cmd opt then (rbind (encode_by fam (ack_message dev wid)) (\<lambda>b. Inr (Some b)), w)
         else if dict_get body ''Format'' = Some (JStr ''B64'') then
           (case handle_snapshot env dev body w of
              (Inl e, w1) \<Rightarrow> (Inl e, w1)
            | (Inr _, w1) \<Rightarrow> (Inr None, w1))
         else (rbind (slice8 dev) (\<lambda>_. Inr None), w))
    | _ \<Rightarrow> (Inl AttributeError, w))"

section \<open>One connection\<close>

fun respond :: "'s chan_env \<Rightarrow> nat \<Rightarrow> bytes option \<Rightarrow> ('s, unit) chan_action" where
  "respond env sock None w = (Inr (), w)"
| "respond env sock (Some b) w = (if b = [] then (Inr (), w) else sendall env sock b w)"

definition announce :: "'s chan_env \<Rightarrow> nat \<Rightarrow> family \<Rightarrow> json \<Rightarrow> message \<Rightarrow> ('s, unit) chan_action" where
  "announce env sock fam dev msg w =
     (case rbind (json_get (get_or msg ''Body'' (JObj [])) ''Cmd'' JNull) (\<lambda>c.
             if c \<noteq> JStr ''DevInfo'' then Inr None
             else rbind (slice8 dev) (\<lambda>d.
                  rbind (encode_by fam (mon_start_message dev (JStr (''n-'' @ d @ ''-mon''))))
                    (\<lambda>b. Inr (Some b)))) of
        Inl e \<Rightarrow> (Inl e, w)
      | Inr None \<Rightarrow> (Inr (), w)
      | Inr (Some b) \<Rightarrow> sendall env sock b w)"

text \<open>One message of the loop. The device id is kept also when the rest raises.\<close>

definition handle_message ::
  "'s chan_env \<Rightarrow> nat \<Rightarrow> family \<Rightarrow> json \<Rightarrow> message \<Rightarrow> 's world \<Rightarrow> json \<times> unit res \<times> 's world" where
  "handle_message env sock fam dev msg w =
     (case json_get (get_or msg ''Header'' (JObj [])) ''x-lgedm-deviceId'' dev of
        Inl e \<Rightarrow> (dev, Inl e, w)
      | Inr dev' \<Rightarrow>
          (dev', (case register dev' sock fam w of
             (Inl e, w1) \<Rightarrow> (Inl e, w1)
           | (Inr _, w1) \<Rightarrow>
               (case handle_incoming env dev' msg fam w1 of
                  (Inl e, w2) \<Rightarrow> (Inl e, w2)
                | (Inr response, w2) \<Rightarrow>
                    (case respond env sock response w2 of
                       (Inl e, w3) \<Rightarrow> (Inl e, w3)
                     | (Inr _, w3) \<Rightarrow> announce env sock fam dev' msg w3)))))"

fun handle_messages ::
  "'s chan_env \<Rightarrow> nat \<Rightarrow> family \<Rightarrow> json \<Rightarrow> message list \<Rightarrow> 's world \<Rightarrow> json \<times> unit res \<times> 's world" where
  "handle_messages env sock fam dev [] w = (dev, Inr (), w)"
| "handle_messages env sock fam dev (m # ms) w = (case handle_message env sock fam dev m w of
      (dev', Inl e, w1) \<Rightarrow> (dev', Inl e, w1)
    | (dev', Inr _, w1) \<Rightarrow> handle_messages env sock fam dev' ms w1)"

text \<open>
  The receive loop over the outcomes of \<open>recv\<close>; an empty chunk is the end of the stream, and so
  is the end of the list, as far as the model runs.
\<close>

datatype recv = Data bytes | RecvError

fun receive_loop ::
  "'s chan_env \<Rightarrow> nat \<Rightarrow> family \<Rightarrow> json \<Rightarrow> bytes \<Rightarrow> recv list \<Rightarrow> 's world \<Rightarrow> json \<times> unit res \<times> 's world" where
  "receive_loop env sock fam dev buf [] w = (dev, Inr (), w)"
| "receive_loop env sock fam dev buf (RecvError # rs) w = (dev, Inl OSError, w)"
| "receive_loop env sock fam dev buf (Data d # rs) w =
     (if d = [] then (dev, Inr (), w)
      else let (msgs, buf') = decode_by fam (buf @ d) in
        (case handle_messages env sock fam dev msgs w of
           (dev', Inl e, w1) \<Rightarrow> (dev', Inl e, w1)
         | (dev', Inr _, w1) \<Rightarrow> receive_loop env sock fam dev' buf' rs w1))"

text \<open>
  \<open>except OSError\<close> ends the connection quietly; \<open>finally\<close> unregisters the last device id; another
  exception leaves the handler.
\<close>

definition close_connection :: "nat \<Rightarrow> json \<times> unit res \<times> 's world \<Rightarrow> unit res \<times> 's world" where
  "close_connection sock r = (case r of (dev, out, w) \<Rightarrow>
     let out' = (if out = Inl OSError then Inr () else out) in
     if dev = JStr ''unknown'' then (out', w)
     else (case unregister dev (Some sock) w of
             (Inl e, w1) \<Rightarrow> (Inl e, w1)
           | (Inr _, w1) \<Rightarrow> (case slice8 dev of Inl e \<Rightarrow> (Inl e, w1) | Inr _ \<Rightarrow> (out', w1))))"

section \<open>Passthrough\<close>

record observer =
  seen_dev :: json
  seen_buf :: bytes

definition ingest_snapshot :: "'s chan_env \<Rightarrow> json \<Rightarrow> json \<Rightarrow> ('s, unit) chan_action" where
  "ingest_snapshot env dev data w = (case b64_of data of
      None \<Rightarrow> (rbind (slice8 dev) (\<lambda>_. Inr ()), w)
    | Some blob \<Rightarrow> ingest_blob env dev blob w)"

definition is_pump_body :: "jdict \<Rightarrow> bool" where
  "is_pump_body body \<longleftrightarrow> dict_get body ''Format'' = Some (JStr ''B64'') \<and>
     ''Data'' \<in> set (dict_keys body) \<and> ''Cmd'' \<notin> set (dict_keys body)"

definition observe_message ::
  "'s chan_env \<Rightarrow> json \<Rightarrow> message \<Rightarrow> 's world \<Rightarrow> json \<times> unit res \<times> 's world" where
  "observe_message env dev msg w =
     (case json_get (get_or msg ''Header'' (JObj [])) ''x-lgedm-deviceId'' JNull of
        Inl e \<Rightarrow> (dev, Inl e, w)
      | Inr d \<Rightarrow>
          let dev' = (if truthy d then d else dev) in
          (dev', (case get_or msg ''Body'' (JObj []) of
             JObj body \<Rightarrow>
               if is_pump_body body \<and> truthy dev'
               then ingest_snapshot env dev' (get_or body ''Data'' JNull) w
               else (Inr (), w)
           | _ \<Rightarrow> (Inl AttributeError, w))))"

fun observe_messages ::
  "'s chan_env \<Rightarrow> json \<Rightarrow> message list \<Rightarrow> 's world \<Rightarrow> json \<times> unit res \<times> 's world" where
  "observe_messages env dev [] w = (dev, Inr (), w)"
| "observe_messages env dev (m # ms) w = (case observe_message env dev m w of
      (dev', Inl e, w1) \<Rightarrow> (dev', Inl e, w1)
    | (dev', Inr _, w1) \<Rightarrow> observe_messages env dev' ms w1)"

text \<open>The observer of one chunk; the bridge swallows what it raises.\<close>

definition observe :: "'s chan_env \<Rightarrow> bytes \<Rightarrow> observer \<times> 's world \<Rightarrow> observer \<times> 's world" where
  "observe env chunk s = (case s of (ob, w) \<Rightarrow>
     let (msgs, rest) = decode_messages_len4 (seen_buf ob @ chunk) in
     (case observe_messages env (seen_dev ob) msgs w of
        (dev, _, w1) \<Rightarrow> (\<lparr>seen_dev = dev, seen_buf = rest\<rparr>, w1)))"

text \<open>The chunks the bridge shows the observer: up to an error or an empty read.\<close>

fun observe_stream :: "'s chan_env \<Rightarrow> recv list \<Rightarrow> observer \<times> 's world \<Rightarrow> observer \<times> 's world" where
  "observe_stream env [] s = s"
| "observe_stream env (RecvError # rs) s = s"
| "observe_stream env (Data d # rs) s = (if d = [] then s else observe_stream env rs (observe env d s))"

section \<open>The handler\<close>

record conn_env =
  passthrough :: bool
  upstream_ok :: bool
  tls_ok :: bool

definition serve :: "'s chan_env \<Rightarrow> nat \<Rightarrow> family \<Rightarrow> recv list \<Rightarrow> ('s, unit) chan_action" where
  "serve env sock fam rs w =
     close_connection sock (receive_loop env sock fam (JStr ''unknown'') [] rs w)"

definition handle :: "'s chan_env \<Rightarrow> conn_env \<Rightarrow> nat \<Rightarrow> bytes \<Rightarrow> recv list \<Rightarrow> ('s, unit) chan_action" where
  "handle env ce sock first rs w = (case first of
      [] \<Rightarrow> (Inr (), w)
    | b # _ \<Rightarrow>
        if code b = (22::nat) then
          if passthrough ce \<and> upstream_ok ce then
            (Inr (), snd (observe_stream env rs (\<lparr>seen_dev = JNull, seen_buf = []\<rparr>, w)))
          else if tls_ok ce then serve env sock Len4 rs w
          else (Inr (), w)
        else serve env sock Msgpack rs w)"

section \<open>Polling\<close>

text \<open>One round: an exception ends the round, never the loop.\<close>

fun poll_devices :: "'s chan_env \<Rightarrow> json list \<Rightarrow> 's world \<Rightarrow> 's world" where
  "poll_devices env [] w = w"
| "poll_devices env (d # ds) w = (case query_state env d w of
      (Inl e, w1) \<Rightarrow> w1
    | (Inr _, w1) \<Rightarrow> poll_devices env ds w1)"

definition poll_round :: "'s chan_env \<Rightarrow> 's world \<Rightarrow> 's world" where
  "poll_round env w = poll_devices env (devices w) w"

section \<open>Binding the port\<close>

text \<open>
  The outcomes of the successive binds are given; \<open>start_control_server\<close> tries at most \<open>retries\<close>
  times, then the re-arm thread takes over.
\<close>

record listener =
  serving :: bool
  rearm_active :: bool

fun try_bind :: "nat \<Rightarrow> bool list \<Rightarrow> bool \<times> bool list" where
  "try_bind 0 outs = (False, outs)"
| "try_bind (Suc n) [] = (False, [])"
| "try_bind (Suc n) (ok # outs) = (if ok then (True, outs) else try_bind n outs)"

fun rearm :: "bool list \<Rightarrow> listener \<Rightarrow> listener" where
  "rearm [] l = l"
| "rearm (ok # outs) l = (if ok then \<lparr>serving = True, rearm_active = False\<rparr> else rearm outs l)"

definition start_control_server :: "nat \<Rightarrow> bool list \<Rightarrow> listener" where
  "start_control_server retries outs = (case try_bind retries outs of
      (True, _) \<Rightarrow> \<lparr>serving = True, rearm_active = False\<rparr>
    | (False, rest) \<Rightarrow> rearm rest \<lparr>serving = False, rearm_active = True\<rparr>)"

section \<open>What an operation can send\<close>

definition cloud_message :: "message \<Rightarrow> bool" where
  "cloud_message m \<longleftrightarrow> (\<exists>dev wid. m = ack_message dev wid \<or> m = mon_start_message dev wid)"

definition cloud_frame :: "bytes \<Rightarrow> bool" where
  "cloud_frame b \<longleftrightarrow> (\<exists>fam m. encode_by fam m = Inr b \<and> cloud_message m)"

lemma cloud_frameI: "encode_by fam m = Inr b \<Longrightarrow> cloud_message m \<Longrightarrow> cloud_frame b"
  by (auto simp: cloud_frame_def)

lemma cloud_messages [simp]: "cloud_message (ack_message dev wid)" "cloud_message (mon_start_message dev wid)"
  by (auto simp: cloud_message_def)

text \<open>\<open>read_only w w'\<close>: between the two nothing but acks and \<open>Mon Start\<close> was sent.\<close>

definition read_only :: "'s world \<Rightarrow> 's world \<Rightarrow> bool" where
  "read_only w w' \<longleftrightarrow> (\<exists>new. sent w' = sent w @ new \<and> (\<forall>(s, b) \<in> set new. cloud_frame b))"

lemma read_only_refl [simp, intro]: "read_only w w"
  by (simp add: read_only_def)

lemma read_only_trans: "read_only w w1 \<Longrightarrow> read_only w1 w2 \<Longrightarrow> read_only w w2"
  by (auto simp: read_only_def)

lemma read_only_same: "sent w' = sent w \<Longrightarrow> read_only w w'"
  by (simp add: read_only_def)

lemma drop_if_sent [simp]:
  "sent (drop_if k s w) = sent w" "cmd_counter (drop_if k s w) = cmd_counter w"
  "device_store (drop_if k s w) = device_store w"
  by (auto simp: drop_if_def split: option.splits)

lemma register_fields:
  assumes "register dev sock fam w = (r, w')"
  shows "sent w' = sent w" "cmd_counter w' = cmd_counter w" "device_store w' = device_store w"
  using assms by (auto simp: register_def split: sum.splits)

lemma unregister_fields:
  assumes "unregister dev sock w = (r, w')"
  shows "sent w' = sent w" "cmd_counter w' = cmd_counter w" "device_store w' = device_store w"
  using assms by (auto simp: unregister_def split: sum.splits)

lemma ingest_blob_fields:
  assumes "ingest_blob env dev blob w = (r, w')"
  shows "sent w' = sent w" "connections w' = connections w" "cmd_counter w' = cmd_counter w"
  using assms by (auto simp: ingest_blob_def split: if_splits sum.splits prod.splits)

lemma handle_incoming_fields:
  assumes "handle_incoming env dev msg fam w = (r, w')"
  shows "sent w' = sent w" "connections w' = connections w" "cmd_counter w' = cmd_counter w"
  using assms ingest_blob_fields
  by (auto simp: handle_incoming_def handle_snapshot_def Let_def
      split: json.splits if_splits option.splits prod.splits sum.splits)

lemma handle_incoming_response:
  "handle_incoming env dev msg fam w = (Inr (Some b), w') \<Longrightarrow> cloud_frame b"
  by (auto simp: handle_incoming_def Let_def rbind_Inr_iff intro: cloud_frameI
      split: json.splits if_splits prod.splits sum.splits)

lemma sendall_read_only: "sendall env sock b w = (r, w') \<Longrightarrow> cloud_frame b \<Longrightarrow> read_only w w'"
  by (auto simp: sendall_def read_only_def split: if_splits)

lemma sendall_fields:
  assumes "sendall env sock b w = (r, w')"
  shows "connections w' = connections w" "device_store w' = device_store w"
    "r = Inl e \<Longrightarrow> e = OSError \<and> w' = w"
  using assms by (auto simp: sendall_def split: if_splits)

lemma respond_read_only:
  "respond env sock r w = (x, w') \<Longrightarrow> (\<And>b. r = Some b \<Longrightarrow> cloud_frame b) \<Longrightarrow> read_only w w'"
  by (cases r) (auto split: if_splits intro: sendall_read_only)

lemma respond_fields:
  assumes "respond env sock r w = (x, w')"
  shows "connections w' = connections w" "device_store w' = device_store w"
  using assms by (cases r; auto simp: sendall_def split: if_splits)+

lemma announce_read_only: "announce env sock fam dev msg w = (r, w') \<Longrightarrow> read_only w w'"
  by (auto simp: announce_def rbind_Inr_iff split: sum.splits option.splits if_splits
      elim!: sendall_read_only intro: cloud_frameI)

lemma announce_fields:
  assumes "announce env sock fam dev msg w = (r, w')"
  shows "connections w' = connections w" "device_store w' = device_store w"
  using assms by (auto simp: announce_def sendall_def split: sum.splits option.splits if_splits)

lemma handle_message_read_only: "handle_message env sock fam dev m w = (d, r, w') \<Longrightarrow> read_only w w'"
proof -
  assume h: "handle_message env sock fam dev m w = (d, r, w')"
  show ?thesis
  proof (cases "json_get (get_or m ''Header'' (JObj [])) ''x-lgedm-deviceId'' dev")
    case (Inl e)
    with h show ?thesis by (auto simp: handle_message_def)
  next
    case (Inr d1)
    obtain r1 w1 where 1: "register d1 sock fam w = (r1, w1)" by fastforce
    obtain r2 w2 where 2: "handle_incoming env d1 m fam w1 = (r2, w2)" by fastforce
    have w2: "r1 = Inr u \<Longrightarrow> read_only w w2" for u
      using register_fields [OF 1] handle_incoming_fields [OF 2] by (intro read_only_same) simp
    show ?thesis
    proof (cases r2)
      case (Inl e)
      with h Inr 1 2 w2 register_fields [OF 1] show ?thesis
        by (cases r1) (auto simp: handle_message_def intro: read_only_same)
    next
      case (Inr resp)
      obtain r3 w3 where 3: "respond env sock resp w2 = (r3, w3)" by fastforce
      obtain r4 w4 where 4: "announce env sock fam d1 m w3 = (r4, w4)" by fastforce
      have "read_only w2 w3"
        using 3 by (rule respond_read_only) (use 2 Inr handle_incoming_response in blast)
      moreover have "read_only w3 w4" using 4 by (rule announce_read_only)
      ultimately show ?thesis
        using h \<open>json_get _ _ _ = Inr d1\<close> 1 2 3 4 Inr w2 register_fields [OF 1]
        by (cases r1; cases r3) (auto simp: handle_message_def intro: read_only_same read_only_trans)
    qed
  qed
qed

lemma handle_messages_read_only: "handle_messages env sock fam dev ms w = (d, r, w') \<Longrightarrow> read_only w w'"
proof (induction env sock fam dev ms w rule: handle_messages.induct)
  case (2 env sock fam dev m ms w)
  obtain d1 r1 w1 where 1: "handle_message env sock fam dev m w = (d1, r1, w1)" by (cases rule: prod_cases3)
  from handle_message_read_only [OF this] 2 1 show ?case
    by (cases r1) (auto intro: read_only_trans)
qed simp

lemma receive_loop_read_only: "receive_loop env sock fam dev buf rs w = (d, r, w') \<Longrightarrow> read_only w w'"
proof (induction env sock fam dev buf rs w rule: receive_loop.induct)
  case (3 env sock fam dev buf c rs w)
  obtain ms buf' where dec: "decode_by fam (buf @ c) = (ms, buf')" by fastforce
  obtain d1 r1 w1 where 1: "handle_messages env sock fam dev ms w = (d1, r1, w1)" by (cases rule: prod_cases3)
  from handle_messages_read_only [OF this] 3 dec 1 show ?case
    by (cases r1) (auto split: if_splits intro: read_only_trans)
qed simp_all

lemma close_connection_sent: "sent (snd (close_connection sock (d, r, w))) = sent w"
  by (auto simp: close_connection_def Let_def split: prod.splits sum.splits dest: unregister_fields(1))

lemma serve_read_only: "read_only w (snd (serve env sock fam rs w))"
proof -
  obtain d r w1 where l: "receive_loop env sock fam (JStr ''unknown'') [] rs w = (d, r, w1)"
    by (cases rule: prod_cases3)
  then have "sent (snd (serve env sock fam rs w)) = sent w1"
    by (simp add: serve_def close_connection_sent)
  with receive_loop_read_only [OF l] show ?thesis by (simp add: read_only_def)
qed

lemma ingest_snapshot_sent: "ingest_snapshot env dev data w = (r, w') \<Longrightarrow> sent w' = sent w"
  by (auto simp: ingest_snapshot_def dest: ingest_blob_fields(1) split: option.splits)

lemma observe_message_sent: "observe_message env dev m w = (d, r, w') \<Longrightarrow> sent w' = sent w"
  by (auto simp: observe_message_def Let_def dest: ingest_snapshot_sent
      split: sum.splits json.splits if_splits)

lemma observe_messages_sent: "observe_messages env dev ms w = (d, r, w') \<Longrightarrow> sent w' = sent w"
proof (induction env dev ms w rule: observe_messages.induct)
  case (2 env dev m ms w)
  obtain d1 r1 w1 where 1: "observe_message env dev m w = (d1, r1, w1)" by (cases rule: prod_cases3)
  from observe_message_sent [OF this] 2 1 show ?case by (cases r1) auto
qed simp

lemma observe_sent: "sent (snd (observe env chunk s)) = sent (snd s)"
  by (auto simp: observe_def Let_def dest: observe_messages_sent split: prod.splits)

lemma observe_stream_sent: "sent (snd (observe_stream env rs s)) = sent (snd s)"
  by (induction env rs s rule: observe_stream.induct) (simp_all add: observe_sent)

lemma handle_read_only: "read_only w (snd (handle env ce sock first rs w))"
  by (auto simp: handle_def observe_stream_sent intro: read_only_same serve_read_only split: list.splits)

lemma push_read_only: "push env dev m w = (r, w') \<Longrightarrow> cloud_message m \<Longrightarrow> read_only w w'"
  by (auto simp: push_def read_only_def sendall_def intro: cloud_frameI
      split: sum.splits option.splits prod.splits if_splits)

lemma next_wid_fields:
  assumes "next_wid dev w = (r, w')"
  shows "sent w' = sent w" "connections w' = connections w" "device_store w' = device_store w"
    "cmd_counter w' = Suc (cmd_counter w)"
  using assms by (auto simp: next_wid_def Let_def split: sum.splits)

lemma query_state_read_only: "query_state env dev w = (r, w') \<Longrightarrow> read_only w w'"
proof -
  assume q: "query_state env dev w = (r, w')"
  obtain x w1 where 1: "next_wid dev w = (x, w1)" by fastforce
  have "read_only w w1" using next_wid_fields(1) [OF 1] by (rule read_only_same)
  moreover have "read_only w1 w'" if "push env dev (mon_start_message dev (JStr i)) w1 = (r, w')" for i
    using that by (rule push_read_only) simp
  ultimately show ?thesis
    using q 1 by (cases x) (auto simp: query_state_def intro: read_only_trans)
qed

lemma poll_devices_read_only: "read_only w (poll_devices env ds w)"
proof (induction env ds w rule: poll_devices.induct)
  case (2 env d ds w)
  obtain x w1 where 1: "query_state env d w = (x, w1)" by fastforce
  from query_state_read_only [OF this] 2 1 show ?case
    by (cases x) (auto intro: read_only_trans)
qed simp

section \<open>What a push and a command write\<close>

lemma push_writes:
  assumes "push env dev m w = (r, w')"
  shows "sent w' = sent w \<or> (\<exists>k sock fam b. hash_key dev = Inr k \<and> map_of (connections w) k = Some (sock, fam) \<and>
    encode_by fam m = Inr b \<and> sent w' = sent w @ [(sock, b)])"
  using assms
  by (auto simp: push_def sendall_def drop_if_def split: sum.splits option.splits prod.splits if_splits)

lemma send_command_writes:
  assumes "send_command env dev val cmd opt w = (r, w')"
  shows "sent w' = sent w \<or> allow_control env \<and> (\<exists>k sock fam wid b. hash_key dev = Inr k \<and>
    map_of (connections w) k = Some (sock, fam) \<and>
    encode_by fam (make_message dev (JStr wid) [(''Cmd'', cmd), (''CmdOpt'', opt), (''Value'', val), (''Data'', JStr [])]) = Inr b \<and>
    sent w' = sent w @ [(sock, b)])"
proof (cases "allow_control env")
  case True
  obtain r1 w1 where n: "next_wid dev w = (r1, w1)" by fastforce
  then have w1: "sent w1 = sent w" "connections w1 = connections w"
    by (auto simp: next_wid_def Let_def split: sum.splits)
  show ?thesis
  proof (cases r1)
    case (Inr wid)
    with assms n True have "push env dev (make_message dev (JStr wid)
        [(''Cmd'', cmd), (''CmdOpt'', opt), (''Value'', val), (''Data'', JStr [])]) w1 = (r, w')"
      by (simp add: send_command_def)
    from push_writes [OF this] w1 True show ?thesis by auto
  qed (use assms n True w1 in \<open>simp add: send_command_def\<close>)
qed (use assms in \<open>simp add: send_command_def\<close>)

section \<open>The loop over chunks is the loop over messages\<close>

fun bind_loop :: "json \<times> unit res \<times> 'w \<Rightarrow> (json \<Rightarrow> 'w \<Rightarrow> json \<times> unit res \<times> 'w) \<Rightarrow> json \<times> unit res \<times> 'w" where
  "bind_loop (d, Inl e, w) k = (d, Inl e, w)"
| "bind_loop (d, Inr u, w) k = k d w"

lemma bind_loop_assoc: "bind_loop (bind_loop r k) l = bind_loop r (\<lambda>d w. bind_loop (k d w) l)"
  by (cases "(r, k)" rule: bind_loop.cases) simp_all

lemma handle_messages_append:
  "handle_messages env sock fam dev (xs @ ys) w =
     bind_loop (handle_messages env sock fam dev xs w) (\<lambda>d w'. handle_messages env sock fam d ys w')"
proof (induction xs arbitrary: dev w)
  case (Cons m xs)
  obtain d r w1 where "handle_message env sock fam dev m w = (d, r, w1)" by (cases rule: prod_cases3)
  with Cons show ?case by (cases r) simp_all
qed simp

lemma receive_loop_messages:
  "[] \<notin> set cs \<Longrightarrow>
   receive_loop env sock fam dev buf (map Data cs) w =
     handle_messages env sock fam dev (fst (reassemble (decode_by fam) buf cs)) w"
proof (induction cs arbitrary: dev buf w)
  case (Cons c cs)
  obtain ms rest where dec: "decode_by fam (buf @ c) = (ms, rest)" by fastforce
  obtain d r w1 where h: "handle_messages env sock fam dev ms w = (d, r, w1)" by (cases rule: prod_cases3)
  have "c \<noteq> []" using Cons.prems by auto
  then show ?case
    using Cons dec h by (cases r) (simp_all add: handle_messages_append)
qed simp

lemma observe_messages_append:
  "observe_messages env dev (xs @ ys) w =
     bind_loop (observe_messages env dev xs w) (\<lambda>d w'. observe_messages env d ys w')"
proof (induction xs arbitrary: dev w)
  case (Cons m xs)
  obtain d r w1 where "observe_message env dev m w = (d, r, w1)" by (cases rule: prod_cases3)
  with Cons show ?case by (cases r) simp_all
qed simp

section \<open>The table under interleaving\<close>

text \<open>
  The atomic steps other threads make on the table: a registration, a handler's cleanup, the
  cleanup after a failed send (with the socket that was read before the send).
\<close>

datatype table_op = Register json nat family | Unregister json "nat option" | SendFailed json nat

inductive table_step :: "table_op \<Rightarrow> 's world \<Rightarrow> 's world \<Rightarrow> bool" where
  reg: "register d s f w = (r, w') \<Longrightarrow> table_step (Register d s f) w w'"
| unreg: "unregister d s w = (r, w') \<Longrightarrow> table_step (Unregister d s) w w'"
| failed: "hash_key d = Inr k \<Longrightarrow> table_step (SendFailed d s) w (drop_if k (Some s) w)"

inductive_cases table_stepE: "table_step op w w'"

text \<open>A step that cannot be about the live registration of \<open>k\<close> on socket \<open>s\<close>.\<close>

fun stale_for :: "json \<Rightarrow> nat \<Rightarrow> table_op \<Rightarrow> bool" where
  "stale_for k s (Register d s' f) = (hash_key d \<noteq> Inr k)"
| "stale_for k s (Unregister d s') = (hash_key d \<noteq> Inr k \<or> (s' \<noteq> None \<and> s' \<noteq> Some s))"
| "stale_for k s (SendFailed d s') = (hash_key d \<noteq> Inr k \<or> s' \<noteq> s)"

inductive table_run :: "table_op list \<Rightarrow> 's world \<Rightarrow> 's world \<Rightarrow> bool" where
  run_Nil: "table_run [] w w"
| run_Cons: "table_step op w w1 \<Longrightarrow> table_run ops w1 w2 \<Longrightarrow> table_run (op # ops) w w2"

lemma drop_if_get:
  "map_of (connections (drop_if k s w)) k' =
     (if k' = k \<and> (\<exists>s' f. map_of (connections w) k = Some (s', f) \<and> (s = None \<or> s = Some s')) then None
      else map_of (connections w) k')"
  by (auto simp: drop_if_def split: option.splits)

lemma stale_step_keeps:
  "table_step op w w' \<Longrightarrow> stale_for k s op \<Longrightarrow> map_of (connections w) k = Some (s, f) \<Longrightarrow>
   map_of (connections w') k = Some (s, f)"
  by (cases rule: table_step.cases, assumption)
    (auto simp: register_def unregister_def drop_if_get split: sum.splits if_splits)

lemma stale_run_keeps:
  "table_run ops w w' \<Longrightarrow> list_all (stale_for k s) ops \<Longrightarrow> map_of (connections w) k = Some (s, f) \<Longrightarrow>
   map_of (connections w') k = Some (s, f)"
  by (induction rule: table_run.induct) (auto dest: stale_step_keeps)

section \<open>Message ids\<close>

fun mint :: "json list \<Rightarrow> 's world \<Rightarrow> str list" where
  "mint [] w = []"
| "mint (d # ds) w = (case next_wid d w of
      (Inl e, w1) \<Rightarrow> mint ds w1
    | (Inr i, w1) \<Rightarrow> i # mint ds w1)"

lemma wid_number:
  "''n-'' @ a @ ''-'' @ nat_str m = ''n-'' @ b @ ''-'' @ nat_str n \<Longrightarrow> m = n"
proof -
  have tw: "takeWhile is_digit (rev (''n-'' @ a @ ''-'' @ nat_str m)) = rev (nat_str m)" for a m
  proof -
    have "takeWhile is_digit (rev (nat_str m) @ rev (''n-'' @ a @ ''-'')) = rev (nat_str m)"
      using nat_str_digits by (subst takeWhile_append2) (auto simp: is_digit_def)
    then show ?thesis by simp
  qed
  assume "''n-'' @ a @ ''-'' @ nat_str m = ''n-'' @ b @ ''-'' @ nat_str n"
  then have "rev (nat_str m) = rev (nat_str n)" using tw by metis
  then show "m = n" by simp
qed

lemma mint_form:
  "i \<in> set (mint ds w) \<Longrightarrow> \<exists>d n. i = ''n-'' @ d @ ''-'' @ nat_str n \<and> cmd_counter w < n"
proof (induction ds arbitrary: w)
  case (Cons d ds)
  obtain r w1 where 1: "next_wid d w = (r, w1)" by fastforce
  note f = next_wid_fields(4) [OF 1]
  show ?case
  proof (cases "i \<in> set (mint ds w1)")
    case True
    with Cons.IH [of w1] f show ?thesis by (metis Suc_lessD)
  next
    case False
    with Cons.prems 1 have "r = Inr i" by (cases r) auto
    with 1 show ?thesis by (auto simp: next_wid_def Let_def split: sum.splits)
  qed
qed simp

lemma mint_distinct: "distinct (mint ds w)"
proof (induction ds arbitrary: w)
  case (Cons d ds)
  obtain r w1 where 1: "next_wid d w = (r, w1)" by fastforce
  show ?case
  proof (cases r)
    case (Inl e)
    with 1 Cons show ?thesis by simp
  next
    case (Inr i)
    with 1 obtain s where i: "i = ''n-'' @ s @ ''-'' @ nat_str (Suc (cmd_counter w))"
      by (auto simp: next_wid_def Let_def split: sum.splits)
    have "i \<notin> set (mint ds w1)"
    proof
      assume "i \<in> set (mint ds w1)"
      then obtain d' n where n: "i = ''n-'' @ d' @ ''-'' @ nat_str n" "cmd_counter w1 < n"
        using mint_form by blast
      with i have "n = Suc (cmd_counter w)" by (metis wid_number)
      with n(2) next_wid_fields(4) [OF 1] show False by simp
    qed
    with 1 Inr Cons show ?thesis by simp
  qed
qed simp

section \<open>The two modes ingest alike\<close>

definition device_of :: "message \<Rightarrow> str option" where
  "device_of m = (case get_or m ''Header'' (JObj []) of
      JObj h \<Rightarrow> (case dict_get h ''x-lgedm-deviceId'' of Some (JStr d) \<Rightarrow> Some d | _ \<Rightarrow> None)
    | _ \<Rightarrow> None)"

definition is_pump :: "message \<Rightarrow> bool" where
  "is_pump m \<longleftrightarrow> (\<exists>body. get_or m ''Body'' (JObj []) = JObj body \<and> is_pump_body body) \<and>
     (\<exists>d. device_of m = Some d \<and> d \<noteq> [])"

lemma device_of_get:
  "device_of m = Some d \<Longrightarrow> json_get (get_or m ''Header'' (JObj [])) ''x-lgedm-deviceId'' x = Inr (JStr d)"
  by (auto simp: device_of_def split: json.splits option.splits)

lemma ingest_blob_store:
  assumes "ingest_blob env dev blob w = (r, w')" "device_store w = device_store v"
  shows "\<exists>v'. ingest_blob env dev blob v = (r, v') \<and> device_store w' = device_store v'"
  using assms by (auto simp: ingest_blob_def split: if_splits sum.splits prod.splits)

lemma ingest_snapshot_store:
  assumes "ingest_snapshot env dev data w = (r, w')" "device_store w = device_store v"
  shows "\<exists>v'. ingest_snapshot env dev data v = (r, v') \<and> device_store w' = device_store v'"
  using assms ingest_blob_store by (fastforce simp: ingest_snapshot_def split: option.splits)

lemma register_string:
  "register (JStr d) sock fam w = (Inr (), w\<lparr>connections := dict_set (connections w) (JStr d) (sock, fam)\<rparr>)"
  by (simp add: register_def)

lemma handle_incoming_pump:
  assumes "get_or m ''Body'' (JObj []) = JObj body" "is_pump_body body"
  shows "handle_incoming env dev m fam w =
     (case ingest_snapshot env dev (get_or body ''Data'' JNull) w of
        (Inl e, w1) \<Rightarrow> (Inl e, w1) | (Inr _, w1) \<Rightarrow> (Inr None, w1))"
proof -
  have "dict_get body ''Cmd'' = None" using assms(2) by (simp add: is_pump_body_def map_of_eq_None_iff)
  then have "get_or body ''Cmd'' (JStr []) = JStr []" by (simp add: get_or_def)
  moreover obtain x where "dict_get body ''Data'' = Some x"
    using assms(2) by (cases "dict_get body ''Data''") (auto simp: is_pump_body_def map_of_eq_None_iff)
  then have "get_or body ''Data'' (JStr []) = get_or body ''Data'' JNull" by (simp add: get_or_def)
  ultimately show ?thesis
    using assms by (simp add: handle_incoming_def is_acked_def is_pump_body_def handle_snapshot_def
        ingest_snapshot_def Let_def)
qed

lemma modes_agree_message:
  assumes "is_pump m" "device_store w = device_store v"
    and "handle_message env sock fam dev m w = (d1, r1, w1)" "observe_message env dev' m v = (d2, r2, v1)"
  shows "r1 = r2 \<and> device_store w1 = device_store v1"
proof -
  obtain body d where b: "get_or m ''Body'' (JObj []) = JObj body" "is_pump_body body"
    and d: "device_of m = Some d" "d \<noteq> []"
    using assms(1) by (auto simp: is_pump_def)
  have no_cmd: "get_or body ''Cmd'' JNull = JNull"
  proof -
    have "dict_get body ''Cmd'' = None" using b(2) by (simp add: is_pump_body_def map_of_eq_None_iff)
    then show ?thesis by (simp add: get_or_def)
  qed
  let ?w = "w\<lparr>connections := dict_set (connections w) (JStr d) (sock, fam)\<rparr>"
  obtain r w2 where i: "ingest_snapshot env (JStr d) (get_or body ''Data'' JNull) ?w = (r, w2)"
    by fastforce
  then obtain v2 where j: "ingest_snapshot env (JStr d) (get_or body ''Data'' JNull) v = (r, v2)"
      "device_store w2 = device_store v2"
    using ingest_snapshot_store [of env "JStr d" _ ?w r w2 v] assms(2) by auto
  have "handle_message env sock fam dev m w = (JStr d, r, w2)"
    using d b i no_cmd
    by (cases r) (simp_all add: handle_message_def device_of_get register_string handle_incoming_pump
        announce_def json_get_JObj del: json_get.simps)
  moreover have "observe_message env dev' m v = (JStr d, r, v2)"
    using d b j by (simp add: observe_message_def device_of_get Let_def)
  ultimately show ?thesis using assms(3,4) j(2) by simp
qed

lemma modes_agree_messages:
  "list_all is_pump ms \<Longrightarrow> device_store w = device_store v \<Longrightarrow>
   handle_messages env sock fam dev ms w = (d1, r1, w1) \<Longrightarrow>
   observe_messages env dev' ms v = (d2, r2, v1) \<Longrightarrow> r1 = r2 \<and> device_store w1 = device_store v1"
proof (induction ms arbitrary: w v dev dev')
  case (Cons m ms)
  obtain da ra wa where a: "handle_message env sock fam dev m w = (da, ra, wa)" by (cases rule: prod_cases3)
  obtain db rb vb where b: "observe_message env dev' m v = (db, rb, vb)" by (cases rule: prod_cases3)
  have "ra = rb \<and> device_store wa = device_store vb"
    using Cons.prems by (intro modes_agree_message [OF _ _ a b]) auto
  with Cons a b show ?case by (cases ra; cases rb) auto
qed simp

text \<open>A message neither mode takes a snapshot from: one that is only acknowledged, or not in Base64.\<close>

definition snapshotless :: "message \<Rightarrow> bool" where
  "snapshotless m \<longleftrightarrow> (case get_or m ''Body'' (JObj []) of
      JObj body \<Rightarrow> is_acked (get_or body ''Cmd'' (JStr [])) (get_or body ''CmdOpt'' (JStr [])) \<or>
        dict_get body ''Format'' \<noteq> Some (JStr ''B64'')
    | _ \<Rightarrow> True)"

lemma snapshotless_not_pump: "snapshotless m \<Longrightarrow> get_or m ''Body'' (JObj []) = JObj body \<Longrightarrow> \<not> is_pump_body body"
  by (auto simp: snapshotless_def is_pump_body_def is_acked_def get_or_def map_of_eq_None_iff split: option.splits)
    (metis map_of_eq_None_iff option.distinct(1))+

lemma snapshotless_message:
  assumes "snapshotless m" "handle_message env sock fam dev m w = (d1, Inr (), w1)"
  shows "device_store w1 = device_store w \<and> (\<exists>d2. observe_message env dev' m v = (d2, Inr (), v))"
proof -
  obtain d wa wb r wc where h: "json_get (get_or m ''Header'' (JObj [])) ''x-lgedm-deviceId'' dev = Inr d"
    "register d sock fam w = (Inr (), wa)" "handle_incoming env d m fam wa = (Inr r, wb)"
    "respond env sock r wb = (Inr (), wc)" "announce env sock fam d m wc = (Inr (), w1)"
    using assms(2) by (auto simp: handle_message_def split: sum.splits prod.splits)
  obtain body where b: "get_or m ''Body'' (JObj []) = JObj body"
    using h(3) by (auto simp: handle_incoming_def split: json.splits)
  have "device_store wb = device_store wa"
    using assms(1) h(3) b by (auto simp: snapshotless_def handle_incoming_def Let_def split: if_splits)
  then have "device_store w1 = device_store w"
    using register_fields(3) [OF h(2)] respond_fields(2) [OF h(4)] announce_fields(2) [OF h(5)] by simp
  moreover obtain hd where "get_or m ''Header'' (JObj []) = JObj hd"
    using h(1) by (cases "get_or m ''Header'' (JObj [])") auto
  then have "\<exists>d2. observe_message env dev' m v = (d2, Inr (), v)"
    using b snapshotless_not_pump [OF assms(1) b] by (simp add: observe_message_def Let_def)
  ultimately show ?thesis by blast
qed

lemma modes_agree_served:
  "list_all (\<lambda>m. is_pump m \<or> snapshotless m) ms \<Longrightarrow> device_store w = device_store v \<Longrightarrow>
   handle_messages env sock fam dev ms w = (d1, Inr (), w1) \<Longrightarrow>
   \<exists>d2 v1. observe_messages env dev' ms v = (d2, Inr (), v1) \<and> device_store w1 = device_store v1"
proof (induction ms arbitrary: w v dev dev')
  case (Cons m ms)
  obtain da wa where a: "handle_message env sock fam dev m w = (da, Inr (), wa)" "handle_messages env sock fam da ms wa = (d1, Inr (), w1)"
    using Cons.prems(3) by (auto split: prod.splits sum.splits)
  obtain db rb vb where b: "observe_message env dev' m v = (db, rb, vb)" by (cases rule: prod_cases3)
  have "rb = Inr () \<and> device_store wa = device_store vb"
  proof (cases "is_pump m")
    case True
    from modes_agree_message [OF this Cons.prems(2) a(1) b] show ?thesis by simp
  next
    case False
    with Cons.prems(1) have "snapshotless m" by simp
    from snapshotless_message [OF this a(1), of dev' v] b Cons.prems(2) show ?thesis by auto
  qed
  with Cons.IH [OF _ _ a(2), of vb db] Cons.prems(1) b show ?case by simp
qed simp

section \<open>The end of a connection\<close>

fun chunks :: "recv list \<Rightarrow> bytes list" where
  "chunks [] = []"
| "chunks (RecvError # rs) = []"
| "chunks (Data d # rs) = (if d = [] then [] else d # chunks rs)"

definition only_key :: "nat \<Rightarrow> json \<Rightarrow> 's world \<Rightarrow> bool" where
  "only_key sock k w \<longleftrightarrow> (\<forall>k' f. map_of (connections w) k' = Some (sock, f) \<longrightarrow> k' = k)"

definition no_key :: "nat \<Rightarrow> 's world \<Rightarrow> bool" where
  "no_key sock w \<longleftrightarrow> (\<forall>k f. map_of (connections w) k \<noteq> Some (sock, f))"

lemma handle_message_connections:
  assumes "device_of m = Some d" "handle_message env sock fam dev m w = (d1, r, w1)"
  shows "d1 = JStr d" "connections w1 = dict_set (connections w) (JStr d) (sock, fam)"
proof -
  let ?w = "w\<lparr>connections := dict_set (connections w) (JStr d) (sock, fam)\<rparr>"
  obtain r2 w2 where 2: "handle_incoming env (JStr d) m fam ?w = (r2, w2)" by fastforce
  then have c2: "connections w2 = connections ?w" by (rule handle_incoming_fields(2))
  have "d1 = JStr d \<and> connections w1 = connections w2"
    using assms 2
    by (cases r2) (auto simp: handle_message_def device_of_get register_string
        dest!: respond_fields(1) announce_fields(1) split: prod.splits sum.splits)
  with c2 show "d1 = JStr d" "connections w1 = dict_set (connections w) (JStr d) (sock, fam)" by simp_all
qed

lemma only_key_messages:
  "\<forall>m \<in> set ms. device_of m = Some d \<Longrightarrow> handle_messages env sock fam dev ms w = (d1, r, w1) \<Longrightarrow>
   only_key sock (JStr d) w \<Longrightarrow> dev \<noteq> JStr d \<longrightarrow> no_key sock w \<Longrightarrow>
   only_key sock (JStr d) w1 \<and> (d1 = dev \<or> d1 = JStr d) \<and> (d1 \<noteq> JStr d \<longrightarrow> no_key sock w1)"
proof (induction ms arbitrary: dev w)
  case (Cons m ms)
  obtain da ra wa where a: "handle_message env sock fam dev m w = (da, ra, wa)" by (cases rule: prod_cases3)
  have da: "da = JStr d" "connections wa = dict_set (connections w) (JStr d) (sock, fam)"
    using handle_message_connections [OF _ a] Cons.prems(1) by auto
  then have o: "only_key sock (JStr d) wa" using Cons.prems(3) by (auto simp: only_key_def)
  show ?case
  proof (cases ra)
    case (Inl e)
    with Cons.prems a da o show ?thesis by auto
  next
    case (Inr u)
    with Cons.prems a da have "handle_messages env sock fam (JStr d) ms wa = (d1, r, w1)" by simp
    with Cons.IH [of "JStr d" wa] Cons.prems(1) o show ?thesis by auto
  qed
qed auto

lemma only_key_loop:
  "\<forall>m \<in> set (fst (reassemble (decode_by fam) buf (chunks rs))). device_of m = Some d \<Longrightarrow>
   receive_loop env sock fam dev buf rs w = (d1, r, w1) \<Longrightarrow>
   only_key sock (JStr d) w \<Longrightarrow> dev \<noteq> JStr d \<longrightarrow> no_key sock w \<Longrightarrow>
   only_key sock (JStr d) w1 \<and> (d1 = dev \<or> d1 = JStr d) \<and> (d1 \<noteq> JStr d \<longrightarrow> no_key sock w1)"
proof (induction rs arbitrary: dev buf w)
  case (Cons x rs)
  show ?case
  proof (cases "\<exists>c. x = Data c \<and> c \<noteq> []")
    case True
    then obtain c where c: "x = Data c" "c \<noteq> []" by blast
    obtain ms rest where dec: "decode_by fam (buf @ c) = (ms, rest)" by fastforce
    obtain da ra wa where a: "handle_messages env sock fam dev ms w = (da, ra, wa)" by (cases rule: prod_cases3)
    have k: "only_key sock (JStr d) wa \<and> (da = dev \<or> da = JStr d) \<and> (da \<noteq> JStr d \<longrightarrow> no_key sock wa)"
      using Cons.prems c dec by (intro only_key_messages [OF _ a]) auto
    show ?thesis
    proof (cases ra)
      case (Inl e)
      with Cons.prems c dec a k show ?thesis by auto
    next
      case (Inr u)
      with Cons.prems c dec a have "receive_loop env sock fam da rest rs wa = (d1, r, w1)" by simp
      moreover have "\<forall>m \<in> set (fst (reassemble (decode_by fam) rest (chunks rs))). device_of m = Some d"
        using Cons.prems(1) c dec by simp
      ultimately show ?thesis using Cons.IH [of rest da wa] k by blast
    qed
  next
    case False
    with Cons.prems show ?thesis by (cases x) auto
  qed
qed auto

lemma serve_unregisters:
  assumes "\<forall>m \<in> set (fst (reassemble (decode_by fam) [] (chunks rs))). device_of m = Some d"
    and "no_key sock w"
  shows "d \<noteq> ''unknown'' \<Longrightarrow> no_key sock (snd (serve env sock fam rs w))"
proof -
  assume d: "d \<noteq> ''unknown''"
  obtain d1 r w1 where l: "receive_loop env sock fam (JStr ''unknown'') [] rs w = (d1, r, w1)"
    by (cases rule: prod_cases3)
  have "only_key sock (JStr d) w" using assms(2) by (simp add: only_key_def no_key_def)
  then have k: "only_key sock (JStr d) w1 \<and> (d1 = JStr ''unknown'' \<or> d1 = JStr d) \<and>
      (d1 \<noteq> JStr d \<longrightarrow> no_key sock w1)"
    using only_key_loop [OF assms(1) l] assms(2) by blast
  then show ?thesis
    using d by (auto simp: serve_def l close_connection_def Let_def unregister_def only_key_def no_key_def
        drop_if_get split: if_splits) blast+
qed

section \<open>Polling and binding\<close>

text \<open>A registration whose query can be put together: a string for an id, and a message that can be encoded.\<close>

definition can_query :: "nat \<Rightarrow> json \<times> connection \<Rightarrow> bool" where
  "can_query N e = (case e of (k, (sock, fam)) \<Rightarrow>
     (\<exists>d. k = JStr d \<and> (\<forall>n \<le> N. \<exists>b.
        encode_by fam (mon_start_message k (JStr (''n-'' @ cp_take 8 d @ ''-'' @ nat_str n))) = Inr b)))"

text \<open>The query of a registration: a \<open>Mon Start\<close> in its framing, to its socket.\<close>

definition query_of :: "json \<times> connection \<Rightarrow> nat \<times> bytes \<Rightarrow> bool" where
  "query_of e f \<longleftrightarrow> (case e of (k, (sock, fam)) \<Rightarrow> case f of (s, b) \<Rightarrow>
     s = sock \<and> (\<exists>wid. encode_by fam (mon_start_message k (JStr wid)) = Inr b))"

abbreviation accepted :: "'s chan_env \<Rightarrow> nat \<times> bytes \<Rightarrow> bool" where
  "accepted env \<equiv> \<lambda>(sock, b). send_ok env sock b"

lemma query_state_outcome:
  assumes "can_query N (k, (sock, fam))" "map_of (connections w) k = Some (sock, fam)"
    and "Suc (cmd_counter w) \<le> N"
  shows "\<exists>b. query_of (k, (sock, fam)) (sock, b) \<and> query_state env k w =
    (if send_ok env sock b then (Inr True, w\<lparr>cmd_counter := Suc (cmd_counter w), sent := sent w @ [(sock, b)]\<rparr>)
     else (Inr False, w\<lparr>cmd_counter := Suc (cmd_counter w), connections := dict_pop (connections w) k\<rparr>))"
proof -
  obtain d b where d: "k = JStr d" and
      b: "encode_by fam (mon_start_message k (JStr (''n-'' @ cp_take 8 d @ ''-'' @ nat_str (Suc (cmd_counter w))))) = Inr b"
    using assms(1,3) by (auto simp: can_query_def)
  then show ?thesis
    using assms(2) by (intro exI [of _ b]) (auto simp: query_of_def query_state_def next_wid_def push_def sendall_def drop_if_def Let_def)
qed

lemma dict_pop_other: "k \<notin> fst ` set e \<Longrightarrow> dict_pop e k = e" "k \<notin> fst ` set d \<Longrightarrow> dict_pop (d @ e) k = d @ dict_pop e k"
proof -
  show "k \<notin> fst ` set e \<Longrightarrow> dict_pop e k = e" by (induction e) auto
  show "k \<notin> fst ` set d \<Longrightarrow> dict_pop (d @ e) k = d @ dict_pop e k" by (induction d) auto
qed

lemma poll_devices_all:
  "\<forall>e \<in> set es. can_query N e \<Longrightarrow> connections w = kept @ es \<Longrightarrow> dict_ok (kept @ es) \<Longrightarrow> cmd_counter w + length es \<le> N \<Longrightarrow>
   \<exists>fs. list_all2 query_of es fs \<and> sent (poll_devices env (map fst es) w) = sent w @ filter (accepted env) fs \<and>
     connections (poll_devices env (map fst es) w) = kept @ map fst (filter (\<lambda>x. accepted env (snd x)) (zip es fs))"
proof (induction es arbitrary: w kept)
  case (Cons e es)
  obtain k sock fam where e: "e = (k, (sock, fam))" by (cases e) auto
  have keys: "k \<notin> fst ` set kept" "k \<notin> fst ` set es" using Cons.prems(3) e by (auto simp: image_iff)
  have c: "can_query N (k, (sock, fam))" "map_of (connections w) k = Some (sock, fam)" "Suc (cmd_counter w) \<le> N"
    using Cons.prems e keys by (force simp: map_add_def map_of_eq_None_iff split: option.splits)+
  obtain b where q: "query_of e (sock, b)" and st: "query_state env k w =
    (if send_ok env sock b then (Inr True, w\<lparr>cmd_counter := Suc (cmd_counter w), sent := sent w @ [(sock, b)]\<rparr>)
     else (Inr False, w\<lparr>cmd_counter := Suc (cmd_counter w), connections := dict_pop (connections w) k\<rparr>))"
    using query_state_outcome [OF c] e by blast
  show ?case
  proof (cases "send_ok env sock b")
    case True
    let ?w = "w\<lparr>cmd_counter := Suc (cmd_counter w), sent := sent w @ [(sock, b)]\<rparr>"
    obtain fs where "list_all2 query_of es fs" "sent (poll_devices env (map fst es) ?w) = sent ?w @ filter (accepted env) fs"
      "connections (poll_devices env (map fst es) ?w) = (kept @ [e]) @ map fst (filter (\<lambda>x. accepted env (snd x)) (zip es fs))"
      using Cons.IH [of ?w "kept @ [e]"] Cons.prems by auto
    then show ?thesis using True q st e by (intro exI [of _ "(sock, b) # fs"]) simp
  next
    case False
    let ?w = "w\<lparr>cmd_counter := Suc (cmd_counter w), connections := dict_pop (connections w) k\<rparr>"
    have "connections ?w = kept @ es" using Cons.prems(2) e keys by (simp add: dict_pop_other)
    then obtain fs where "list_all2 query_of es fs" "sent (poll_devices env (map fst es) ?w) = sent ?w @ filter (accepted env) fs"
      "connections (poll_devices env (map fst es) ?w) = kept @ map fst (filter (\<lambda>x. accepted env (snd x)) (zip es fs))"
      using Cons.IH [of ?w kept] Cons.prems by auto
    then show ?thesis using False q st e by (intro exI [of _ "(sock, b) # fs"]) simp
  qed
qed simp

lemma try_bind_spec: "fst (try_bind n outs) \<longleftrightarrow> True \<in> set (take n outs)"
  by (induction n outs rule: try_bind.induct) auto

lemma try_bind_rest: "\<not> fst (try_bind n outs) \<Longrightarrow> snd (try_bind n outs) = drop n outs"
  by (induction n outs rule: try_bind.induct) (auto split: if_splits)

lemma rearm_spec: "rearm outs l = (if True \<in> set outs then \<lparr>serving = True, rearm_active = False\<rparr> else l)"
  by (induction outs l rule: rearm.induct) auto

lemma devinfo_answer:
  assumes "device_of m = Some d" "get_or m ''Body'' (JObj []) = JObj body"
    and "dict_get body ''Cmd'' = Some (JStr ''DevInfo'')"
    and "encode_by fam (ack_message (JStr d) (get_or body ''CmdWId'' (JStr []))) = Inr a" "a \<noteq> []"
    and "encode_by fam (mon_start_message (JStr d) (JStr (''n-'' @ cp_take 8 d @ ''-mon''))) = Inr b"
    and "send_ok env sock a" "send_ok env sock b"
  shows "handle_message env sock fam dev m w = (JStr d, Inr (), w\<lparr>
     connections := dict_set (connections w) (JStr d) (sock, fam), sent := sent w @ [(sock, a), (sock, b)]\<rparr>)"
proof -
  have c: "get_or body ''Cmd'' x = JStr ''DevInfo''" for x using assms(3) by (simp add: get_or_def)
  let ?w = "w\<lparr>connections := dict_set (connections w) (JStr d) (sock, fam)\<rparr>"
  have i: "handle_incoming env (JStr d) m fam ?w = (Inr (Some a), ?w)"
    using assms by (simp add: handle_incoming_def c is_acked_def Let_def)
  have r: "respond env sock (Some a) ?w = (Inr (), ?w\<lparr>sent := sent w @ [(sock, a)]\<rparr>)"
    using assms by (simp add: sendall_def)
  have "announce env sock fam (JStr d) m (?w\<lparr>sent := sent w @ [(sock, a)]\<rparr>)
      = (Inr (), ?w\<lparr>sent := sent w @ [(sock, a), (sock, b)]\<rparr>)"
    using assms by (simp add: announce_def json_get_JObj c sendall_def del: json_get.simps)
  then show ?thesis
    using assms(1) i r by (simp add: handle_message_def device_of_get register_string del: respond.simps)
qed

text \<open>Two gaps: an id a connection used before its last one stays registered when it closes; a
  device id that is a number ends the polling round for the devices behind it.\<close>

lemma earlier_id_leaks:
  assumes "device_of m1 = Some a" "device_of m2 = Some b" "a \<noteq> b"
    and "handle_messages env sock fam dev [m1, m2] w = (dv, Inr u, w1)"
  shows "map_of (connections (snd (close_connection sock (dv, Inr u, w1)))) (JStr a) = Some (sock, fam)"
proof -
  obtain d1 r1 wa where 1: "handle_message env sock fam dev m1 w = (d1, r1, wa)" by (cases rule: prod_cases3)
  obtain d2 r2 wb where 2: "handle_message env sock fam d1 m2 wa = (d2, r2, wb)" by (cases rule: prod_cases3)
  have "dv = d2" "w1 = wb" using assms(4) 1 2 by (cases r1; cases r2; auto)+
  with handle_message_connections [OF assms(1) 1] handle_message_connections [OF assms(2) 2] assms(3)
  show ?thesis
    by (auto simp: close_connection_def unregister_def Let_def drop_if_get split: if_splits)
qed

lemma numeric_id_ends_round:
  "sent (poll_devices env (JInt n # ds) w) = sent w"
  by (simp add: query_state_def next_wid_def Let_def)

section \<open>Properties\<close>

definition sample_chan_env :: "nat chan_env" where
  "sample_chan_env = state_env.extend (sample_state_env None)
     \<lparr>allow_control = False, store_wired = True, send_ok = (\<lambda>s b. True)\<rparr>"

definition sample_world :: "nat world" where
  "sample_world = \<lparr>connections = [(JStr ''d1'', (7, Len4))], cmd_counter = 0, sent = [],
     device_store = initial_store 0\<rparr>"

fun message_ok_by :: "family \<Rightarrow> message \<Rightarrow> bool" where
  "message_ok_by Msgpack m = mp_message_ok m"
| "message_ok_by Len4 m = len4_message_ok m"

lemma reassemble_by:
  assumes "list_all (message_ok_by fam) ms" "list_all2 (\<lambda>m w. encode_by fam m = Inr w) ms ws"
    and "concat cs = concat ws"
  shows "fst (reassemble (decode_by fam) [] cs) = ms"
proof (cases fam)
  case Msgpack
  have e: "message_ok_by Msgpack = mp_message_ok" "encode_by Msgpack = encode_message"
    "decode_by Msgpack = decode_messages" by (simp_all add: fun_eq_iff)
  show ?thesis
    using fridge_wire.reassemble_stream [of ms ws "[]" "[]" cs] assms unfolding Msgpack e by simp
next
  case Len4
  have e: "message_ok_by Len4 = len4_message_ok" "encode_by Len4 = encode_message_len4"
    "decode_by Len4 = decode_messages_len4" by (simp_all add: fun_eq_iff)
  show ?thesis
    using washer_wire.reassemble_stream [of ms ws "[]" "[]" cs] assms unfolding Len4 e by simp
qed

text \<open>
  With \<open>allow_control\<close> off nothing but acks and \<open>Mon Start\<close> queries ever goes to an appliance:
  neither a connection of either family, whatever it sends and however it ends, nor a query or a
  polling round writes another message, and a command is rejected without touching anything.
\<close>

lemma read_only_without_control:
  "read_only w (snd (handle env ce sock first rs w)) \<and>
   read_only w (snd (query_state env dev w)) \<and> read_only w (poll_round env w) \<and>
   (\<not> allow_control env \<longrightarrow> send_command env dev val cmd opt w = (Inr False, w))"
proof -
  have "read_only w (snd (query_state env dev w))"
    using query_state_read_only by (metis prod.collapse)
  then show ?thesis
    by (simp add: handle_read_only poll_round_def poll_devices_read_only send_command_def)
qed

lemma read_only_without_control_witness:
  "send_command sample_chan_env (JStr ''d1'') (JObj []) (JStr ''Control'') (JStr ''Set'') sample_world
     = (Inr False, sample_world)"
proof -
  have "\<not> allow_control sample_chan_env" by (simp add: sample_chan_env_def state_env.defs)
  then show ?thesis using read_only_without_control by blast
qed

text \<open>
  C8. A stale socket never wipes a newer registration: once an appliance is registered on a
  socket, any interleaving of registrations of other devices, late cleanups of other handlers and
  failed sends on other sockets leaves it registered there.
\<close>

theorem newest_registration_survives:
  assumes "hash_key dev = Inr k" "register dev sock fam w = (Inr u, w1)"
    and "table_run ops w1 w2" "list_all (stale_for k sock) ops"
  shows "map_of (connections w2) k = Some (sock, fam)"
  using assms(2) by (intro stale_run_keeps [OF assms(3,4)]) (auto simp: register_def assms(1))

theorem newest_registration_survives_witness:
  "\<exists>w1 w2. register (JStr ''d1'') 8 Len4 sample_world = (Inr (), w1) \<and>
     table_run [Unregister (JStr ''d1'') (Some 7), SendFailed (JStr ''d1'') 7] w1 w2 \<and>
     map_of (connections w2) (JStr ''d1'') = Some (8, Len4)"
proof -
  obtain w1 where 1: "register (JStr ''d1'') 8 Len4 sample_world = (Inr (), w1)"
    by (simp add: register_string)
  let ?w2 = "snd (unregister (JStr ''d1'') (Some 7) w1)"
  let ?w3 = "drop_if (JStr ''d1'') (Some 7) ?w2"
  have "table_step (Unregister (JStr ''d1'') (Some 7)) w1 ?w2"
    by (rule table_step.unreg [where r = "fst (unregister (JStr ''d1'') (Some 7) w1)"]) simp
  moreover have "table_step (SendFailed (JStr ''d1'') 7) ?w2 ?w3"
    by (rule table_step.failed) simp
  ultimately have run: "table_run [Unregister (JStr ''d1'') (Some 7), SendFailed (JStr ''d1'') 7] w1 ?w3"
    by (blast intro: table_run.intros)
  have "map_of (connections ?w3) (JStr ''d1'') = Some (8, Len4)"
    by (rule newest_registration_survives [OF _ 1 run]) simp_all
  with 1 run show ?thesis by blast
qed

text \<open>
  C9. However TCP cuts a connection's stream, the handler does exactly what the messages that
  were sent ask for, one by one in order, for both families.
\<close>

theorem chunked_stream_handled:
  assumes "list_all (message_ok_by fam) ms" "list_all2 (\<lambda>m w. encode_by fam m = Inr w) ms ws"
    and "concat cs = concat ws" "[] \<notin> set cs"
  shows "receive_loop env sock fam dev [] (map Data cs) w = handle_messages env sock fam dev ms w"
  using receive_loop_messages [OF assms(4), of env sock fam dev "[]" w] reassemble_by [OF assms(1-3)]
  by simp

theorem chunked_stream_handled_witness:
  "\<exists>b. encode_by Len4 sample_message = Inr b \<and>
     receive_loop sample_chan_env 7 Len4 (JStr ''unknown'') [] (map Data [take 2 b, drop 2 b]) sample_world
       = handle_messages sample_chan_env 7 Len4 (JStr ''unknown'') [sample_message] sample_world"
proof -
  obtain b where b: "encode_by Len4 sample_message = Inr b"
    using washer_wire.enc_ok sample_message_ok(2) by auto
  then have "length b > 4" using dumps_compact_not_Nil [of "JObj sample_message"] sample_message_ok(2)
    by (auto simp: encode_message_len4_def len4_message_ok_def Let_def split: if_splits)
  then have "[] \<notin> set [take 2 b, drop 2 b]" by auto
  with b have "receive_loop sample_chan_env 7 Len4 (JStr ''unknown'') [] (map Data [take 2 b, drop 2 b]) sample_world
      = handle_messages sample_chan_env 7 Len4 (JStr ''unknown'') [sample_message] sample_world"
    using sample_message_ok(2) by (intro chunked_stream_handled [of Len4 _ "[b]"]) auto
  with b show ?thesis by blast
qed

text \<open>
  C25. An appliance that announces itself is registered on its socket, acked with its own message
  id, and asked to push its state, in this order and nothing else.
\<close>

theorem devinfo_answered:
  assumes "device_of m = Some d" "get_or m ''Body'' (JObj []) = JObj body"
    and "dict_get body ''Cmd'' = Some (JStr ''DevInfo'')"
    and "encode_by fam (ack_message (JStr d) (get_or body ''CmdWId'' (JStr []))) = Inr a" "a \<noteq> []"
    and "encode_by fam (mon_start_message (JStr d) (JStr (''n-'' @ cp_take 8 d @ ''-mon''))) = Inr b"
    and "send_ok env sock a" "send_ok env sock b"
  shows "handle_messages env sock fam dev [m] w = (JStr d, Inr (), w\<lparr>
     connections := dict_set (connections w) (JStr d) (sock, fam), sent := sent w @ [(sock, a), (sock, b)]\<rparr>)"
  using devinfo_answer [OF assms] by simp

definition sample_devinfo :: message where
  "sample_devinfo = make_message (JStr ''d2'') (JStr ''w-1'') [(''Cmd'', JStr ''DevInfo'')]"

theorem devinfo_answered_witness:
  "\<exists>a b. handle_messages sample_chan_env 9 Len4 (JStr ''unknown'') [sample_devinfo] sample_world
     = (JStr ''d2'', Inr (), sample_world\<lparr>
          connections := dict_set (connections sample_world) (JStr ''d2'') (9, Len4),
          sent := sent sample_world @ [(9, a), (9, b)]\<rparr>)"
proof -
  have enc: "\<exists>b. encode_by Len4 m = Inr b \<and> b \<noteq> []" if "length (dumps_compact (JObj m)) < 200" for m
    using that by (auto simp: encode_message_len4_def Let_def be32_def)
  have "\<exists>a. encode_by Len4 (ack_message (JStr ''d2'') (JStr ''w-1'')) = Inr a \<and> a \<noteq> []"
    by (rule enc) code_simp
  moreover have "\<exists>b. encode_by Len4 (mon_start_message (JStr ''d2'') (JStr ''n-d2-mon'')) = Inr b \<and> b \<noteq> []"
    by (rule enc) code_simp
  ultimately obtain a b where ab: "encode_by Len4 (ack_message (JStr ''d2'') (JStr ''w-1'')) = Inr a" "a \<noteq> []"
      "encode_by Len4 (mon_start_message (JStr ''d2'') (JStr ''n-d2-mon'')) = Inr b"
    by blast
  have s: "send_ok sample_chan_env 9 x" for x by (simp add: sample_chan_env_def state_env.defs)
  have c: "''n-'' @ cp_take 8 ''d2'' @ ''-mon'' = ''n-d2-mon''" by code_simp
  show ?thesis
    by (rule exI, rule exI, rule devinfo_answered [of _ _ "[(''CmdWId'', JStr ''w-1''), (''Cmd'', JStr ''DevInfo'')]" _ a b])
      (use ab s in \<open>simp_all add: sample_devinfo_def make_message_def device_of_def get_or_def c [simplified]\<close>)
qed

text \<open>
  The two modes cannot drift apart: on a run of pump messages the terminating handler and the
  passthrough observer leave the same device store and stop with the same exception, if any.
\<close>

lemma modes_ingest_alike:
  assumes "list_all is_pump ms" "device_store w = device_store v"
  shows "fst (snd (handle_messages env sock fam dev ms w)) = fst (snd (observe_messages env dev' ms v)) \<and>
     device_store (snd (snd (handle_messages env sock fam dev ms w)))
       = device_store (snd (snd (observe_messages env dev' ms v)))"
  using modes_agree_messages [OF assms, of env sock fam dev _ _ _ dev'] by (metis prod.collapse)

definition sample_pump :: message where
  "sample_pump = [(''Header'', JObj [(''x-lgedm-deviceId'', JStr ''d1'')]),
     (''Body'', JObj [(''Format'', JStr ''B64''), (''Data'', JStr ''BgA='')])]"

lemma modes_ingest_alike_witness:
  "device_store (snd (snd (handle_messages sample_chan_env 7 Len4 (JStr ''unknown'') [sample_pump] sample_world)))
     = device_store (snd (snd (observe_messages sample_chan_env JNull [sample_pump] sample_world)))"
proof -
  have "list_all is_pump [sample_pump]"
    by (simp add: sample_pump_def is_pump_def is_pump_body_def device_of_def get_or_def)
  then show ?thesis using modes_ingest_alike by blast
qed

text \<open>
  C26. A connection that only ever used one device id leaves no registration of its socket behind,
  however it ends: an orderly close, an error of the socket or an exception of the handler.
\<close>

theorem closed_connection_forgotten:
  assumes "\<forall>m \<in> set (fst (reassemble (decode_by fam) [] (chunks rs))). device_of m = Some d"
    and "d \<noteq> ''unknown''" "no_key sock w"
  shows "no_key sock (snd (serve env sock fam rs w))"
  using serve_unregisters [OF assms(1,3,2)] .

theorem closed_connection_forgotten_witness:
  "\<exists>b. encode_by Len4 sample_message = Inr b \<and>
     no_key 9 (snd (serve sample_chan_env 9 Len4 [Data b, RecvError] sample_world))"
proof -
  obtain b where b: "encode_by Len4 sample_message = Inr b"
    using washer_wire.enc_ok sample_message_ok(2) by auto
  have "b \<noteq> []" using b by (auto simp: encode_message_len4_def be32_def Let_def split: if_splits)
  then have "chunks [Data b, RecvError] = [b]" by simp
  moreover have "fst (reassemble (decode_by Len4) [] [b]) = [sample_message]"
    using b sample_message_ok(2) by (intro reassemble_by [of Len4 _ "[b]"]) auto
  ultimately have "no_key 9 (snd (serve sample_chan_env 9 Len4 [Data b, RecvError] sample_world))"
    by (intro closed_connection_forgotten [where d = "''d1''"])
      (simp_all add: sample_message_def make_message_def device_of_def get_or_def no_key_def sample_world_def)
  with b show ?thesis by blast
qed

text \<open>
  C27. A polling round asks every registered connection for its state, in order, when the ids are strings and
  the queries can be encoded, and whichever writes fail: each gets one \<open>Mon Start\<close> in its own
  framing on its own socket; those that could be written have been written, and exactly the
  connections whose write failed are no longer registered.
\<close>

theorem polling_round_complete:
  assumes "dict_ok (connections w)"
    and "\<forall>e \<in> set (connections w). can_query (cmd_counter w + length (connections w)) e"
  shows "\<exists>fs. list_all2 query_of (connections w) fs \<and> sent (poll_round env w) = sent w @ filter (accepted env) fs \<and>
     connections (poll_round env w) = map fst (filter (\<lambda>x. accepted env (snd x)) (zip (connections w) fs))"
  unfolding poll_round_def devices_def
  using poll_devices_all [of "connections w" "cmd_counter w + length (connections w)" w "[]" env] assms by simp

theorem polling_round_complete_witness:
  "\<exists>b. sent (poll_round sample_chan_env sample_world) = [(7, b)]"
proof -
  have l: "length (dumps_compact (JObj (mon_start_message (JStr ''d1'') (JStr (''n-d1-'' @ nat_str n))))) < 200"
    if "n \<le> 1" for n
  proof -
    have "nat_str 0 = ''0''" "nat_str 1 = ''1''" by code_simp+
    then have "nat_str n = ''0'' \<or> nat_str n = ''1''" using that by (cases n) auto
    moreover have "length (dumps_compact (JObj (mon_start_message (JStr ''d1'') (JStr (''n-d1-'' @ ''0''))))) < 200"
      "length (dumps_compact (JObj (mon_start_message (JStr ''d1'') (JStr (''n-d1-'' @ ''1''))))) < 200"
      by code_simp+
    ultimately show ?thesis by metis
  qed
  have c: "''n-'' @ cp_take 8 ''d1'' @ ''-'' @ x = ''n-d1-'' @ x" for x by (simp add: is_cont_def)
  have s: "send_ok sample_chan_env 7 x" for x by (simp add: sample_chan_env_def state_env.defs)
  have "\<exists>b. encode_by Len4 (mon_start_message (JStr ''d1'') (JStr (''n-d1-'' @ nat_str n))) = Inr b"
    if "n \<le> 1" for n
    using l [OF that] by (simp add: encode_message_len4_def Let_def)
  then have "can_query 1 (JStr ''d1'', (7, Len4))"
    unfolding can_query_def by (simp only: prod.case c json.inject simp_thms) blast
  then have "\<exists>fs. list_all2 query_of (connections sample_world) fs \<and>
     sent (poll_round sample_chan_env sample_world) = sent sample_world @ filter (accepted sample_chan_env) fs \<and>
     connections (poll_round sample_chan_env sample_world) =
       map fst (filter (\<lambda>x. accepted sample_chan_env (snd x)) (zip (connections sample_world) fs))"
    by (intro polling_round_complete) (simp_all add: sample_world_def)
  then show ?thesis using s by (auto simp: sample_world_def list_all2_Cons1 query_of_def)
qed

text \<open>
  No message id is minted twice, whichever devices the messages are for.\<close>

lemma message_ids_distinct: "distinct (mint ds w)"
  by (rule mint_distinct)

text \<open>
  Binding the port: whatever number of attempts fails first, the channel serves exactly when
  some attempt, inline or of the re-arm thread, succeeded, and the re-arm flag the health check
  reads is up exactly while it does not.
\<close>

lemma bind_or_rearm:
  "serving (start_control_server retries outs) = (True \<in> set outs) \<and>
   rearm_active (start_control_server retries outs) = (True \<notin> set outs)"
proof -
  obtain ok rest where t: "try_bind retries outs = (ok, rest)" by fastforce
  have ok: "ok \<longleftrightarrow> True \<in> set (take retries outs)" using try_bind_spec [of retries outs] t by simp
  have rest: "\<not> ok \<Longrightarrow> rest = drop retries outs" using try_bind_rest [of retries outs] t by simp
  have "set outs = set (take retries outs) \<union> set (drop retries outs)"
    by (metis append_take_drop_id set_append)
  with ok rest t show ?thesis
    by (cases ok) (auto simp: start_control_server_def rearm_spec)
qed

end
