(* ===== verification/MqttBridge.thy ===== *)
theory MqttBridge
  imports HaMqtt ControlChannel
begin

text \<open>
  \<open>server/mqtt_bridge.py\<close>: the sink that publishes the merged state of each appliance to Home
  Assistant and routes the commands that come back. The modelJson of a model name is the
  argument \<open>model_json_of\<close>; the MQTT client's \<open>publish\<close> appends to \<open>published\<close>; whether
  the broker is reachable and whether the client accepts a subscription is the environment.
\<close>

section \<open>State\<close>

record bridge_env =
  model_json_of :: "str \<Rightarrow> json res"
  commands_on :: bool

record mqtt_sink =
  last_published :: "(str, jdict) dict"
  merged_view :: "(str, jdict) dict"
  announced :: "(str, str list) dict"
  cmd_entities :: "(str, (str, entity) dict) dict"
  dev_by_ha :: "(str, str) dict"
  published :: "mqtt_message list"

definition new_sink :: mqtt_sink where
  "new_sink = \<lparr>last_published = [], merged_view = [], announced = [], cmd_entities = [],
     dev_by_ha = [], published = []\<rparr>"

definition discovery_prefix :: str where
  [const_defs]: "discovery_prefix = ''homeassistant''"

definition excluded_keys :: "str list" where
  [const_defs]: "excluded_keys = binary_fields @ [''ts'', ''devId'', ''diagMonType'', ''modelName'',
     ''raw_text'', ''note'', ''raw_cloud_state'']"

section \<open>The view of a payload\<close>

definition or_else :: "json \<Rightarrow> json \<Rightarrow> json" where
  "or_else v d = (if truthy v then v else d)"

text \<open>\<open>int(v)\<close>; a float is outside the model.\<close>

fun py_int_of :: "json \<Rightarrow> int res" where
  "py_int_of (JInt n) = Inr n"
| "py_int_of (JBool b) = Inr (of_bool b)"
| "py_int_of (JStr s) = res_of_option ValueError (py_int s)"
| "py_int_of (JReal t) = Inl ValueError"
| "py_int_of _ = Inl TypeError"

definition pad2 :: "int \<Rightarrow> str" where
  "pad2 n = (if 0 \<le> n \<and> n < 10 then CHR ''0'' # int_str n else int_str n)"

definition reserve_countdown :: "jdict \<Rightarrow> json res" where
  "reserve_countdown v =
     (let hours = or_else (get_or v ''Reserve_Time_H'' JNull) (JStr ''0'');
          minutes = or_else (get_or v ''Reserve_Time_M'' JNull) (JStr ''0'') in
      rbind (py_int_of minutes) (\<lambda>m. Inr (JStr (py_str hours @ ''h'' @ pad2 m @ ''m''))))"

definition view_item :: "jdict \<Rightarrow> str \<Rightarrow> json \<Rightarrow> jdict res" where
  "view_item view k v =
     (if k \<in> set excluded_keys then Inr view
      else case v of
          JObj d \<Rightarrow>
            if endswith k ''_decoded'' then
              (let view' = dict_update view d in
               if dict_get d ''State'' = Some (JStr ''WM_STATE_RESERVE'') then
                 rbind (reserve_countdown d) (\<lambda>c. Inr (dict_set view' ''reserve_countdown'' c))
               else Inr view')
            else if k = ''diagData'' then
              Inr (dict_update view
                (map (\<lambda>(ik, iv). (''diagData_'' @ ik, iv))
                  (filter (\<lambda>(ik, iv). ik \<notin> {''raw'', ''len''}) d)))
            else Inr (dict_set view k v)
        | _ \<Rightarrow> Inr (dict_set view k v))"

fun view_items :: "jdict \<Rightarrow> jdict \<Rightarrow> jdict res" where
  "view_items view [] = Inr view"
| "view_items view ((k, v) # ps) = rbind (view_item view k v) (\<lambda>view'. view_items view' ps)"

section \<open>The sink\<close>

definition merge_view :: "jdict \<Rightarrow> jdict \<Rightarrow> jdict" where
  "merge_view prev view =
     (let merged = dict_update prev view; fresh = get_or view ''State'' JNull in
      if truthy fresh \<and> fresh \<noteq> JStr ''WM_STATE_RESERVE''
      then dict_set merged ''reserve_countdown'' (JStr []) else merged)"

definition publish :: "mqtt_message list \<Rightarrow> mqtt_sink \<Rightarrow> mqtt_sink" where
  "publish ms s = s\<lparr>published := published s @ ms\<rparr>"

definition publish_commands :: "bridge_env \<Rightarrow> str \<Rightarrow> str \<Rightarrow> mqtt_sink \<Rightarrow> unit res \<times> mqtt_sink" where
  "publish_commands env ha model s =
     (if \<not> commands_on env then (Inr (), s)
      else case rbind (model_json_of env model) (\<lambda>mj.
                  if mj = JNull then Inr [] else all_entities mj) of
          Inl e \<Rightarrow> (Inl e, s)
        | Inr es \<Rightarrow>
            if es = [] then (Inr (), s)
            else (Inr (), publish (publish_command_discovery discovery_prefix model ha es)
                    (s\<lparr>cmd_entities := dict_set (cmd_entities s) ha (dict_of (map (\<lambda>e. (e_slug e, e)) es))\<rparr>)))"

definition announce_fields :: "bridge_env \<Rightarrow> str \<Rightarrow> str \<Rightarrow> jdict \<Rightarrow> mqtt_sink \<Rightarrow> unit res \<times> mqtt_sink" where
  "announce_fields env ha model merged s =
     (let fs = (case dict_get (announced s) ha of None \<Rightarrow> [] | Some fs \<Rightarrow> fs) in
      if set (dict_keys merged) \<subseteq> set fs then (Inr (), s)
      else
        let fs' = sort (remdups (fs @ dict_keys merged));
            s1 = publish (publish_discovery discovery_prefix model ha fs')
                   (s\<lparr>announced := dict_set (announced s) ha fs'\<rparr>);
            s2 = (if ''Error'' \<in> set (dict_keys merged)
                  then publish (publish_error_alert_discovery discovery_prefix model ha) s1 else s1) in
        publish_commands env ha model s2)"

definition publish_merged :: "str \<Rightarrow> jdict \<Rightarrow> mqtt_sink \<Rightarrow> mqtt_sink" where
  "publish_merged ha merged s =
     (case dict_get (last_published s) ha of
        Some old \<Rightarrow>
          if py_eq (JObj old) (JObj merged) then s
          else publish (publish_state discovery_prefix merged ha)
                 (s\<lparr>last_published := dict_set (last_published s) ha merged\<rparr>)
      | None \<Rightarrow> publish (publish_state discovery_prefix merged ha)
                 (s\<lparr>last_published := dict_set (last_published s) ha merged\<rparr>))"

definition sink_call :: "bridge_env \<Rightarrow> str \<Rightarrow> jdict \<Rightarrow> mqtt_sink \<Rightarrow> unit res \<times> mqtt_sink" where
  "sink_call env dev payload s =
     (let raw_model = get_or payload ''modelName'' JNull in
      if \<not> truthy raw_model then (Inr (), s)
      else
        let model = py_str raw_model; ha = stable_key model;
            s1 = s\<lparr>dev_by_ha := dict_set (dev_by_ha s) ha dev\<rparr> in
        (case view_items [] payload of
           Inl e \<Rightarrow> (Inl e, s1)
         | Inr view \<Rightarrow>
             if view = [] then (Inr (), s1)
             else
               let prev = (case dict_get (merged_view s1) ha of None \<Rightarrow> [] | Some m \<Rightarrow> m);
                   merged = merge_view prev view;
                   s2 = s1\<lparr>merged_view := dict_set (merged_view s1) ha merged\<rparr> in
               (case announce_fields env ha model merged s2 of
                  (Inl e, s3) \<Rightarrow> (Inl e, s3)
                | (Inr _, s3) \<Rightarrow> (Inr (), publish_merged ha merged s3))))"

section \<open>Received commands\<close>

text \<open>
  The command a message leads to, if any: the device and the wire command \<open>send_command\<close> is
  called with.
\<close>

definition on_message :: "mqtt_sink \<Rightarrow> str \<Rightarrow> bytes \<Rightarrow> (str \<times> wire_command) option" where
  "on_message s topic payload = do {
     (ha, _, sl) \<leftarrow> parse_command_topic discovery_prefix topic;
     es \<leftarrow> dict_get (cmd_entities s) ha;
     e \<leftarrow> dict_get es sl;
     dev \<leftarrow> dict_get (dev_by_ha s) ha;
     wire \<leftarrow> to_wire e (utf8_replace payload);
     Some (dev, wire) }"

text \<open>The effect of a received message on the channel; an exception is swallowed.\<close>

definition ha_command :: "'s chan_env \<Rightarrow> mqtt_sink \<Rightarrow> str \<Rightarrow> bytes \<Rightarrow> 's world \<Rightarrow> 's world" where
  "ha_command env s topic payload w = (case on_message s topic payload of
      None \<Rightarrow> w
    | Some (dev, wire) \<Rightarrow>
        snd (send_command env (JStr dev) (JObj (map (\<lambda>(k, v). (k, JStr v)) (w_value wire)))
          (w_cmd wire) (w_opt wire) w))"

section \<open>The lazy connection\<close>

definition command_filter :: str where
  [const_defs]: "command_filter = ''homeassistant/+/lgthinq_+/+/cmd''"

record lazy_sink =
  the_sink :: "mqtt_sink option"
  logged_down :: bool

record broker =
  connect_ok :: bool
  subscribe_ok :: "str \<Rightarrow> bool"

text \<open>The construction of the sink subscribes; a refused filter raises out of it.\<close>

definition ensure :: "bridge_env \<Rightarrow> broker \<Rightarrow> lazy_sink \<Rightarrow> mqtt_sink option res \<times> lazy_sink" where
  "ensure env b l = (case the_sink l of
      Some s \<Rightarrow> (Inr (Some s), l)
    | None \<Rightarrow>
        if \<not> connect_ok b then (Inr None, l\<lparr>logged_down := True\<rparr>)
        else if commands_on env \<and> \<not> subscribe_ok b command_filter then (Inl ValueError, l)
        else (Inr (Some new_sink), l\<lparr>the_sink := Some new_sink\<rparr>))"

definition lazy_call :: "bridge_env \<Rightarrow> broker \<Rightarrow> str \<Rightarrow> jdict \<Rightarrow> lazy_sink \<Rightarrow> unit res \<times> lazy_sink" where
  "lazy_call env b dev payload l = (case ensure env b l of
      (Inl e, l1) \<Rightarrow> (Inl e, l1)
    | (Inr None, l1) \<Rightarrow> (Inr (), l1)
    | (Inr (Some s), l1) \<Rightarrow>
        (case sink_call env dev payload s of (r, s') \<Rightarrow> (r, l1\<lparr>the_sink := Some s'\<rparr>)))"

record mqtt_config =
  broker_host :: str
  broker_port :: int

text \<open>\<open>build_sink\<close>: no host or no client library, no bridge; a malformed port raises.\<close>

definition build_sink :: "str option \<Rightarrow> str option \<Rightarrow> bool \<Rightarrow> (mqtt_config \<times> lazy_sink) option res" where
  "build_sink host port paho_present =
     (case host of
        None \<Rightarrow> Inr None
      | Some h \<Rightarrow>
          if h = [] \<or> \<not> paho_present then Inr None
          else rbind (res_of_option ValueError (py_int (case port of None \<Rightarrow> ''1883'' | Some p \<Rightarrow> p))) (\<lambda>n.
                 Inr (Some (\<lparr>broker_host = h, broker_port = n\<rparr>, \<lparr>the_sink = None, logged_down = False\<rparr>))))"

section \<open>Lemmas\<close>

lemma publish_fields [simp]:
  "last_published (publish ms s) = last_published s" "merged_view (publish ms s) = merged_view s"
  "announced (publish ms s) = announced s" "cmd_entities (publish ms s) = cmd_entities s"
  "dev_by_ha (publish ms s) = dev_by_ha s" "published (publish ms s) = published s @ ms"
  by (simp_all add: publish_def)

lemma publish_commands_fields:
  assumes "publish_commands env ha model s = (r, s')"
  shows "last_published s' = last_published s" "merged_view s' = merged_view s"
    "announced s' = announced s" "dev_by_ha s' = dev_by_ha s"
  using assms by (auto simp: publish_commands_def split: if_splits sum.splits)

definition entities_of :: "bridge_env \<Rightarrow> str \<Rightarrow> entity \<Rightarrow> bool" where
  "entities_of env ha e \<longleftrightarrow> commands_on env \<and>
     (\<exists>model mj es. stable_key model = ha \<and> model_json_of env model = Inr mj \<and>
        all_entities mj = Inr es \<and> e \<in> set es)"

lemma dict_of_mem: "map_of (dict_of ps) k = Some v \<Longrightarrow> (k, v) \<in> set ps"
proof -
  have "map_of (dict_update d ps) k = Some v \<Longrightarrow> (k, v) \<in> set ps \<or> map_of d k = Some v" for d
    by (induction d ps rule: dict_update.induct) (fastforce split: if_splits)+
  then show "map_of (dict_of ps) k = Some v \<Longrightarrow> (k, v) \<in> set ps" unfolding dict_of_def by fastforce
qed

lemma publish_commands_entities:
  assumes "publish_commands env (stable_key model) model s = (r, s')"
    and "map_of (cmd_entities s') ha = Some es" "map_of es sl = Some e"
  shows "map_of (cmd_entities s) ha = Some es \<or> entities_of env ha e \<and> e_slug e = sl"
proof (cases "map_of (cmd_entities s) ha = Some es")
  case False
  obtain fs where fs: "rbind (model_json_of env model) (\<lambda>mj. if mj = JNull then Inr [] else all_entities mj) = Inr fs"
      "fs \<noteq> []" "commands_on env" "cmd_entities s' = dict_set (cmd_entities s) (stable_key model)
         (dict_of (map (\<lambda>e. (e_slug e, e)) fs))"
    using assms(1,2) False by (auto simp: publish_commands_def split: if_splits sum.splits)
  then have "ha = stable_key model" "es = dict_of (map (\<lambda>e. (e_slug e, e)) fs)"
    using assms(2) False by (auto split: if_splits)
  then have "(sl, e) \<in> set (map (\<lambda>e. (e_slug e, e)) fs)"
    using dict_of_mem [of "map (\<lambda>e. (e_slug e, e)) fs" sl e] assms(3) by blast
  then obtain e' where "e' \<in> set fs" "(sl, e) = (e_slug e', e')" by (auto simp only: set_map image_iff)
  then have "e \<in> set fs" "e_slug e = sl" by blast+
  moreover obtain mj where "model_json_of env model = Inr mj" "all_entities mj = Inr fs"
    using fs(1,2) by (auto simp: rbind_Inr_iff split: if_splits)
  ultimately show ?thesis using fs(3) \<open>ha = stable_key model\<close> unfolding entities_of_def by blast
qed simp

definition known_fields :: "mqtt_sink \<Rightarrow> str \<Rightarrow> str list" where
  "known_fields s ha = (case map_of (announced s) ha of None \<Rightarrow> [] | Some fs \<Rightarrow> fs)"

lemma announce_fields_cases:
  assumes "announce_fields env ha model merged s = (r, s')"
  obtains (known) "r = Inr ()" "s' = s" "fst ` set merged \<subseteq> set (known_fields s ha)"
  | (new) fs ms where "fs = sort (remdups (known_fields s ha @ dict_keys merged))"
      "ms = publish_discovery discovery_prefix model ha fs @
         (if ''Error'' \<in> fst ` set merged then publish_error_alert_discovery discovery_prefix model ha else [])"
      "publish_commands env ha model (s\<lparr>announced := dict_set (announced s) ha fs,
         published := published s @ ms\<rparr>) = (r, s')"
proof (cases "fst ` set merged \<subseteq> set (known_fields s ha)")
  case True
  with assms known show ?thesis by (auto simp: announce_fields_def known_fields_def Let_def)
next
  case False
  then show ?thesis
    using assms by (intro new [OF refl refl])
      (simp add: announce_fields_def known_fields_def publish_def Let_def split: if_split_asm)
qed

lemma announce_fields_keeps:
  assumes "announce_fields env ha model merged s = (r, s')"
  shows "last_published s' = last_published s" "merged_view s' = merged_view s" "dev_by_ha s' = dev_by_ha s"
    "fst ` set merged \<subseteq> set (known_fields s' ha)"
    "ha' \<noteq> ha \<Longrightarrow> map_of (announced s') ha' = map_of (announced s) ha'"
  by (rule announce_fields_cases [OF assms]; force simp: known_fields_def dest: publish_commands_fields)+

lemma publish_merged_fields [simp]:
  "merged_view (publish_merged ha m s) = merged_view s" "announced (publish_merged ha m s) = announced s"
  "cmd_entities (publish_merged ha m s) = cmd_entities s" "dev_by_ha (publish_merged ha m s) = dev_by_ha s"
  by (simp_all add: publish_merged_def split: option.splits)

section \<open>What the broker retains\<close>

definition retained_on :: "str \<Rightarrow> mqtt_message list \<Rightarrow> mqtt_message option" where
  "retained_on t ms = find (\<lambda>m. m_topic m = t) (rev ms)"

lemma retained_on_append:
  "retained_on t (ms @ ns) = (case retained_on t ns of None \<Rightarrow> retained_on t ms | Some m \<Rightarrow> Some m)"
proof -
  have "find P (xs @ ys) = (case find P xs of None \<Rightarrow> find P ys | Some m \<Rightarrow> Some m)" for P and xs ys :: "mqtt_message list"
    by (induction xs) auto
  then show ?thesis by (simp add: retained_on_def split: option.splits)
qed

lemma retained_on_other: "t \<notin> m_topic ` set ns \<Longrightarrow> retained_on t (ms @ ns) = retained_on t ms"
proof -
  assume "t \<notin> m_topic ` set ns"
  then have "retained_on t ns = None" by (auto simp: retained_on_def find_None_iff)
  then show ?thesis by (simp add: retained_on_append)
qed

lemma retained_on_last [simp]: "retained_on t (ms @ [m]) = (if m_topic m = t then Some m else retained_on t ms)"
  by (simp add: retained_on_def)

lemma state_topic_inj [simp]: "state_topic pfx a = state_topic pfx b \<longleftrightarrow> a = b"
  by (simp add: state_topic_def dev_slug_def)

lemma discovery_last:
  "\<forall>m \<in> set (publish_discovery pfx model b fs). last (m_topic m) = CHR ''g''"
  "\<forall>m \<in> set (publish_error_alert_discovery pfx model b). last (m_topic m) = CHR ''g''"
  "\<forall>m \<in> set (publish_command_discovery pfx model b es). last (m_topic m) = CHR ''g''"
  by (simp_all add: publish_discovery_def publish_error_alert_discovery_def publish_command_discovery_def
      retained_def sensor_topic_def)

abbreviation stateless :: "mqtt_message list \<Rightarrow> bool" where
  "stateless ns \<equiv> \<forall>a. state_topic discovery_prefix a \<notin> m_topic ` set ns"

lemma statelessI: "\<forall>m \<in> set ns. last (m_topic m) = CHR ''g'' \<Longrightarrow> stateless ns"
proof (intro allI notI)
  fix a assume "\<forall>m \<in> set ns. last (m_topic m) = CHR ''g''" "state_topic discovery_prefix a \<in> m_topic ` set ns"
  then have "last (state_topic discovery_prefix a) = CHR ''g''" by auto
  then show False by (simp add: state_topic_def)
qed

lemma publish_commands_published:
  assumes "publish_commands env ha model s = (r, s')"
  shows "\<exists>ns. published s' = published s @ ns \<and> stateless ns"
proof -
  have "s' = s \<or> (\<exists>es. published s' = published s @ publish_command_discovery discovery_prefix model ha es)"
    using assms by (auto simp: publish_commands_def publish_def split: if_splits sum.splits)
  then show ?thesis
  proof
    assume "s' = s"
    then show ?thesis by (intro exI [of _ "[]"]) simp
  qed (use discovery_last(3) statelessI in blast)
qed

lemma sensor_topics: "m_topic ` set (publish_discovery pfx model ha fs) = sensor_topic pfx ha ` set fs"
  by (force simp: publish_discovery_def retained_def)

lemma announce_fields_published:
  assumes "announce_fields env ha model merged s = (r, s')"
  obtains ns where "published s' = published s @ ns" "stateless ns"
    "known_fields s' ha = known_fields s ha \<or>
       sensor_topic discovery_prefix ha ` set (known_fields s' ha) \<subseteq> m_topic ` set ns"
proof (rule announce_fields_cases [OF assms])
  assume "s' = s"
  then show ?thesis using that [of "[]"] by simp
next
  fix fs ms
  let ?s2 = "s\<lparr>announced := dict_set (announced s) ha fs, published := published s @ ms\<rparr>"
  assume ms: "ms = publish_discovery discovery_prefix model ha fs @
         (if ''Error'' \<in> fst ` set merged then publish_error_alert_discovery discovery_prefix model ha else [])"
    and pc: "publish_commands env ha model ?s2 = (r, s')"
  obtain ns where ns: "published s' = published ?s2 @ ns" "stateless ns"
    using publish_commands_published [OF pc] by blast
  have "stateless ms"
    by (rule statelessI) (use discovery_last(1,2) in \<open>auto simp: ms\<close>)
  moreover have "sensor_topic discovery_prefix ha ` set (known_fields s' ha) \<subseteq> m_topic ` set ms"
    using publish_commands_fields(3) [OF pc] sensor_topics [of discovery_prefix model ha fs]
    by (auto simp: known_fields_def ms)
  ultimately show ?thesis using ns by (intro that [of "ms @ ns"]) auto
qed

section \<open>The invariant\<close>

text \<open>
  Every field of a merged state has been announced on its sensor topic; the state the broker
  retains for an identity is the last one the sink thinks it published; the command entities
  are those of a modelJson with that identity.
\<close>

definition covers :: "mqtt_sink \<Rightarrow> bool" where
  "covers s \<longleftrightarrow> (\<forall>ha m. map_of (merged_view s) ha = Some m \<longrightarrow> fst ` set m \<subseteq> set (known_fields s ha))"

definition announces :: "mqtt_sink \<Rightarrow> bool" where
  "announces s \<longleftrightarrow> (\<forall>ha. sensor_topic discovery_prefix ha ` set (known_fields s ha) \<subseteq> m_topic ` set (published s))"

definition in_sync :: "mqtt_sink \<Rightarrow> bool" where
  "in_sync s \<longleftrightarrow> (\<forall>ha. retained_on (state_topic discovery_prefix ha) (published s) =
     map_option (\<lambda>m. hd (publish_state discovery_prefix m ha)) (map_of (last_published s) ha))"

definition vetted :: "bridge_env \<Rightarrow> mqtt_sink \<Rightarrow> bool" where
  "vetted env s \<longleftrightarrow> (\<forall>ha es sl e. map_of (cmd_entities s) ha = Some es \<longrightarrow> map_of es sl = Some e \<longrightarrow>
     entities_of env ha e \<and> e_slug e = sl)"

definition sink_ok :: "bridge_env \<Rightarrow> mqtt_sink \<Rightarrow> bool" where
  "sink_ok env s \<longleftrightarrow> covers s \<and> announces s \<and> in_sync s \<and> vetted env s"

lemma in_sync_publish:
  assumes "in_sync s"
  shows "in_sync (publish_merged ha m s)"
proof -
  have "publish_state discovery_prefix m ha = [hd (publish_state discovery_prefix m ha)]"
    "m_topic (hd (publish_state discovery_prefix m ha)) = state_topic discovery_prefix ha"
    by (simp_all add: publish_state_def)
  then have "in_sync (publish (publish_state discovery_prefix m ha) (s\<lparr>last_published := dict_set (last_published s) ha m\<rparr>))"
    using assms unfolding in_sync_def by (metis (mono_tags, lifting) fun_upd_apply map_of_dict_set
        mqtt_sink.select_convs(1) mqtt_sink.select_convs(6) mqtt_sink.surjective mqtt_sink.update_convs(1)
        option.simps(9) publish_fields(1) publish_fields(6) retained_on_last state_topic_inj)
  with assms show ?thesis by (auto simp: publish_merged_def split: option.splits)
qed

text \<open>The stages of a call, for the proofs about it.\<close>

lemma sink_call_cases:
  assumes "sink_call env dev payload s = (r, s')"
  obtains (silent) "published s' = published s" "merged_view s' = merged_view s" "announced s' = announced s"
      "cmd_entities s' = cmd_entities s" "last_published s' = last_published s"
      "r = Inr () \<or> truthy (get_or payload ''modelName'' JNull) \<and> (\<exists>e. view_items [] payload = Inl e)"
  | (view) model ha view prev s2 r3 s3 where
      "truthy (get_or payload ''modelName'' JNull)" "model = py_str (get_or payload ''modelName'' JNull)"
      "ha = stable_key model" "view_items [] payload = Inr view" "view \<noteq> []"
      "prev = (case map_of (merged_view s) ha of None \<Rightarrow> [] | Some m \<Rightarrow> m)"
      "s2 = s\<lparr>dev_by_ha := dict_set (dev_by_ha s) ha dev,
              merged_view := dict_set (merged_view s) ha (merge_view prev view)\<rparr>"
      "announce_fields env ha model (merge_view prev view) s2 = (r3, s3)" "r = r3"
      "s' = (case r3 of Inl e \<Rightarrow> s3 | Inr _ \<Rightarrow> publish_merged ha (merge_view prev view) s3)"
proof (cases "truthy (get_or payload ''modelName'' JNull)")
  case False
  with assms silent show ?thesis by (auto simp: sink_call_def)
next
  case True
  show ?thesis
  proof (cases "view_items [] payload")
    case (Inl e)
    with assms True silent show ?thesis by (auto simp: sink_call_def Let_def)
  next
    case (Inr v)
    show ?thesis
    proof (cases "v = []")
      case True
      with assms Inr silent \<open>truthy _\<close> show ?thesis by (auto simp: sink_call_def Let_def)
    next
      case False
      let ?model = "py_str (get_or payload ''modelName'' JNull)"
      let ?ha = "stable_key ?model"
      let ?prev = "case map_of (merged_view s) ?ha of None \<Rightarrow> [] | Some m \<Rightarrow> m"
      let ?s2 = "s\<lparr>dev_by_ha := dict_set (dev_by_ha s) ?ha dev,
              merged_view := dict_set (merged_view s) ?ha (merge_view ?prev v)\<rparr>"
      obtain r3 s3 where a: "announce_fields env ?ha ?model (merge_view ?prev v) ?s2 = (r3, s3)" by fastforce
      show ?thesis
        by (rule view [OF True refl refl Inr False refl refl a])
          (use assms True Inr False a in \<open>auto simp: sink_call_def Let_def split: sum.splits\<close>)
    qed
  qed
qed

lemma publish_merged_known [simp]: "known_fields (publish_merged ha m s) a = known_fields s a"
  by (simp add: known_fields_def)

lemma publish_merged_published: "set (published s) \<subseteq> set (published (publish_merged ha m s))"
  by (auto simp: publish_merged_def publish_def split: option.splits)

lemma sink_ok_publish:
  assumes "sink_ok env s"
  shows "sink_ok env (publish_merged ha m s)"
proof -
  have "announces (publish_merged ha m s)"
    using assms publish_merged_published [of s ha m] unfolding sink_ok_def announces_def
    by (metis image_mono publish_merged_known subset_trans)
  with assms in_sync_publish [of s ha m] show ?thesis
    by (simp add: sink_ok_def covers_def vetted_def)
qed

lemma vetted_announce:
  assumes "announce_fields env (stable_key model) model m s = (r, s')" "vetted env s"
  shows "vetted env s'"
proof (rule announce_fields_cases [OF assms(1)])
  fix fs ms
  assume pc: "publish_commands env (stable_key model) model
    (s\<lparr>announced := dict_set (announced s) (stable_key model) fs, published := published s @ ms\<rparr>) = (r, s')"
  show ?thesis
    unfolding vetted_def using publish_commands_entities [OF pc] assms(2) by (fastforce simp: vetted_def)
qed (use assms in simp)

lemma announce_fields_ok:
  assumes "announce_fields env ha model m s = (r, s')" "ha = stable_key model"
    and "announces s" "in_sync s" "vetted env s" "map_of (merged_view s) ha = Some m"
    and "\<And>ha' m'. ha' \<noteq> ha \<Longrightarrow> map_of (merged_view s) ha' = Some m' \<Longrightarrow> fst ` set m' \<subseteq> set (known_fields s ha')"
  shows "sink_ok env s'"
proof -
  note kept = announce_fields_keeps [OF assms(1)]
  have known: "known_fields s' a = known_fields s a" if "a \<noteq> ha" for a
    using kept(5) [OF that] by (simp add: known_fields_def)
  obtain ns where ns: "published s' = published s @ ns" "stateless ns"
      "known_fields s' ha = known_fields s ha \<or>
        sensor_topic discovery_prefix ha ` set (known_fields s' ha) \<subseteq> m_topic ` set ns"
    by (rule announce_fields_published [OF assms(1)])
  have "covers s'"
    unfolding covers_def using kept(2,4) known assms(6,7) by (metis option.inject)
  moreover have "announces s'"
    unfolding announces_def
  proof
    fix a
    show "sensor_topic discovery_prefix a ` set (known_fields s' a) \<subseteq> m_topic ` set (published s')"
    proof (cases "a = ha")
      case True
      from assms(3) have "sensor_topic discovery_prefix ha ` set (known_fields s ha) \<subseteq> m_topic ` set (published s)"
        by (simp add: announces_def)
      with ns(1,3) True show ?thesis by (metis image_Un le_supI1 le_supI2 set_append)
    next
      case False
      with known assms(3) ns(1) show ?thesis unfolding announces_def by (metis image_Un le_supI1 set_append)
    qed
  qed
  moreover have "in_sync s'"
    using assms(4) ns(1,2) kept(1) by (simp add: in_sync_def retained_on_other)
  ultimately show ?thesis
    using vetted_announce assms(1,2,5) by (auto simp: sink_ok_def)
qed

fun sink_step :: "bridge_env \<Rightarrow> str \<times> jdict \<Rightarrow> mqtt_sink \<Rightarrow> mqtt_sink" where
  "sink_step env (dev, payload) s = snd (sink_call env dev payload s)"

lemma sink_ok_step:
  assumes "sink_ok env s"
  shows "sink_ok env (sink_step env e s)"
proof -
  obtain dev payload r s' where e: "e = (dev, payload)" "sink_call env dev payload s = (r, s')"
    by (metis surj_pair)
  from e(2) have "sink_ok env s'"
  proof (cases rule: sink_call_cases)
    case silent
    with assms show ?thesis
      by (simp add: sink_ok_def covers_def announces_def in_sync_def vetted_def known_fields_def)
  next
    case (view model ha v prev s2 r3 s3)
    have "sink_ok env s3"
      by (rule announce_fields_ok [OF view(8) view(3)])
        (use assms in \<open>auto simp: view(7) sink_ok_def covers_def announces_def in_sync_def vetted_def
           known_fields_def\<close>)
    then show ?thesis by (auto simp: view(10) intro: sink_ok_publish split: sum.splits)
  qed
  with e show ?thesis by simp
qed

interpretation sink_loop: event_loop "sink_step env" "sink_ok env" "\<lambda>_. True" for env
  by unfold_locales (rule sink_ok_step)

lemma sink_ok_new: "sink_ok env new_sink"
  by (simp add: sink_ok_def covers_def announces_def in_sync_def vetted_def known_fields_def new_sink_def
      retained_on_def)

lemma sink_ok_run: "sink_ok env (foldl (\<lambda>s e. sink_step env e s) new_sink es)"
  by (rule sink_loop.fold_inv [OF sink_ok_new]) (simp add: list_all_iff)

section \<open>What is published\<close>

lemma dict_ok_view:
  "view_items view ps = Inr view' \<Longrightarrow> dict_ok view \<Longrightarrow> dict_ok view'"
proof (induction view ps rule: view_items.induct)
  case (2 view k v ps)
  then obtain view1 where "view_item view k v = Inr view1" "view_items view1 ps = Inr view'"
    by (auto simp: rbind_Inr_iff)
  moreover from this 2(3) have "dict_ok view1"
    by (auto simp: view_item_def Let_def rbind_Inr_iff split: if_splits json.splits)
  ultimately show ?case using 2 by simp
qed simp

lemma merge_view_lookup:
  assumes "dict_ok view"
  shows "map_of (merge_view prev view) f =
    (if f = ''reserve_countdown'' \<and> truthy (get_or view ''State'' JNull) \<and>
        get_or view ''State'' JNull \<noteq> JStr ''WM_STATE_RESERVE''
     then Some (JStr []) else case map_of view f of Some v \<Rightarrow> Some v | None \<Rightarrow> map_of prev f)"
  using assms by (auto simp: merge_view_def Let_def map_of_dict_update map_add_def split: option.splits)

lemma merge_view_grows: "fst ` set prev \<union> fst ` set view \<subseteq> fst ` set (merge_view prev view)"
  by (auto simp: merge_view_def Let_def)

lemma dict_ok_merge: "dict_ok prev \<Longrightarrow> dict_ok (merge_view prev view)"
  by (simp add: merge_view_def Let_def)

lemma publish_merged_last:
  "\<exists>m. map_of (last_published (publish_merged ha merged s)) ha = Some m \<and>
     (m = merged \<or> py_eq (JObj m) (JObj merged))"
  by (auto simp: publish_merged_def split: option.splits)

lemma sink_call_current:
  assumes "sink_ok env s" "sink_call env dev payload s = (Inr (), s')"
    and "truthy (get_or payload ''modelName'' JNull)" "view_items [] payload = Inr view" "view \<noteq> []"
    and "ha = stable_key (py_str (get_or payload ''modelName'' JNull))"
    and "merged = merge_view (case map_of (merged_view s) ha of None \<Rightarrow> [] | Some m \<Rightarrow> m) view"
  shows "map_of (merged_view s') ha = Some merged \<and>
    (\<exists>m. (m = merged \<or> py_eq (JObj m) (JObj merged)) \<and>
       retained_on (state_topic discovery_prefix ha) (published s') = Some (hd (publish_state discovery_prefix m ha))) \<and>
    (\<forall>f \<in> fst ` set merged. sensor_topic discovery_prefix ha f \<in> m_topic ` set (published s'))"
proof -
  have ok: "sink_ok env s'"
    using sink_ok_step [OF assms(1), of "(dev, payload)"] assms(2) by simp
  obtain s3 where s3: "announce_fields env ha (py_str (get_or payload ''modelName'' JNull)) merged
      (s\<lparr>dev_by_ha := dict_set (dev_by_ha s) ha dev, merged_view := dict_set (merged_view s) ha merged\<rparr>) = (Inr (), s3)"
      "s' = publish_merged ha merged s3"
    using assms(2-7) by (auto simp: sink_call_def Let_def split: prod.splits sum.splits)
  then have "map_of (merged_view s') ha = Some merged"
    using announce_fields_keeps(2) [OF s3(1)] by simp
  moreover from this ok have "\<forall>f \<in> fst ` set merged. sensor_topic discovery_prefix ha f \<in> m_topic ` set (published s')"
    unfolding sink_ok_def covers_def announces_def by (meson imageI subset_iff)
  ultimately show ?thesis
    using ok publish_merged_last [of ha merged s3] s3(2) by (auto simp: sink_ok_def in_sync_def)
qed

text \<open>
  C38. After a call that returns, Home Assistant sees the truth: the payload's view is merged over
  what was known, the broker retains the merged state (or one equal to it) on the state topic of
  the identity, and every field in it has been announced.
\<close>

theorem bridge_state_current:
  assumes "s = foldl (\<lambda>s e. sink_step env e s) new_sink es"
    and "sink_call env dev payload s = (Inr (), s')"
    and "truthy (get_or payload ''modelName'' JNull)" "view_items [] payload = Inr view" "view \<noteq> []"
    and "ha = stable_key (py_str (get_or payload ''modelName'' JNull))"
    and "merged = merge_view (case map_of (merged_view s) ha of None \<Rightarrow> [] | Some m \<Rightarrow> m) view"
  shows "map_of (merged_view s') ha = Some merged \<and>
    (\<exists>m. (m = merged \<or> py_eq (JObj m) (JObj merged)) \<and>
       retained_on (state_topic discovery_prefix ha) (published s') = Some (hd (publish_state discovery_prefix m ha))) \<and>
    (\<forall>f \<in> fst ` set merged. sensor_topic discovery_prefix ha f \<in> m_topic ` set (published s'))"
  by (rule sink_call_current [OF _ assms(2-7)]) (simp add: assms(1) sink_ok_run)

text \<open>
  A value that has been known is never unlearned: fields absent from a payload keep their
  last value, fields present take the new one, and when a fresh state ends the reservation the
  countdown becomes the empty string instead of disappearing.
\<close>

lemma last_known_wins:
  assumes "view_items [] payload = Inr view"
  shows "map_of (merge_view prev view) f =
      (if f = ''reserve_countdown'' \<and> truthy (get_or view ''State'' JNull) \<and>
          get_or view ''State'' JNull \<noteq> JStr ''WM_STATE_RESERVE''
       then Some (JStr []) else case map_of view f of Some v \<Rightarrow> Some v | None \<Rightarrow> map_of prev f) \<and>
    (map_of prev f \<noteq> None \<longrightarrow> map_of (merge_view prev view) f \<noteq> None)"
proof -
  have "dict_ok view" using dict_ok_view [OF assms] by simp
  from merge_view_lookup [OF this, of prev f] show ?thesis by (auto split: option.splits)
qed

text \<open>The device an identity routes to is one that reported under it.\<close>

lemma sink_call_route:
  assumes "sink_call env dev payload s = (r, s')"
  shows "dev_by_ha s' = dev_by_ha s \<or> truthy (get_or payload ''modelName'' JNull) \<and>
    dev_by_ha s' = dict_set (dev_by_ha s) (stable_key (py_str (get_or payload ''modelName'' JNull))) dev"
  using assms announce_fields_keeps(3)
  by (fastforce simp: sink_call_def Let_def split: if_splits sum.splits prod.splits)

lemma route_reported:
  assumes "map_of (dev_by_ha (foldl (\<lambda>s e. sink_step env e s) new_sink es)) ha = Some dev"
  shows "\<exists>p. (dev, p) \<in> set es \<and> truthy (get_or p ''modelName'' JNull) \<and>
    stable_key (py_str (get_or p ''modelName'' JNull)) = ha"
  using assms
proof (induction es rule: rev_induct)
  case Nil
  then show ?case by (simp add: new_sink_def)
next
  case (snoc x es)
  obtain d p r s' where x: "x = (d, p)"
      "sink_call env d p (foldl (\<lambda>s e. sink_step env e s) new_sink es) = (r, s')"
    by (metis surj_pair)
  with sink_call_route [OF x(2)] snoc show ?case by (auto split: if_splits)
qed

lemma on_message_vetted:
  assumes "sink_ok env s" "on_message s topic payload = Some (dev, wire)"
  shows "commands_on env \<and> w_opt wire = JStr ''Set'' \<and> truthy (w_cmd wire) \<and> length (w_value wire) = 1 \<and>
    (\<exists>ha component sl e. parse_command_topic discovery_prefix topic = Some (ha, component, sl) \<and>
       entities_of env ha e \<and> e_slug e = sl \<and> to_wire e (utf8_replace payload) = Some wire \<and>
       map_of (dev_by_ha s) ha = Some dev)"
proof -
  obtain ha c sl ents e where m: "parse_command_topic discovery_prefix topic = Some (ha, c, sl)"
      "map_of (cmd_entities s) ha = Some ents" "map_of ents sl = Some e" "map_of (dev_by_ha s) ha = Some dev"
      "to_wire e (utf8_replace payload) = Some wire"
    using assms(2) by (auto simp: on_message_def bind_eq_Some_conv)
  moreover have "entities_of env ha e" "e_slug e = sl"
    using assms(1) m(2,3) unfolding sink_ok_def vetted_def by blast+
  moreover have "w_opt wire = JStr ''Set'' \<and> truthy (w_cmd wire) \<and> length (w_value wire) = 1"
    using calculation entity_sends_set [of _ _ e _ wire] by (auto simp: entities_of_def)
  moreover from calculation have "commands_on env" by (simp add: entities_of_def)
  ultimately show ?thesis by blast
qed

text \<open>
  Whatever payloads have arrived and whatever Home Assistant sends on whatever topic: a
  message leads to a command only if control is on, the command is a \<open>Set\<close> with one value that
  the addressed entity of the identity's own modelJson gives, and it goes to a device that has
  reported under that identity.
\<close>

lemma ha_commands_vetted:
  assumes "on_message (foldl (\<lambda>s e. sink_step env e s) new_sink es) topic payload = Some (dev, wire)"
  shows "commands_on env \<and> w_opt wire = JStr ''Set'' \<and> truthy (w_cmd wire) \<and> length (w_value wire) = 1 \<and>
    (\<exists>ha component sl e p. parse_command_topic discovery_prefix topic = Some (ha, component, sl) \<and>
       entities_of env ha e \<and> e_slug e = sl \<and> to_wire e (utf8_replace payload) = Some wire \<and>
       (dev, p) \<in> set es \<and> truthy (get_or p ''modelName'' JNull) \<and>
       stable_key (py_str (get_or p ''modelName'' JNull)) = ha)"
proof -
  note v = on_message_vetted [OF sink_ok_run assms]
  then obtain ha c sl e where m: "parse_command_topic discovery_prefix topic = Some (ha, c, sl)"
      "entities_of env ha e" "e_slug e = sl" "to_wire e (utf8_replace payload) = Some wire"
      "map_of (dev_by_ha (foldl (\<lambda>s e. sink_step env e s) new_sink es)) ha = Some dev" by blast
  show ?thesis using v m(1-4) route_reported [OF m(5)] by blast
qed

section \<open>Deduplication\<close>

lemma set_dict_set_subset: "set (dict_set d k v) \<subseteq> insert (k, v) (set d)"
  by (induction d) auto

lemma dicts_ok_set [intro]: "dicts_ok (JObj d) \<Longrightarrow> dicts_ok v \<Longrightarrow> dicts_ok (JObj (dict_set d k v))"
  using set_dict_set_subset [of k v d] by (fastforce simp: list_all_iff)

lemma dicts_ok_update [intro]: "dicts_ok (JObj d) \<Longrightarrow> list_all (\<lambda>p. dicts_ok (snd p)) e \<Longrightarrow> dicts_ok (JObj (dict_update d e))"
proof (induction d e rule: dict_update.induct)
  case (2 d k v e)
  then have "dicts_ok (JObj (dict_set d k v))" by (auto simp del: dicts_ok.simps)
  with 2 show ?case by simp
qed simp

lemma countdown_str: "reserve_countdown d = Inr c \<Longrightarrow> dicts_ok c"
  by (auto simp: reserve_countdown_def Let_def rbind_Inr_iff)

lemma dicts_ok_view_item:
  assumes "view_item view k v = Inr view'" "dicts_ok (JObj view)" "dicts_ok v"
  shows "dicts_ok (JObj view')"
proof (cases "\<exists>d. v = JObj d \<and> k \<notin> set excluded_keys \<and> (endswith k ''_decoded'' \<or> k = ''diagData'')")
  case False
  then have "view' = view \<or> view' = dict_set view k v"
    using assms(1) by (cases v) (auto simp: view_item_def split: if_split_asm)
  with assms(2,3) show ?thesis using dicts_ok_set by blast
next
  case True
  then obtain d where d: "v = JObj d" "k \<notin> set excluded_keys" "endswith k ''_decoded'' \<or> k = ''diagData''"
    by blast
  let ?diag = "map (\<lambda>(ik, iv). (''diagData_'' @ ik, iv)) (filter (\<lambda>(ik, iv). ik \<notin> {''raw'', ''len''}) d)"
  have vals: "list_all (\<lambda>p. dicts_ok (snd p)) d" "list_all (\<lambda>p. dicts_ok (snd p)) ?diag"
    using assms(3) d(1) by (auto simp: list_all_iff)
  have "view' = dict_update view ?diag \<or> view' = dict_update view d \<or>
      (\<exists>c. reserve_countdown d = Inr c \<and> view' = dict_set (dict_update view d) ''reserve_countdown'' c)"
    using assms(1) d
    by (auto simp add: view_item_def Let_def rbind_Inr_iff simp del: fst_image_dict_update split: if_split_asm)
  then show ?thesis
    using dicts_ok_update [OF assms(2) vals(1)] dicts_ok_update [OF assms(2) vals(2)] dicts_ok_set countdown_str
    by metis
qed

lemma dicts_ok_view:
  "view_items view ps = Inr view' \<Longrightarrow> dicts_ok (JObj view) \<Longrightarrow> list_all (\<lambda>p. dicts_ok (snd p)) ps \<Longrightarrow>
   dicts_ok (JObj view')"
proof (induction view ps rule: view_items.induct)
  case (2 view k v ps)
  then obtain view1 where v1: "view_item view k v = Inr view1" "view_items view1 ps = Inr view'"
    by (auto simp: rbind_Inr_iff)
  with 2 show ?case by (auto intro: dicts_ok_view_item simp del: dicts_ok.simps)
qed simp

lemma dicts_ok_merge:
  "dicts_ok (JObj prev) \<Longrightarrow> dicts_ok (JObj view) \<Longrightarrow> dicts_ok (JObj (merge_view prev view))"
  by (auto simp: merge_view_def Let_def simp del: dicts_ok.simps(2) intro!: dicts_ok_set dicts_ok_update)
    simp_all

definition tidy :: "mqtt_sink \<Rightarrow> bool" where
  "tidy s \<longleftrightarrow> (\<forall>ha m. map_of (merged_view s) ha = Some m \<longrightarrow> dicts_ok (JObj m))"

lemma tidy_prev:
  "tidy s \<Longrightarrow> dicts_ok (JObj (case map_of (merged_view s) ha of None \<Rightarrow> [] | Some m \<Rightarrow> m))"
  by (auto simp: tidy_def simp del: dicts_ok.simps(2) split: option.splits) simp

lemma dicts_ok_payload_view: "view_items [] payload = Inr view \<Longrightarrow> dicts_ok (JObj payload) \<Longrightarrow> dicts_ok (JObj view)"
  by (erule dicts_ok_view) simp_all

lemma tidy_step:
  assumes "tidy s" "dicts_ok (JObj (snd e))"
  shows "tidy (sink_step env e s)"
proof -
  obtain dev payload r s' where e: "e = (dev, payload)" "sink_call env dev payload s = (r, s')"
    by (metis surj_pair)
  from e(2) have "tidy s'"
  proof (cases rule: sink_call_cases)
    case silent
    with assms(1) show ?thesis by (simp add: tidy_def)
  next
    case (view model ha v prev s2 r3 s3)
    have "dicts_ok (JObj (merge_view prev v))"
      using dicts_ok_merge dicts_ok_payload_view [OF view(4)] tidy_prev [OF assms(1)] view(6) assms(2) e(1)
      by auto
    moreover have "merged_view s' = merged_view s2"
      using announce_fields_keeps(2) [OF view(8)] by (simp add: view(10) split: sum.splits)
    ultimately show ?thesis using assms(1) by (auto simp: view(7) tidy_def)
  qed
  with e show ?thesis by simp
qed

interpretation tidy_loop: event_loop "sink_step env" tidy "\<lambda>e. dicts_ok (JObj (snd e))" for env
  by unfold_locales (rule tidy_step)

lemma py_eq_same_map:
  assumes "dict_ok qs" "dict_ok qs'" "map_of qs = map_of qs'"
  shows "py_eq (JObj ps) (JObj qs) = py_eq (JObj ps) (JObj qs')"
proof -
  have "length qs = card (dom (map_of qs))" if "dict_ok qs" for qs :: jdict
    using that by (metis distinct_card dom_map_of_conv_image_fst length_map set_map)
  with assms have "length qs = length qs'" by metis
  with assms(3) show ?thesis by simp
qed

lemma merge_again:
  assumes "dict_ok view"
  shows "map_of (merge_view (merge_view prev view) view) = map_of (merge_view prev view)"
  using merge_view_lookup [OF assms] by (auto simp: fun_eq_iff split: option.splits)

text \<open>
  The same payload again publishes nothing: neither a state nor an announcement, whatever
  was reported before by whatever devices.
\<close>

lemma republish_silent:
  assumes "list_all (\<lambda>e. dicts_ok (JObj (snd e))) es" "dicts_ok (JObj payload)"
    and "s = foldl (\<lambda>s e. sink_step env e s) new_sink es"
    and "sink_call env dev payload s = (Inr (), s1)" "sink_call env dev payload s1 = (r, s2)"
  shows "r = Inr () \<and> published s2 = published s1"
  using assms(5)
proof (cases rule: sink_call_cases)
  case silent
  from assms(4) have "\<not> (truthy (get_or payload ''modelName'' JNull) \<and> (\<exists>e. view_items [] payload = Inl e))"
    by (auto simp: sink_call_def Let_def)
  with silent show ?thesis by simp
next
  case (view model ha v prev t2 r3 t3)
  let ?prev = "case map_of (merged_view s) ha of None \<Rightarrow> [] | Some m \<Rightarrow> m"
  have tidy: "tidy s"
    unfolding assms(3) by (rule tidy_loop.fold_inv [OF _ assms(1)]) (simp add: tidy_def new_sink_def)
  have v: "dicts_ok (JObj v)" using dicts_ok_payload_view [OF view(4) assms(2)] .
  have merged: "dicts_ok (JObj (merge_view ?prev v))" using dicts_ok_merge [OF tidy_prev [OF tidy] v] .
  obtain s3 where s3: "announce_fields env ha model (merge_view ?prev v)
      (s\<lparr>dev_by_ha := dict_set (dev_by_ha s) ha dev, merged_view := dict_set (merged_view s) ha (merge_view ?prev v)\<rparr>)
        = (Inr (), s3)" "s1 = publish_merged ha (merge_view ?prev v) s3"
    using assms(4) view(1-5) by (auto simp: sink_call_def Let_def split: prod.splits sum.splits)
  have s1: "map_of (merged_view s1) ha = Some (merge_view ?prev v)"
    "fst ` set (merge_view ?prev v) \<subseteq> set (known_fields s1 ha)"
    using announce_fields_keeps(2,4) [OF s3(1)] s3(2) by simp_all
  then have prev: "prev = merge_view ?prev v" using view(6) by simp
  have again: "map_of (merge_view prev v) = map_of prev" using merge_again v by (simp add: prev)
  then have keys: "fst ` set (merge_view prev v) = fst ` set prev" by (metis dom_map_of_conv_image_fst)
  have "known_fields t2 ha = known_fields s1 ha" by (simp add: view(7) known_fields_def)
  with s1(2) keys prev have "set (dict_keys (merge_view prev v)) \<subseteq> set (known_fields t2 ha)" by simp
  then have t3: "r3 = Inr ()" "t3 = t2"
    using view(8) by (auto simp: announce_fields_def known_fields_def Let_def)
  obtain m where m: "map_of (last_published s1) ha = Some m" "m = prev \<or> py_eq (JObj m) (JObj prev)"
    using publish_merged_last [of ha "merge_view ?prev v" s3] s3(2) prev by auto
  moreover have "dicts_ok (JObj prev)" using merged prev by simp
  ultimately have "py_eq (JObj m) (JObj prev)" using py_eq_refl by blast
  moreover have "dict_ok (merge_view prev v)" "dict_ok prev"
    using \<open>dicts_ok (JObj prev)\<close> v by (simp_all add: dict_ok_merge)
  ultimately have "py_eq (JObj m) (JObj (merge_view prev v))" using py_eq_same_map [OF _ _ again] by blast
  then show ?thesis using m(1) t3 by (simp add: view(9,10) publish_merged_def view(7))
qed

section \<open>Limits of the bridge\<close>

text \<open>
  \<open>diagData\<close> is one of the excluded keys, so the branch that would spread the cycle summary is
  never reached.
\<close>

lemma cycle_summary_never_published: "view_item view ''diagData'' v = Inr view"
  by (simp add: view_item_def excluded_keys_def binary_fields_def)

text \<open>
  The subscription filter puts a wildcard inside a level. A client that refuses such a filter
  makes every call raise and the sink is never built, so nothing at all is published.
\<close>

lemma command_filter_malformed:
  "\<exists>level \<in> set (split_on (CHR ''/'') command_filter). CHR ''+'' \<in> set level \<and> level \<noteq> ''+''"
  by (intro bexI [of _ "''lgthinq_+''"]) (simp_all add: command_filter_def)

lemma refused_filter_blocks:
  assumes "commands_on env" "\<not> subscribe_ok b command_filter" "the_sink l = None" "connect_ok b"
  shows "lazy_call env b dev payload l = (Inl ValueError, l)"
  using assms by (simp add: lazy_call_def ensure_def)

text \<open>Until the broker answers, calls are dropped; the first one after that meets a new sink.\<close>

lemma broker_down_harmless:
  assumes "the_sink l = None" "\<not> connect_ok b"
  shows "lazy_call env b dev payload l = (Inr (), l\<lparr>logged_down := True\<rparr>)"
    and "connect_ok b' \<Longrightarrow> \<not> commands_on env \<Longrightarrow>
      lazy_call env b' dev' payload' (l\<lparr>logged_down := True\<rparr>) =
        (case sink_call env dev' payload' new_sink of (r, s) \<Rightarrow> (r, \<lparr>the_sink = Some s, logged_down = True\<rparr>))"
  using assms by (cases l; simp add: lazy_call_def ensure_def)+

section \<open>A worked example\<close>

definition sample_bridge_env :: bridge_env where
  "sample_bridge_env = \<lparr>model_json_of = (\<lambda>m. Inr fridge_model), commands_on = True\<rparr>"

definition sample_payload :: jdict where
  "sample_payload = [(''modelName'', JStr ''F1''), (''ts'', JStr ''now''),
     (''monData_decoded'', JObj [(''TempFreezer'', JStr ''-19'')])]"

lemma sample_view: "view_items [] sample_payload = Inr [(''TempFreezer'', JStr ''-19'')]"
  by code_simp

lemma sample_model:
  "py_str (get_or sample_payload ''modelName'' JNull) = ''F1''"
  "truthy (get_or sample_payload ''modelName'' JNull)" "stable_key ''F1'' = ''f1''"
  "get_or [(''TempFreezer'', JStr ''-19'')] ''State'' JNull = JNull" "dicts_ok (JObj sample_payload)"
  by code_simp+

lemma sample_call:
  "\<exists>ms. sink_call sample_bridge_env ''d1'' sample_payload new_sink = (Inr (),
    \<lparr>last_published = [(''f1'', [(''TempFreezer'', JStr ''-19'')])],
     merged_view = [(''f1'', [(''TempFreezer'', JStr ''-19'')])], announced = [(''f1'', [''TempFreezer''])],
     cmd_entities = [(''f1'', [(''tempfreezer'', sample_entity\<lparr>e_options := [(''5'', ''-19''), (''6'', ''CP_OFF_EN'')]\<rparr>)])],
     dev_by_ha = [(''f1'', ''d1'')], published = ms\<rparr>)"
proof -
  have "fridge_model \<noteq> JNull" by (simp add: fridge_model_def)
  then show ?thesis
    by (simp add: sink_call_def sample_model sample_view Let_def new_sink_def merge_view_def announce_fields_def
        publish_def publish_commands_def sample_bridge_env_def fridge_entities publish_merged_def rbind_def
        sample_entity_def dict_of_def)
qed

theorem bridge_state_current_witness:
  "\<exists>s'. sink_call sample_bridge_env ''d1'' sample_payload new_sink = (Inr (), s') \<and>
     map_of (merged_view s') ''f1'' = Some (merge_view [] [(''TempFreezer'', JStr ''-19'')])"
proof -
  obtain s' where s': "sink_call sample_bridge_env ''d1'' sample_payload new_sink = (Inr (), s')"
    using sample_call by blast
  have "map_of (merged_view new_sink) ''f1'' = None" by (simp add: new_sink_def)
  with bridge_state_current [of new_sink sample_bridge_env "[]", OF _ s' sample_model(2) sample_view _ refl refl] s'
  show ?thesis by (simp add: sample_model)
qed

lemma last_known_wins_witness:
  "map_of (merge_view [(''Door'', JStr ''OPEN'')] [(''TempFreezer'', JStr ''-19'')]) ''Door'' = Some (JStr ''OPEN'')"
  using last_known_wins [OF sample_view, of "[(''Door'', JStr ''OPEN'')]" "''Door''"] by simp

lemma sample_command:
  "\<exists>wire. on_message (foldl (\<lambda>s e. sink_step sample_bridge_env e s) new_sink [(''d1'', sample_payload)])
     ''homeassistant/select/lgthinq_f1/tempfreezer/cmd'' ''-19'' = Some (''d1'', wire) \<and> w_opt wire = JStr ''Set''"
proof -
  obtain s' where s': "sink_call sample_bridge_env ''d1'' sample_payload new_sink = (Inr (), s')"
      "cmd_entities s' = [(''f1'', [(''tempfreezer'', sample_entity\<lparr>e_options := [(''5'', ''-19''), (''6'', ''CP_OFF_EN'')]\<rparr>)])]"
      "dev_by_ha s' = [(''f1'', ''d1'')]"
    using sample_call by fastforce
  have "parse_command_topic discovery_prefix ''homeassistant/select/lgthinq_f1/tempfreezer/cmd'' =
      Some (''f1'', ''select'', ''tempfreezer'')" "utf8_replace ''-19'' = ''-19''"
    by code_simp+
  then obtain wire where "on_message (foldl (\<lambda>s e. sink_step sample_bridge_env e s) new_sink [(''d1'', sample_payload)])
     ''homeassistant/select/lgthinq_f1/tempfreezer/cmd'' ''-19'' = Some (''d1'', wire)"
    using s' by (simp add: on_message_def to_wire_def sample_entity_def)
  with ha_commands_vetted [OF this] show ?thesis by blast
qed

lemma republish_silent_witness:
  "\<exists>s1 r s2. sink_call sample_bridge_env ''d1'' sample_payload new_sink = (Inr (), s1) \<and>
     sink_call sample_bridge_env ''d1'' sample_payload s1 = (r, s2) \<and> published s2 = published s1"
proof -
  obtain s1 where s1: "sink_call sample_bridge_env ''d1'' sample_payload new_sink = (Inr (), s1)"
    using sample_call by blast
  obtain r s2 where s2: "sink_call sample_bridge_env ''d1'' sample_payload s1 = (r, s2)" by fastforce
  have "published s2 = published s1"
    using republish_silent [OF _ sample_model(5) _ s1 s2, of "[]"] by simp
  with s1 s2 show ?thesis by blast
qed

end
