(* ===== verification/App.thy ===== *)
theory App
  imports Replay MqttBridge
begin

text \<open>
  \<open>server/app.py\<close>: the fake cloud's HTTP surface. The upstream (LG) is a function of the attempt and
  the request, the control channel's query and the store's movement while it is awaited are
  given; sleeps are recorded in milliseconds. A request path is the target of the request line,
  which starts with one slash.
\<close>

section \<open>Forwarding\<close>

record request =
  r_method :: str
  r_path :: str
  r_headers :: "(str, str) dict"
  r_body :: bytes

definition pinned_upstream_ips :: "str list" where
  [const_defs]: "pinned_upstream_ips = [''52.158.121.103'', ''52.158.31.24'']"

definition targets :: "str \<Rightarrow> str list" where
  "targets host = host # filter (\<lambda>ip. ip \<noteq> host) pinned_upstream_ips"

definition forwarded_headers :: "(str, str) dict \<Rightarrow> (str, str) dict" where
  "forwarded_headers hs =
     filter (\<lambda>(k, v). py_lower k \<notin> {''host'', ''content-length'', ''connection''}) hs"

type_synonym upstream = "request \<Rightarrow> (int \<times> bytes) res"

text \<open>Only an \<open>OSError\<close> (a failed lookup is one) moves on to the next target.\<close>

fun try_targets :: "(str \<Rightarrow> upstream) \<Rightarrow> request \<Rightarrow> str list \<Rightarrow> (int \<times> bytes) res" where
  "try_targets send rq [] = Inl OSError"
| "try_targets send rq (t # ts) = (case send t rq of
      Inr r \<Rightarrow> Inr r
    | Inl e \<Rightarrow> if e = OSError then try_targets send rq ts else Inl e)"

definition forward :: "str \<Rightarrow> (str \<Rightarrow> upstream) \<Rightarrow> upstream" where
  "forward host send rq =
     try_targets send (rq\<lparr>r_headers := forwarded_headers (r_headers rq)\<rparr>) (targets host)"

section \<open>State and environment\<close>

record 's app_env =
  core :: "'s state_env"
  replaying :: replay_env
  bridge_mode :: bool
  forwarder :: "(nat \<Rightarrow> upstream) option"
  query_fn :: "(str \<Rightarrow> json res) option"
  snapshots :: "nat \<Rightarrow> (str, jdict) dict"

record 's app =
  dev_store :: "'s store"
  replayed :: replay_state
  slept :: "nat list"

definition xml_ct :: str where
  [const_defs]: "xml_ct = ''text/xml;charset=utf-8''"

definition registration_endpoints :: "str list" where
  [const_defs]: "registration_endpoints =
     [''/api/Device/TotalDeviceInfoSvc'', ''/api/Rtos/ContentsVerSvc'',
      ''/api/Rtos/FWInfoSettingSvc'', ''/api/Grid/PowerSavingInfoSvc'']"

definition registration_retry_delays :: "nat list" where
  [const_defs]: "registration_retry_delays = [500, 1500]"

definition is_registration :: "str \<Rightarrow> bool" where
  "is_registration path \<longleftrightarrow> list_ex (endswith path) registration_endpoints"

section \<open>The debug surface\<close>

definition url_path :: "str \<Rightarrow> str" where
  "url_path p = takeWhile (\<lambda>c. c \<noteq> CHR ''?'') (takeWhile (\<lambda>c. c \<noteq> CHR ''#'') p)"

definition url_query :: "str \<Rightarrow> str" where
  "url_query p = drop 1 (dropWhile (\<lambda>c. c \<noteq> CHR ''?'') (takeWhile (\<lambda>c. c \<noteq> CHR ''#'') p))"

fun pct_decode :: "str \<Rightarrow> bytes" where
  "pct_decode (c # a # b # s) =
     (if c = CHR ''%'' then
        (case (nibble_val a, nibble_val b) of
           (Some x, Some y) \<Rightarrow> byte_of (16 * x + y) # pct_decode s
         | _ \<Rightarrow> c # pct_decode (a # b # s))
      else c # pct_decode (a # b # s))"
| "pct_decode s = s"

definition unquote :: "str \<Rightarrow> str" where
  "unquote s = utf8_replace (pct_decode (replace_char (CHR ''+'') '' '' s))"

definition query_pairs :: "str \<Rightarrow> (str \<times> str) list" where
  "query_pairs q =
     map (\<lambda>nv. (unquote (takeWhile (\<lambda>c. c \<noteq> CHR ''='') nv), unquote (drop 1 (dropWhile (\<lambda>c. c \<noteq> CHR ''='') nv))))
       (filter (\<lambda>nv. drop 1 (dropWhile (\<lambda>c. c \<noteq> CHR ''='') nv) \<noteq> []) (split_on (CHR ''&'') q))"

definition state_json :: "(str, jdict) dict \<Rightarrow> json" where
  "state_json l = JObj (map (\<lambda>(k, p). (k, JObj p)) l)"

definition ts_of :: "(str, jdict) dict \<Rightarrow> str \<Rightarrow> json" where
  "ts_of l dev = (case dict_get l dev of None \<Rightarrow> JNull | Some p \<Rightarrow> get_or p ''ts'' JNull)"

definition query_wait_rounds :: nat where
  [const_defs]: "query_wait_rounds = 30"

definition query_wait_gap :: nat where
  [const_defs]: "query_wait_gap = 50"

text \<open>The bounded wait: whether the device's time stamp moved, and the number of sleeps.\<close>

fun wait_fresh :: "(nat \<Rightarrow> json) \<Rightarrow> json \<Rightarrow> nat \<Rightarrow> nat \<Rightarrow> bool \<times> nat" where
  "wait_fresh ts old 0 i = (False, i)"
| "wait_fresh ts old (Suc n) i =
     (if ts i \<noteq> JNull \<and> ts i \<noteq> old then (True, i) else wait_fresh ts old n (Suc i))"

definition debug_query :: "'s app_env \<Rightarrow> str \<Rightarrow> 's app \<Rightarrow> response res \<times> 's app" where
  "debug_query env path a = (case query_fn env of
      None \<Rightarrow> (Inr (503, ''text/plain'', ''query channel not wired''), a)
    | Some q \<Rightarrow>
        (case map_of (query_pairs (url_query path)) ''dev'' of
           None \<Rightarrow> (Inr (400, ''text/plain'', ''missing ?dev=<devId>''), a)
         | Some dev \<Rightarrow>
             if dev = [] then (Inr (400, ''text/plain'', ''missing ?dev=<devId>''), a)
             else (case q dev of
                 Inl e \<Rightarrow> (Inl e, a)
               | Inr queried \<Rightarrow>
                   let (fresh, n) = wait_fresh (\<lambda>i. ts_of (snapshots env i) dev)
                                      (ts_of (latest (dev_store a)) dev) query_wait_rounds 0 in
                   (Inr (200, ''application/json'', dumps (JObj
                      [(''queried'', queried), (''fresh'', JBool fresh),
                       (''latest'', case dict_get (snapshots env n) dev of None \<Rightarrow> JNull | Some p \<Rightarrow> JObj p)])),
                    a\<lparr>slept := slept a @ replicate n query_wait_gap\<rparr>))))"

section \<open>Dispatch\<close>

definition match_item :: "str scanner" where
  "match_item s =
     (if startswith s ''<item>'' then
        (let v = takeWhile (\<lambda>c. c \<noteq> CHR ''<'') (drop 6 s); r = dropWhile (\<lambda>c. c \<noteq> CHR ''<'') (drop 6 s) in
         if startswith r ''</item>'' then Some (v, 13 + length v) else None)
      else None)"

definition parse_item :: "bytes \<Rightarrow> str option" where
  "parse_item body = map_option utf8_replace (re_search match_item body)"

definition synthetic :: "str \<Rightarrow> str \<Rightarrow> bytes \<Rightarrow> response" where
  "synthetic utc path body =
     (if endswith path ''/report/diagmon'' then (200, ''application/vnd.diagmonlge.dm+xml'', diagmon)
      else if endswith path ''/api/Device/TotalDeviceInfoSvc'' then
        (200, xml_ct, total_device_info utc (parse_item body))
      else if endswith path ''/api/Rtos/ContentsVerSvc'' then (200, xml_ct, contents_ver)
      else if endswith path ''/api/product/sendPushMessage'' then (200, xml_ct, ok)
      else if endswith path ''/api/Grid/PowerSavingInfoSvc'' then (200, xml_ct, power_saving_info)
      else (200, xml_ct, ok))"

definition standalone :: "'s app_env \<Rightarrow> request \<Rightarrow> 's app \<Rightarrow> response res \<times> 's app" where
  "standalone env rq a =
     (case replay_response (replaying env) (r_path rq) (parse_item (r_body rq)) (replayed a) of
        (Inl e, rs) \<Rightarrow> (Inl e, a\<lparr>replayed := rs\<rparr>)
      | (Inr (Some r), rs) \<Rightarrow> (Inr r, a\<lparr>replayed := rs\<rparr>)
      | (Inr None, rs) \<Rightarrow>
          (Inr (synthetic (utc_now (replaying env)) (r_path rq) (r_body rq)), a\<lparr>replayed := rs\<rparr>))"

text \<open>
  The attempts of a registration: the response of the first one LG answered with a status below
  500, or the status to propagate; and the sleeps between them.
\<close>

fun deliver :: "(nat \<Rightarrow> (int \<times> bytes) res) \<Rightarrow> nat \<Rightarrow> nat list \<Rightarrow> ((int \<times> bytes) + int) \<times> nat list" where
  "deliver up n ds =
     (let failed = (\<lambda>st. case ds of
          [] \<Rightarrow> (Inr st, [])
        | d # ds' \<Rightarrow> apsnd ((#) d) (deliver up (Suc n) ds')) in
      case up n of
        Inr (st, b) \<Rightarrow> if st < 500 then (Inl (st, b), []) else failed st
      | Inl e \<Rightarrow> failed 502)"

definition bridge :: "'s app_env \<Rightarrow> (nat \<Rightarrow> upstream) \<Rightarrow> request \<Rightarrow> 's app \<Rightarrow> response res \<times> 's app" where
  "bridge env fwd rq a =
     (if is_registration (r_path rq) then
        (case deliver (\<lambda>n. fwd n rq) 0 registration_retry_delays of
           (Inl (st, b), zs) \<Rightarrow> (Inr (st, xml_ct, b), a\<lparr>slept := slept a @ zs\<rparr>)
         | (Inr st, zs) \<Rightarrow>
             (Inr (st, ''text/plain'', ''registration not delivered upstream''), a\<lparr>slept := slept a @ zs\<rparr>))
      else (case fwd 0 rq of
          Inr (st, b) \<Rightarrow> if st < 500 then (Inr (st, xml_ct, b), a) else standalone env rq a
        | Inl e \<Rightarrow> standalone env rq a))"

definition observe_report :: "'s app_env \<Rightarrow> request \<Rightarrow> 's app \<Rightarrow> 's app" where
  "observe_report env rq a =
     (if endswith (r_path rq) ''/report/diagmon''
      then a\<lparr>dev_store := snd (ingest_report (core env) (RBytes (r_body rq)) (dev_store a))\<rparr> else a)"

definition dispatch :: "'s app_env \<Rightarrow> request \<Rightarrow> 's app \<Rightarrow> response res \<times> 's app" where
  "dispatch env rq a =
     (if endswith (url_path (r_path rq)) ''/debug/state'' then
        (Inr (200, ''application/json'', dumps (state_json (latest (dev_store a)))), a)
      else if endswith (url_path (r_path rq)) ''/debug/query'' then debug_query env (r_path rq) a
      else
        let a1 = observe_report env rq a in
        (case forwarder env of
           Some fwd \<Rightarrow> if bridge_mode env then bridge env fwd rq a1 else standalone env rq a1
         | None \<Rightarrow> standalone env rq a1))"

section \<open>The request handlers\<close>

text \<open>
  \<open>do_POST\<close> reads \<open>Content-Length\<close> bytes (all of them when it is negative); a length that is no
  number raises before anything is dispatched. \<open>do_GET\<close> has no body.
\<close>

definition read_body :: "str option \<Rightarrow> bytes \<Rightarrow> bytes res" where
  "read_body content_length sent_bytes =
     rbind (case content_length of None \<Rightarrow> Inr 0 | Some s \<Rightarrow> res_of_option ValueError (py_int s)) (\<lambda>n.
       Inr (if n < 0 then sent_bytes else take (nat n) sent_bytes))"

definition do_post ::
  "'s app_env \<Rightarrow> str \<Rightarrow> (str, str) dict \<Rightarrow> str option \<Rightarrow> bytes \<Rightarrow> 's app \<Rightarrow> response res \<times> 's app" where
  "do_post env path headers content_length sent_bytes a =
     (case read_body content_length sent_bytes of
        Inl e \<Rightarrow> (Inl e, a)
      | Inr body \<Rightarrow>
          dispatch env \<lparr>r_method = ''POST'', r_path = path, r_headers = headers, r_body = body\<rparr> a)"

definition do_get :: "'s app_env \<Rightarrow> str \<Rightarrow> (str, str) dict \<Rightarrow> 's app \<Rightarrow> response res \<times> 's app" where
  "do_get env path headers a =
     dispatch env \<lparr>r_method = ''GET'', r_path = path, r_headers = headers, r_body = []\<rparr> a"

text \<open>
  What \<open>_send\<close> adds to the standard library's status line, and a connection from its TLS handshake on: a failed
  handshake closes the socket before any handler runs, and a handler that raises ends without a reply.
\<close>

definition send_reply :: "response \<Rightarrow> int \<times> (str \<times> str) list \<times> bytes" where
  "send_reply r = (case r of (status, content_type, body) \<Rightarrow>
     (status, [(''Content-Type'', content_type), (''Content-Length'', nat_str (length body))], body))"

definition finish_request ::
  "bool \<Rightarrow> ('s app \<Rightarrow> response res \<times> 's app) \<Rightarrow> 's app \<Rightarrow> (int \<times> (str \<times> str) list \<times> bytes) option \<times> 's app" where
  "finish_request handshake handler a =
     (if \<not> handshake then (None, a)
      else case handler a of
          (Inl e, a') \<Rightarrow> (None, a')
        | (Inr r, a') \<Rightarrow> (Some (send_reply r), a'))"

section \<open>The health endpoint\<close>

definition int_env :: "str option \<Rightarrow> int \<Rightarrow> int" where
  "int_env v default_value = (case v of
      None \<Rightarrow> default_value
    | Some s \<Rightarrow> if s = [] then default_value
        else (case py_int s of None \<Rightarrow> default_value | Some n \<Rightarrow> n))"

fun probe_ports :: "(nat \<Rightarrow> bool) \<Rightarrow> nat \<Rightarrow> bool \<Rightarrow> nat list \<Rightarrow> str list \<times> bool" where
  "probe_ports tls control excused [] = ([], False)"
| "probe_ports tls control excused (p # ps) =
     (case probe_ports tls control excused ps of (dead, rearmed) \<Rightarrow>
        if tls p then (dead, rearmed)
        else if p = control \<and> excused then (dead, True)
        else (nat_str p # dead, rearmed))"

definition health_probe :: "(nat \<Rightarrow> bool) \<Rightarrow> nat \<Rightarrow> bool \<Rightarrow> nat list \<Rightarrow> bool \<times> str" where
  "health_probe tls control excused ps = (case probe_ports tls control excused ps of (dead, rearmed) \<Rightarrow>
      if dead = [] then (True, if rearmed then ''ok (47878 re-arm active)'' else ''ok'')
      else (False, ''down:'' @ join '','' dead))"

definition health_get :: "(nat \<Rightarrow> bool) \<Rightarrow> nat \<Rightarrow> bool \<Rightarrow> nat list \<Rightarrow> str \<Rightarrow> nat \<times> bytes" where
  "health_get tls control excused ps path =
     (if \<not> endswith (py_rstrip_char (CHR ''/'') path) ''/health'' then (404, [])
      else (case health_probe tls control excused ps of (healthy, body) \<Rightarrow> (if healthy then 200 else 503, body)))"

section \<open>Cloud events\<close>

text \<open>
  A push event of the cloud API: translated into the vocabulary of the local decode, stored under
  the local device id when the model is known locally, and handed to the sink. An exception
  before the store is reached leaves everything as it was.
\<close>

definition find_local :: "str \<Rightarrow> (str, str) dict \<Rightarrow> str option" where
  "find_local model ids = map_option fst (find (\<lambda>(k, v). v = model) ids)"

definition cloud_report :: "json \<Rightarrow> json" where
  "cloud_report payload =
     (case (case payload of JObj p \<Rightarrow> get_or p ''report'' JNull | _ \<Rightarrow> JNull) of
        JArr (r # rs) \<Rightarrow> r
      | JObj r \<Rightarrow> JObj r
      | _ \<Rightarrow> JObj [])"

definition or_dict :: "json \<Rightarrow> json" where
  "or_dict v = (if truthy v then v else JObj [])"

definition state_view :: "json \<Rightarrow> jdict res" where
  "state_view run_state =
     (if \<not> truthy run_state then Inr []
      else case run_state of
          JStr s \<Rightarrow> Inr [(''State_decoded'', JObj [(''State'',
                       JStr (''WM_STATE_'' @ replace_char (CHR '' '') ''_'' (py_upper s)))])]
        | _ \<Rightarrow> Inl AttributeError)"

definition timer_view :: "json \<Rightarrow> jdict res" where
  "timer_view timer =
     (if \<not> truthy timer then Inr []
      else rbind (json_get timer ''remainHour'' (JInt 0)) (\<lambda>h.
           rbind (json_get timer ''remainMinute'' (JInt 0)) (\<lambda>m.
             Inr [(''Remain_Time_decoded'', JObj [(''Remain_Time_H'', JStr (py_str h)),
                    (''Remain_Time_M'', JStr (py_str m))])])))"

definition cloud_view :: "str \<Rightarrow> str \<Rightarrow> str \<Rightarrow> str \<Rightarrow> json \<Rightarrow> jdict res" where
  "cloud_view ts alias model dev_id payload =
     (let report = cloud_report payload in
      rbind (json_get report ''runState'' JNull) (\<lambda>rs.
      rbind (json_get (or_dict rs) ''currentState'' JNull) (\<lambda>cs.
      rbind (json_get report ''timer'' JNull) (\<lambda>timer.
      rbind (state_view cs) (\<lambda>sv.
      rbind (timer_view timer) (\<lambda>tv.
        Inr ([(''diagMonType'', JStr ''CLOUD_EVENT''), (''alias'', JStr alias), (''modelName'', JStr model),
              (''cloud_device_id'', JStr dev_id), (''ts'', JStr ts)] @ sv @ tv @
             [(''raw_cloud_state'', payload)])))))))"

definition on_cloud_event ::
  "'s state_env \<Rightarrow> str \<Rightarrow> str \<Rightarrow> str \<Rightarrow> json \<Rightarrow> ('s, unit) action" where
  "on_cloud_event env alias model dev_id payload st =
     (case cloud_view (now env) alias model dev_id payload of
        Inl e \<Rightarrow> (Inl e, st)
      | Inr view \<Rightarrow>
          let key = (case find_local model (model_by_devid st) of
                       None \<Rightarrow> dev_id | Some k \<Rightarrow> if k = [] then dev_id else k);
              view' = view @ [(''devId'', JStr key)] in
          (Inr (), notify env key view' (st\<lparr>latest := dict_set (latest st) key view'\<rparr>)))"

section \<open>Starting\<close>

text \<open>Six attempts to bind the HTTPS port, then the process exits.\<close>

definition bind_https :: "bool list \<Rightarrow> bool" where
  "bind_https outs = fst (try_bind 6 outs)"

section \<open>Registrations\<close>

definition failed :: "(int \<times> bytes) res \<Rightarrow> bool" where
  "failed x = (case x of Inr (st, b) \<Rightarrow> \<not> st < 500 | Inl e \<Rightarrow> True)"

definition failure_status :: "(int \<times> bytes) res \<Rightarrow> int" where
  "failure_status x = (case x of Inr (st, b) \<Rightarrow> st | Inl e \<Rightarrow> 502)"

lemma failed_status: "failed x \<Longrightarrow> 500 \<le> failure_status x"
  by (auto simp: failed_def failure_status_def split: sum.splits)

lemma deliver_failed:
  "failed (up n) \<Longrightarrow> deliver up n ds = (case ds of
     [] \<Rightarrow> (Inr (failure_status (up n)), []) | d # ds' \<Rightarrow> apsnd ((#) d) (deliver up (Suc n) ds'))"
  by (cases ds) (auto simp: failed_def failure_status_def split: sum.splits)

lemma deliver_done: "up n = Inr (st, b) \<Longrightarrow> st < 500 \<Longrightarrow> deliver up n ds = (Inl (st, b), [])"
  by (cases ds) simp_all

declare deliver.simps [simp del]

lemma deliver_spec:
  assumes "deliver up n ds = (r, zs)"
  shows "(\<exists>i st b. i \<le> length ds \<and> up (n + i) = Inr (st, b) \<and> st < 500 \<and> r = Inl (st, b) \<and>
      zs = take i ds \<and> (\<forall>m < i. failed (up (n + m)))) \<or>
    (\<forall>m \<le> length ds. failed (up (n + m))) \<and> zs = ds \<and> r = Inr (failure_status (up (n + length ds)))"
  using assms
proof (induction ds arbitrary: n r zs)
  case Nil
  show ?case
  proof (cases "failed (up n)")
    case True
    with Nil show ?thesis by (simp add: deliver_failed)
  next
    case False
    then obtain st b where "up n = Inr (st, b)" "st < 500"
      by (auto simp: failed_def split: sum.splits prod.splits)
    with Nil show ?thesis by (simp add: deliver_done)
  qed
next
  case (Cons d ds)
  show ?case
  proof (cases "failed (up n)")
    case False
    then obtain st b where "up n = Inr (st, b)" "st < 500"
      by (auto simp: failed_def split: sum.splits prod.splits)
    with Cons.prems show ?thesis
      by (intro disjI1 exI [of _ 0] exI [of _ st] exI [of _ b]) (simp add: deliver_done)
  next
    case True
    obtain r' zs' where d: "deliver up (Suc n) ds = (r', zs')" by fastforce
    with Cons.prems True have rz: "r = r'" "zs = d # zs'" by (simp_all add: deliver_failed)
    from Cons.IH [OF d] show ?thesis
    proof (elim disjE exE conjE)
      fix i st b
      assume i: "i \<le> length ds" "up (Suc n + i) = Inr (st, b)" "st < 500" "r' = Inl (st, b)" "zs' = take i ds"
        "\<forall>m < i. failed (up (Suc n + m))"
      have "failed (up (n + m))" if "m < Suc i" for m
        using that True i(6) by (cases m) auto
      with i rz show ?thesis by (intro disjI1 exI [of _ "Suc i"]) auto
    next
      assume a: "\<forall>m \<le> length ds. failed (up (Suc n + m))" "zs' = ds"
        "r' = Inr (failure_status (up (Suc n + length ds)))"
      have "failed (up (n + m))" if "m \<le> Suc (length ds)" for m
        using that True a(1) by (cases m) auto
      with a(2,3) rz show ?thesis by simp
    qed
  qed
qed

lemma registration_last: "is_registration p \<Longrightarrow> p \<noteq> [] \<and> last p = CHR ''c''"
  by (auto simp: is_registration_def registration_endpoints_def endswith_iff_suffix suffix_def)

lemma endswith_last: "endswith p q \<Longrightarrow> q \<noteq> [] \<Longrightarrow> last p = last q"
  by (auto simp: endswith_iff_suffix suffix_def)

lemma registration_plain:
  assumes "is_registration p"
  shows "\<not> endswith p ''/debug/state''" "\<not> endswith p ''/debug/query''" "\<not> endswith p ''/report/diagmon''"
  using registration_last [OF assms] endswith_last [of p] by fastforce+

text \<open>
  C1. In bridge mode a registration is never acknowledged on LG's behalf: the appliance gets the
  answer of the first of at most three attempts that LG answered below 500, or after three
  failures an error status of 500 or more, the last attempt's own; the waits in between are
  0.5 and 1.5 seconds.
\<close>

theorem registration_never_faked:
  assumes "bridge_mode env" "forwarder env = Some fwd" "is_registration (r_path rq)"
    and "url_path (r_path rq) = r_path rq"
  shows "(\<exists>n st b. n \<le> 2 \<and> fwd n rq = Inr (st, b) \<and> st < 500 \<and> (\<forall>m < n. failed (fwd m rq)) \<and>
       dispatch env rq a = (Inr (st, xml_ct, b), a\<lparr>slept := slept a @ take n [500, 1500]\<rparr>)) \<or>
    (\<forall>m \<le> 2. failed (fwd m rq)) \<and> 500 \<le> failure_status (fwd 2 rq) \<and>
       dispatch env rq a = (Inr (failure_status (fwd 2 rq), ''text/plain'', ''registration not delivered upstream''),
         a\<lparr>slept := slept a @ [500, 1500]\<rparr>)"
proof -
  have d: "dispatch env rq a = bridge env fwd rq a"
    using assms registration_plain [OF assms(3)] by (simp add: dispatch_def observe_report_def)
  obtain r zs where r: "deliver (\<lambda>n. fwd n rq) 0 registration_retry_delays = (r, zs)" by fastforce
  from deliver_spec [OF r] show ?thesis
  proof (elim disjE exE conjE)
    fix i st b
    assume "i \<le> length registration_retry_delays" "fwd (0 + i) rq = Inr (st, b)" "st < 500" "r = Inl (st, b)"
      "zs = take i registration_retry_delays" "\<forall>m < i. failed (fwd (0 + m) rq)"
    with d r assms(3) show ?thesis
      by (intro disjI1 exI [of _ i] exI [of _ st] exI [of _ b])
        (simp add: bridge_def registration_retry_delays_def)
  next
    assume "\<forall>m \<le> length registration_retry_delays. failed (fwd (0 + m) rq)" "zs = registration_retry_delays"
      "r = Inr (failure_status (fwd (0 + length registration_retry_delays) rq))"
    with d r assms(3) show ?thesis
      by (intro disjI2) (simp add: bridge_def registration_retry_delays_def failed_status numeral_2_eq_2)
  qed
qed

text \<open>
  A query string hides a registration from the check: it is treated as telemetry and answered
  with the synthetic success when LG fails.
\<close>

lemma query_string_hides_registration:
  "is_registration ''/lgehadm/api/Rtos/ContentsVerSvc'' \<and> \<not> is_registration ''/lgehadm/api/Rtos/ContentsVerSvc?v=1''"
  by code_simp

section \<open>Observation\<close>

lemma ingest_only_store [simp]:
  "replayed (observe_report env rq a) = replayed a" "slept (observe_report env rq a) = slept a"
  by (simp_all add: observe_report_def)

lemma standalone_store [simp]: "dev_store (snd (standalone env rq a)) = dev_store a"
  by (auto simp: standalone_def split: prod.splits sum.splits option.splits)

lemma bridge_store [simp]: "dev_store (snd (bridge env fwd rq a)) = dev_store a"
  by (auto simp: bridge_def split: prod.splits sum.splits)

lemma debug_query_store [simp]: "dev_store (snd (debug_query env p a)) = dev_store a"
  by (auto simp: debug_query_def split: prod.splits sum.splits option.splits)

lemma observe_report_core: "core env' = core env \<Longrightarrow> observe_report env' rq a = observe_report env rq a"
  by (simp add: observe_report_def)

lemma dispatch_store:
  "dev_store (snd (dispatch env rq a)) =
    (if endswith (url_path (r_path rq)) ''/debug/state'' \<or> endswith (url_path (r_path rq)) ''/debug/query''
     then dev_store a else dev_store (observe_report env rq a))"
  by (simp add: dispatch_def Let_def split: option.splits)

lemma standalone_answer:
  assumes "replaying env' = replaying env" "replayed a' = replayed a"
  shows "fst (standalone env' rq a') = fst (standalone env rq a)"
  using assms by (simp add: standalone_def split: prod.splits sum.splits option.splits)

lemma bridge_answer:
  assumes "replaying env' = replaying env" "replayed a' = replayed a"
  shows "fst (bridge env' fwd rq a') = fst (bridge env fwd rq a)"
  using standalone_answer [OF assms, of rq] by (auto simp: bridge_def split: prod.splits sum.splits)

text \<open>
  C28. Observing never interferes: what a request leaves in the device store is the same in
  bridge mode, whatever LG answers, and in standalone mode; and outside the debug surface the
  answer is the same whatever the store holds and whatever the ingestion does or raises.
\<close>

theorem observation_transparent:
  "dev_store (snd (dispatch (env\<lparr>bridge_mode := b, forwarder := f\<rparr>) rq a)) = dev_store (snd (dispatch env rq a)) \<and>
   (endswith (url_path (r_path rq)) ''/debug/state'' \<or> endswith (url_path (r_path rq)) ''/debug/query'' \<or>
    fst (dispatch (env\<lparr>core := c\<rparr>) rq (a\<lparr>dev_store := st\<rparr>)) = fst (dispatch env rq a))"
proof (intro conjI)
  show "dev_store (snd (dispatch (env\<lparr>bridge_mode := b, forwarder := f\<rparr>) rq a)) = dev_store (snd (dispatch env rq a))"
    using observe_report_core [of "env\<lparr>bridge_mode := b, forwarder := f\<rparr>" env rq a] by (simp add: dispatch_store)
  let ?e = "env\<lparr>core := c\<rparr>" and ?a = "a\<lparr>dev_store := st\<rparr>"
  have "fst (standalone ?e rq (observe_report ?e rq ?a)) = fst (standalone env rq (observe_report env rq a))"
    "\<And>fwd. fst (bridge ?e fwd rq (observe_report ?e rq ?a)) = fst (bridge env fwd rq (observe_report env rq a))"
    by (rule standalone_answer bridge_answer; simp)+
  then show "endswith (url_path (r_path rq)) ''/debug/state'' \<or> endswith (url_path (r_path rq)) ''/debug/query'' \<or>
      fst (dispatch ?e rq ?a) = fst (dispatch env rq a)"
    by (simp add: dispatch_def Let_def split: option.splits)
qed

lemma standalone_cong:
  assumes "replaying env' = replaying env"
  shows "standalone env' rq a = standalone env rq a"
  unfolding standalone_def assms by (rule refl)

lemma debug_query_cong:
  assumes "query_fn env' = query_fn env" "snapshots env' = snapshots env"
  shows "debug_query env' p a = debug_query env p a"
  unfolding debug_query_def assms by (rule refl)

text \<open>
  C29. Telemetry never suffers from LG: when the forwarding of anything but a registration fails
  or LG answers 500 or more, the request is handled exactly as in standalone mode; a lower status
  is passed on as it is.
\<close>

theorem telemetry_survives_outage:
  assumes "bridge_mode env" "forwarder env = Some fwd" "\<not> is_registration (r_path rq)"
  shows "(failed (fwd 0 rq) \<longrightarrow> dispatch env rq a = dispatch (env\<lparr>bridge_mode := False\<rparr>) rq a) \<and>
    (\<forall>st b. fwd 0 rq = Inr (st, b) \<and> st < 500 \<and> url_path (r_path rq) = r_path rq \<and>
       \<not> endswith (r_path rq) ''/debug/state'' \<and> \<not> endswith (r_path rq) ''/debug/query'' \<longrightarrow>
       fst (dispatch env rq a) = Inr (st, xml_ct, b))"
proof (intro conjI impI allI)
  assume f: "failed (fwd 0 rq)"
  let ?e = "env\<lparr>bridge_mode := False\<rparr>"
  have "debug_query ?e = debug_query env" by (intro ext debug_query_cong) simp_all
  moreover have "standalone ?e = standalone env" by (intro ext standalone_cong) simp
  moreover have "observe_report ?e = observe_report env" by (simp add: fun_eq_iff observe_report_def)
  moreover have "bridge env fwd rq (observe_report env rq a) = standalone env rq (observe_report env rq a)"
    using f assms(3) by (auto simp: bridge_def failed_def split: sum.splits)
  ultimately show "dispatch env rq a = dispatch ?e rq a"
    using assms(1,2) by (simp add: dispatch_def Let_def)
qed (use assms in \<open>auto simp: dispatch_def Let_def bridge_def\<close>)

section \<open>Forwarding and health\<close>

text \<open>
  Forwarding answers with the first target that is reachable, the configured host before the
  pinned edges; it fails only when all of them do; and no target is asked twice.
\<close>

lemma forward_first_reachable:
  "distinct (targets host) \<and> hd (targets host) = host \<and>
   (let rq' = rq\<lparr>r_headers := forwarded_headers (r_headers rq)\<rparr> in
    forward host send rq = (case find (\<lambda>t. send t rq' \<noteq> Inl OSError) (targets host) of
       None \<Rightarrow> Inl OSError | Some t \<Rightarrow> send t rq'))"
proof -
  have "try_targets send rq' ts = (case find (\<lambda>t. send t rq' \<noteq> Inl OSError) ts of
       None \<Rightarrow> Inl OSError | Some t \<Rightarrow> send t rq')" for rq' ts
    by (induction ts) (auto split: sum.splits)
  then have "forward host send rq = (let rq' = rq\<lparr>r_headers := forwarded_headers (r_headers rq)\<rparr> in
      case find (\<lambda>t. send t rq' \<noteq> Inl OSError) (targets host) of None \<Rightarrow> Inl OSError | Some t \<Rightarrow> send t rq')"
    unfolding forward_def Let_def .
  moreover have "distinct (targets host)" "hd (targets host) = host"
    by (simp_all add: targets_def pinned_upstream_ips_def)
  ultimately show ?thesis by (simp add: Let_def)
qed

lemma probe_ports_spec:
  "probe_ports tls control excused ps =
    (map nat_str (filter (\<lambda>p. \<not> tls p \<and> \<not> (p = control \<and> excused)) ps),
     excused \<and> control \<in> set ps \<and> \<not> tls control)"
  by (induction ps) auto

text \<open>
  The health endpoint: 200 exactly when every port completes a handshake or is the control
  port while its re-arm thread runs, with a body that says whether the excuse was needed;
  otherwise 503 naming exactly the dead ports.
\<close>

lemma health_exact:
  assumes "endswith (py_rstrip_char (CHR ''/'') path) ''/health''"
  shows "health_get tls control excused ps path =
    (if \<forall>p \<in> set ps. tls p \<or> p = control \<and> excused
     then (200, if excused \<and> control \<in> set ps \<and> \<not> tls control then ''ok (47878 re-arm active)'' else ''ok'')
     else (503, ''down:'' @ join '','' (map nat_str (filter (\<lambda>p. \<not> (tls p \<or> p = control \<and> excused)) ps))))"
proof -
  have "(filter (\<lambda>p. \<not> tls p \<and> \<not> (p = control \<and> excused)) ps = []) = (\<forall>p \<in> set ps. tls p \<or> p = control \<and> excused)"
    by (auto simp: filter_empty_conv)
  then show ?thesis using assms by (simp add: health_get_def health_probe_def probe_ports_spec)
qed

text \<open>The wait of \<open>/debug/query\<close> is bounded and sees the first movement of the time stamp.\<close>

lemma wait_fresh_bounded: "wait_fresh ts old n i = (fresh, k) \<Longrightarrow> i \<le> k \<and> k \<le> i + n \<and>
   (fresh \<longrightarrow> ts k \<noteq> JNull \<and> ts k \<noteq> old) \<and> (\<not> fresh \<longrightarrow> k = i + n)"
  by (induction ts old n i rule: wait_fresh.induct) (auto split: if_splits)

section \<open>Cloud events\<close>

lemma cloud_view_shape:
  assumes "cloud_view ts alias model dev_id payload = Inr view"
  obtains timer sv tv where "json_get (cloud_report payload) ''timer'' JNull = Inr timer"
    "timer_view timer = Inr tv" "sv = [] \<or> (\<exists>x. sv = [(''State_decoded'', JObj [(''State'', JStr x)])])"
    "view = [(''diagMonType'', JStr ''CLOUD_EVENT''), (''alias'', JStr alias), (''modelName'', JStr model),
       (''cloud_device_id'', JStr dev_id), (''ts'', JStr ts)] @ sv @ tv @ [(''raw_cloud_state'', payload)]"
proof -
  obtain rs cs timer sv tv where e: "json_get (cloud_report payload) ''timer'' JNull = Inr timer"
      "state_view cs = Inr sv" "timer_view timer = Inr tv"
      "view = [(''diagMonType'', JStr ''CLOUD_EVENT''), (''alias'', JStr alias), (''modelName'', JStr model),
       (''cloud_device_id'', JStr dev_id), (''ts'', JStr ts)] @ sv @ tv @ [(''raw_cloud_state'', payload)]"
    using assms by (auto simp: cloud_view_def Let_def rbind_Inr_iff simp del: json_get.simps)
  moreover have "sv = [] \<or> (\<exists>x. sv = [(''State_decoded'', JObj [(''State'', JStr x)])])"
    using e(2) by (auto simp: state_view_def split: if_splits json.splits)
  ultimately show ?thesis using that by blast
qed

lemma timerless_view:
  assumes "cloud_view ts alias model dev_id payload = Inr view"
    and "json_get (cloud_report payload) ''timer'' JNull = Inr timer" "\<not> truthy timer"
  shows "\<exists>out. view_items [] (view @ [(''devId'', JStr key)]) = Inr out \<and>
    ''Remain_Time_H'' \<notin> fst ` set out \<and> ''Remain_Time_M'' \<notin> fst ` set out"
proof -
  obtain sv where "sv = [] \<or> (\<exists>x. sv = [(''State_decoded'', JObj [(''State'', JStr x)])])"
    "view = [(''diagMonType'', JStr ''CLOUD_EVENT''), (''alias'', JStr alias), (''modelName'', JStr model),
       (''cloud_device_id'', JStr dev_id), (''ts'', JStr ts)] @ sv @ [(''raw_cloud_state'', payload)]"
    using assms by (elim cloud_view_shape) (auto simp: timer_view_def simp del: json_get.simps)
  moreover have "py_int ''0'' = Some 0" by code_simp
  ultimately show ?thesis
    by (auto simp: res_of_option_def view_item_def excluded_keys_def binary_fields_def endswith_def Let_def reserve_countdown_def
        rbind_def get_or_def or_else_def pad2_def split: sum.splits)
qed

section \<open>The composed program\<close>

text \<open>
  \<open>main\<close> hands the lazy MQTT sink to the device store; the sink looks up command vocabularies in
  the registry. (Its shared cache is invisible, so a fresh lookup stands for it.)
\<close>

definition registry_models :: "'e reg_env_scheme \<Rightarrow> str \<Rightarrow> json res" where
  "registry_models env model = rbind (model_json_for env [] model None) (\<lambda>(mj, _). Inr mj)"

definition bridge_of :: "'s state_env \<Rightarrow> bool \<Rightarrow> bridge_env" where
  "bridge_of env control = \<lparr>model_json_of = registry_models env, commands_on = control\<rparr>"

definition wired :: "lazy_sink state_env \<Rightarrow> bool \<Rightarrow> broker \<Rightarrow> lazy_sink state_env" where
  "wired env control b = env\<lparr>on_state := Some (lazy_call (bridge_of env control) b)\<rparr>"

text \<open>The sink a call meets: the connected one, or a new one when the broker answers.\<close>

definition current_sink :: "lazy_sink \<Rightarrow> mqtt_sink" where
  "current_sink l = (case the_sink l of None \<Rightarrow> new_sink | Some s \<Rightarrow> s)"

definition reachable_broker :: "bool \<Rightarrow> broker \<Rightarrow> bool" where
  "reachable_broker control b \<longleftrightarrow> connect_ok b \<and> (control \<longrightarrow> subscribe_ok b command_filter)"

lemma lazy_call_reachable:
  assumes "reachable_broker (commands_on env) b"
  shows "\<exists>l'. lazy_call env b dev p l = (fst (sink_call env dev p (current_sink l)), l') \<and>
    the_sink l' = Some (snd (sink_call env dev p (current_sink l)))"
  using assms
  by (auto simp: lazy_call_def ensure_def current_sink_def reachable_broker_def split: option.splits prod.splits)

lemma lazy_call_cases:
  "(\<exists>r l'. lazy_call env b dev p l = (r, l') \<and> the_sink l' = the_sink l) \<or>
   (\<exists>r l'. lazy_call env b dev p l = (r, l') \<and> the_sink l' = Some (snd (sink_call env dev p (current_sink l))))"
  by (auto simp: lazy_call_def ensure_def current_sink_def split: option.splits prod.splits)

lemma sink_call_merged:
  assumes "sink_call env dev payload s = (r, s')"
  shows "merged_view s' = merged_view s \<or>
    (\<exists>ha view. view_items [] payload = Inr view \<and>
       merged_view s' = dict_set (merged_view s) ha
         (merge_view (case map_of (merged_view s) ha of None \<Rightarrow> [] | Some m \<Rightarrow> m) view))"
  using assms
proof (cases rule: sink_call_cases)
  case (view model ha v prev s2 r3 s3)
  then have "merged_view s' = merged_view s2"
    using announce_fields_keeps(2) [OF view(8)] by (simp split: sum.splits)
  with view show ?thesis by auto
qed simp

text \<open>
  C30. A cloud push without a timer never touches the remaining time Home Assistant shows: whatever
  the broker does, in every merged state that existed before, both fields keep their value, and
  the event becomes the latest state of the local device.
\<close>

theorem timerless_push_keeps_time:
  assumes "on_cloud_event (wired env control b) alias model dev_id payload st = (Inr (), st')"
    and "json_get (cloud_report payload) ''timer'' JNull = Inr timer" "\<not> truthy timer"
    and "the_sink (sink_state st) = Some s" "map_of (merged_view s) ha = Some m"
    and "f \<in> {''Remain_Time_H'', ''Remain_Time_M''}"
  shows "(\<exists>s' m'. the_sink (sink_state st') = Some s' \<and> map_of (merged_view s') ha = Some m' \<and>
       map_of m' f = map_of m f) \<and>
    (\<exists>key p. map_of (latest st') key = Some p \<and> map_of p ''diagMonType'' = Some (JStr ''CLOUD_EVENT''))"
proof -
  obtain view where v: "cloud_view (now (wired env control b)) alias model dev_id payload = Inr view"
    using assms(1) by (auto simp: on_cloud_event_def split: sum.splits)
  obtain key where st': "st' = notify (wired env control b) key (view @ [(''devId'', JStr key)])
      (st\<lparr>latest := dict_set (latest st) key (view @ [(''devId'', JStr key)])\<rparr>)"
    using assms(1) v by (auto simp: on_cloud_event_def Let_def)
  let ?p = "view @ [(''devId'', JStr key)]"
  obtain out where out: "view_items [] ?p = Inr out" "''Remain_Time_H'' \<notin> fst ` set out" "''Remain_Time_M'' \<notin> fst ` set out"
    using timerless_view [OF v assms(2,3)] by blast
  have "map_of out f = None" using out(2,3) assms(6) by (metis empty_iff insert_iff map_of_eq_None_iff)
  moreover have "dict_ok out" using dict_ok_view [OF out(1)] by simp
  ultimately have merge: "map_of (merge_view m out) f = map_of m f"
    using merge_view_lookup [of out m f] assms(6) by auto
  obtain r s1 where call: "sink_call (bridge_of env control) key ?p s = (r, s1)" by fastforce
  have "\<exists>m'. map_of (merged_view s1) ha = Some m' \<and> map_of m' f = map_of m f"
    using sink_call_merged [OF call] out(1) assms(5) merge by auto
  moreover have "sink_state st' = snd (lazy_call (bridge_of env control) b key ?p (sink_state st))"
    by (simp add: st' notify_def wired_def)
  ultimately have "\<exists>s' m'. the_sink (sink_state st') = Some s' \<and> map_of (merged_view s') ha = Some m' \<and>
       map_of m' f = map_of m f"
    using lazy_call_cases [of "bridge_of env control" b key ?p "sink_state st"] assms(4,5) call
    by (auto simp: current_sink_def)
  moreover have "map_of (latest st') key = Some ?p" by (simp add: st' notify_def wired_def)
  moreover have "map_of ?p ''diagMonType'' = Some (JStr ''CLOUD_EVENT'')"
    using v by (elim cloud_view_shape) simp
  ultimately show ?thesis by blast
qed

section \<open>Worked examples\<close>

definition sample_app_env :: "(nat \<Rightarrow> upstream) \<Rightarrow> nat app_env" where
  "sample_app_env up = \<lparr>core = sample_state_env None, replaying = sample_replay_env, bridge_mode = True,
     forwarder = Some up, query_fn = None, snapshots = (\<lambda>_. [])\<rparr>"

definition sample_app :: "nat app" where
  "sample_app = \<lparr>dev_store = initial_store 0, replayed = sample_replay, slept = []\<rparr>"

definition sample_request :: "str \<Rightarrow> request" where
  "sample_request path = \<lparr>r_method = ''POST'', r_path = path, r_headers = [], r_body = []\<rparr>"

definition failing_lg :: "nat \<Rightarrow> upstream" where
  "failing_lg n rq = (if n = 1 then Inr (503, []) else Inl OSError)"

theorem registration_never_faked_witness:
  "dispatch (sample_app_env failing_lg) (sample_request ''/api/Rtos/ContentsVerSvc'') sample_app =
     (Inr (502, ''text/plain'', ''registration not delivered upstream''), sample_app\<lparr>slept := [500, 1500]\<rparr>)"
proof -
  let ?rq = "sample_request ''/api/Rtos/ContentsVerSvc''"
  have r: "is_registration (r_path ?rq)" "url_path (r_path ?rq) = r_path ?rq" by code_simp+
  have "\<not> (failing_lg m ?rq = Inr (st, b) \<and> st < 500)" for m st b by (auto simp: failing_lg_def)
  moreover have "failure_status (failing_lg 2 ?rq) = 502" by (simp add: failure_status_def failing_lg_def)
  moreover have "slept sample_app = []" by (simp add: sample_app_def)
  ultimately show ?thesis
    using registration_never_faked [of "sample_app_env failing_lg" failing_lg ?rq sample_app] r
    by (simp add: sample_app_env_def) blast
qed

theorem telemetry_survives_outage_witness:
  "dispatch (sample_app_env failing_lg) (sample_request ''/report/other'') sample_app =
     dispatch ((sample_app_env failing_lg)\<lparr>bridge_mode := False\<rparr>) (sample_request ''/report/other'') sample_app"
proof -
  have "\<not> is_registration (r_path (sample_request ''/report/other''))" by code_simp
  moreover have "failed (failing_lg 0 (sample_request ''/report/other''))" by (simp add: failed_def failing_lg_def)
  ultimately show ?thesis
    using telemetry_survives_outage [of "sample_app_env failing_lg" failing_lg "sample_request ''/report/other''" sample_app]
    by (simp add: sample_app_env_def)
qed

lemma health_exact_witness:
  "health_get (\<lambda>p. p = 46030) 47878 True [46030, 47878] ''/health/'' = (200, ''ok (47878 re-arm active)'')"
proof -
  have "endswith (py_rstrip_char (CHR ''/'') ''/health/'') ''/health''" by code_simp
  from health_exact [OF this] show ?thesis by simp
qed

definition sample_push :: json where
  "sample_push = JObj [(''report'', JObj [(''runState'', JObj [(''currentState'', JStr ''running'')])])]"

definition sample_lazy_store :: "lazy_sink store" where
  "sample_lazy_store = initial_store \<lparr>the_sink = Some (new_sink\<lparr>merged_view :=
     [(''w1'', [(''Remain_Time_H'', JStr ''1'')])]\<rparr>), logged_down = False\<rparr>"

definition sample_lazy_env :: "lazy_sink state_env" where
  "sample_lazy_env = \<lparr>parse_xml = sample_parser, read_text = (\<lambda>p. Inl OSError), cache_dir = ''cache'',
     fixture_dir = ''fx'', now = ''2026-01-01'', append_ok = (\<lambda>l. True), on_state = None\<rparr>"

definition sample_broker :: broker where
  "sample_broker = \<lparr>connect_ok = True, subscribe_ok = (\<lambda>t. True)\<rparr>"

theorem timerless_push_keeps_time_witness:
  "\<exists>st' s' m'. on_cloud_event (wired sample_lazy_env False sample_broker) ''washer'' ''W1'' ''hash'' sample_push
       sample_lazy_store = (Inr (), st') \<and> the_sink (sink_state st') = Some s' \<and>
     map_of (merged_view s') ''w1'' = Some m' \<and> map_of m' ''Remain_Time_H'' = Some (JStr ''1'')"
proof -
  let ?env = "wired sample_lazy_env False sample_broker"
  have report: "cloud_report sample_push = JObj [(''runState'', JObj [(''currentState'', JStr ''running'')])]"
    by (simp add: cloud_report_def sample_push_def get_or_def)
  then obtain view where "cloud_view (now ?env) ''washer'' ''W1'' ''hash'' sample_push = Inr view"
    by (simp add: cloud_view_def rbind_def or_dict_def state_view_def timer_view_def)
  then obtain st' where st': "on_cloud_event ?env ''washer'' ''W1'' ''hash'' sample_push sample_lazy_store = (Inr (), st')"
    by (simp add: on_cloud_event_def Let_def)
  let ?s = "new_sink\<lparr>merged_view := [(''w1'', [(''Remain_Time_H'', JStr ''1'')])]\<rparr>"
  have "the_sink (sink_state sample_lazy_store) = Some ?s"
    by (simp add: sample_lazy_store_def initial_store_def)
  from timerless_push_keeps_time [OF st' _ _ this, of JNull "''w1''" "[(''Remain_Time_H'', JStr ''1'')]" "''Remain_Time_H''"] st'
  show ?thesis by (simp add: report)
qed

end
