(* ===== verification/RelayEngine.thy ===== *)
theory RelayEngine
  imports Prelude
begin

text \<open>
  \<open>server/wm_bridge.py\<close>: the pump between two TLS endpoints. The TLS library is a parameter: a
  connection over memory BIOs with the operations the engine calls. What the sockets accept and
  deliver, and what \<open>select\<close> reports, comes from outside, turn by turn; the observer folds over the
  chunks it is shown (what it raises is dropped). The fuel bounds the reads of one pump loop.
\<close>

section \<open>The TLS library\<close>

datatype hs_result = HsDone | HsWant | HsFail

datatype read_result = Plain bytes | WantRead | ZeroReturn | ReadError

record 't tls_lib =
  do_handshake :: "'t \<Rightarrow> hs_result \<times> 't"
  tls_read :: "'t \<Rightarrow> read_result \<times> 't"
  tls_write :: "bytes \<Rightarrow> 't \<Rightarrow> bool \<times> 't"
  bio_take :: "'t \<Rightarrow> bytes \<times> 't"
  bio_feed :: "bytes \<Rightarrow> 't \<Rightarrow> 't"
  bio_eof :: "'t \<Rightarrow> 't"

section \<open>Endpoints\<close>

text \<open>
  Beside the fields of \<open>End\<close>: the chunks read from and written to the connection, all ciphertext
  taken from it, and the bytes its socket accepted.
\<close>

record 't tls_end =
  tls :: 't
  pending :: bytes
  handshaken :: bool
  dead :: bool
  got :: "bytes list"
  put :: "bytes list"
  drained :: bytes
  wire :: bytes

definition new_end :: "'t \<Rightarrow> 't tls_end" where
  "new_end t = \<lparr>tls = t, pending = [], handshaken = False, dead = False, got = [], put = [],
     drained = [], wire = []\<rparr>"

datatype send_result = Accepts nat | WouldBlock | SendFails

datatype recv_result = Received bytes | RecvBlocks | RecvFails

fun flush :: "send_result list \<Rightarrow> 't tls_end \<Rightarrow> bool \<times> 't tls_end" where
  "flush [] e = (True, e)"
| "flush (r # rs) e =
     (if pending e = [] then (True, e)
      else case r of
          WouldBlock \<Rightarrow> (True, e)
        | SendFails \<Rightarrow> (False, e)
        | Accepts n \<Rightarrow> flush rs (e\<lparr>pending := drop n (pending e), wire := wire e @ take n (pending e)\<rparr>))"

definition drive_handshake :: "'t tls_lib \<Rightarrow> 't tls_end \<Rightarrow> bool \<times> 't tls_end" where
  "drive_handshake lib e =
     (if handshaken e \<or> dead e then (False, e)
      else case do_handshake lib (tls e) of
          (HsDone, t) \<Rightarrow> (True, e\<lparr>tls := t, handshaken := True\<rparr>)
        | (HsWant, t) \<Rightarrow> (False, e\<lparr>tls := t\<rparr>)
        | (HsFail, t) \<Rightarrow> (False, e\<lparr>tls := t, dead := True\<rparr>))"

definition drain :: "'t tls_lib \<Rightarrow> 't tls_end \<Rightarrow> bool \<times> 't tls_end" where
  "drain lib e = (case bio_take lib (tls e) of (data, t) \<Rightarrow>
     (data \<noteq> [], e\<lparr>tls := t, pending := pending e @ data, drained := drained e @ data\<rparr>))"

text \<open>\<open>None\<close>: nothing to read; an empty chunk: the end of the stream or an error.\<close>

definition read_plain :: "'t tls_lib \<Rightarrow> 't tls_end \<Rightarrow> bytes option \<times> 't tls_end" where
  "read_plain lib e = (case tls_read lib (tls e) of
      (Plain b, t) \<Rightarrow> (Some b, e\<lparr>tls := t\<rparr>)
    | (WantRead, t) \<Rightarrow> (None, e\<lparr>tls := t\<rparr>)
    | (ZeroReturn, t) \<Rightarrow> (Some [], e\<lparr>tls := t\<rparr>)
    | (ReadError, t) \<Rightarrow> (Some [], e\<lparr>tls := t, dead := True\<rparr>))"

definition feed_socket :: "'t tls_lib \<Rightarrow> recv_result \<Rightarrow> 't tls_end \<Rightarrow> bool \<times> 't tls_end" where
  "feed_socket lib r e = (case r of
      RecvBlocks \<Rightarrow> (True, e)
    | RecvFails \<Rightarrow> (False, e)
    | Received b \<Rightarrow>
        if b = [] then (True, e\<lparr>tls := bio_eof lib (tls e)\<rparr>)
        else (True, e\<lparr>tls := bio_feed lib b (tls e)\<rparr>))"

section \<open>The pump\<close>

datatype side = Client | Upstream

text \<open>One direction; the result is \<open>None\<close> when the fuel does not suffice.\<close>

fun pump ::
  "'t tls_lib \<Rightarrow> (bytes \<Rightarrow> 'o \<Rightarrow> 'o) \<Rightarrow> nat \<Rightarrow> 't tls_end \<Rightarrow> 't tls_end \<Rightarrow> 'o \<Rightarrow> bool \<Rightarrow>
   ('t tls_end \<times> 't tls_end \<times> 'o \<times> bool) option" where
  "pump lib ob 0 src dst obs progressed = None"
| "pump lib ob (Suc n) src dst obs progressed =
     (if dead src \<or> dead dst then Some (src, dst, obs, progressed)
      else case read_plain lib src of
          (None, src1) \<Rightarrow> Some (src1, dst, obs, progressed)
        | (Some [], src1) \<Rightarrow> Some (src1\<lparr>dead := True\<rparr>, dst, obs, progressed)
        | (Some (c # cs), src1) \<Rightarrow>
            let src2 = src1\<lparr>got := got src1 @ [c # cs]\<rparr>; obs' = ob (c # cs) obs in
            (case tls_write lib (c # cs) (tls dst) of
               (False, t) \<Rightarrow> Some (src2, dst\<lparr>tls := t, dead := True\<rparr>, obs', progressed)
             | (True, t) \<Rightarrow> pump lib ob n src2 (dst\<lparr>tls := t, put := put dst @ [c # cs]\<rparr>) obs' True))"

definition flush_end :: "'t tls_lib \<Rightarrow> send_result list \<Rightarrow> 't tls_end \<Rightarrow> bool \<times> 't tls_end" where
  "flush_end lib sends e =
     (let (produced, e1) = drain lib e; (alive, e2) = flush sends e1 in
      if \<not> alive then (produced, e2\<lparr>dead := True\<rparr>)
      else (produced \<or> length (pending e2) < length (pending e1), e2))"

type_synonym ('t, 'o) relay = "'t tls_end \<times> 't tls_end \<times> 'o"

text \<open>The observer is told which side a chunk came from.\<close>

type_synonym 'o chunk_observer = "side \<Rightarrow> bytes \<Rightarrow> 'o \<Rightarrow> 'o"

definition pump_both ::
  "'t tls_lib \<Rightarrow> 'o chunk_observer \<Rightarrow> nat \<Rightarrow> ('t, 'o) relay \<Rightarrow> bool \<Rightarrow>
   (('t, 'o) relay \<times> bool) option" where
  "pump_both lib ob fuel r progressed = (case r of (c, u, obs) \<Rightarrow>
     if \<not> (handshaken c \<and> handshaken u) then Some (r, progressed)
     else do {
       (c1, u1, obs1, p1) \<leftarrow> pump lib (ob Client) fuel c u obs progressed;
       (u2, c2, obs2, p2) \<leftarrow> pump lib (ob Upstream) fuel u1 c1 obs1 p1;
       Some ((c2, u2, obs2), p2) })"

datatype ready = Writable side "send_result list" | Readable side recv_result

definition on_side :: "side \<Rightarrow> ('t tls_end \<Rightarrow> bool \<times> 't tls_end) \<Rightarrow> ('t, 'o) relay \<Rightarrow> ('t, 'o) relay" where
  "on_side s f r = (case r of (c, u, obs) \<Rightarrow>
     (case s of
        Client \<Rightarrow> (case f c of (alive, c') \<Rightarrow> (if alive then c' else c'\<lparr>dead := True\<rparr>, u, obs))
      | Upstream \<Rightarrow> (case f u of (alive, u') \<Rightarrow> (c, if alive then u' else u'\<lparr>dead := True\<rparr>, obs))))"

fun on_ready :: "'t tls_lib \<Rightarrow> ready \<Rightarrow> ('t, 'o) relay \<Rightarrow> ('t, 'o) relay" where
  "on_ready lib (Writable s sends) r = on_side s (flush sends) r"
| "on_ready lib (Readable s rv) r = on_side s (feed_socket lib rv) r"

text \<open>
  One turn of the loop: what the two sockets accept, and what \<open>select\<close> reports if nothing moved
  (an empty list is its timeout; then \<open>idle\<close> tells whether the idle limit has passed). The flag
  says whether the loop goes on.
\<close>

record turn =
  client_sends :: "send_result list"
  up_sends :: "send_result list"
  selected :: "ready list"
  idle :: bool

definition relay_turn ::
  "'t tls_lib \<Rightarrow> 'o chunk_observer \<Rightarrow> nat \<Rightarrow> turn \<Rightarrow> ('t, 'o) relay \<Rightarrow>
   (('t, 'o) relay \<times> bool) option" where
  "relay_turn lib ob fuel tn r = (case r of (c, u, obs) \<Rightarrow>
     if dead c \<or> dead u then Some (r, False)
     else
       let (p1, c1) = drive_handshake lib c; (p2, u1) = drive_handshake lib u in
       (case pump_both lib ob fuel (c1, u1, obs) (p1 \<or> p2) of
          None \<Rightarrow> None
        | Some ((c2, u2, obs'), p3) \<Rightarrow>
            let (p4, c3) = flush_end lib (client_sends tn) c2;
                (p5, u3) = flush_end lib (up_sends tn) u2 in
            if dead c3 \<or> dead u3 then Some ((c3, u3, obs'), False)
            else if p3 \<or> p4 \<or> p5 then Some ((c3, u3, obs'), True)
            else if selected tn = [] then Some ((c3, u3, obs'), \<not> idle tn)
            else Some (fold (on_ready lib) (selected tn) (c3, u3, obs'), True)))"

fun relay_run ::
  "'t tls_lib \<Rightarrow> 'o chunk_observer \<Rightarrow> nat \<Rightarrow> turn list \<Rightarrow> ('t, 'o) relay \<Rightarrow>
   ('t, 'o) relay option" where
  "relay_run lib ob fuel [] r = Some r"
| "relay_run lib ob fuel (tn # tns) r =
     (case relay_turn lib ob fuel tn r of
        None \<Rightarrow> None
      | Some (r', go) \<Rightarrow> if go then relay_run lib ob fuel tns r' else Some r')"

section \<open>The invariant\<close>

text \<open>
  Nothing is lost, reordered or made up: an endpoint is given exactly the chunks read from the
  other one, in order, except for a last chunk whose write failed; the observer has been
  shown the chunks read, those of each side in order; and the bytes a socket accepted and those still pending are, in order, the
  ciphertext taken from its connection.
\<close>

definition faithful :: "'t tls_end \<Rightarrow> 't tls_end \<Rightarrow> bool" where
  "faithful src dst \<longleftrightarrow> got src = put dst \<or> dead dst \<and> (\<exists>c. got src = put dst @ [c])"

definition fifo :: "'t tls_end \<Rightarrow> bool" where
  "fifo e \<longleftrightarrow> drained e = wire e @ pending e"

definition chunks_of :: "side \<Rightarrow> (side \<times> bytes) list \<Rightarrow> bytes list" where
  "chunks_of s shown = map snd (filter (\<lambda>x. fst x = s) shown)"

lemma chunks_of_simps [simp]:
  "chunks_of s [] = []"
  "chunks_of s (xs @ ys) = chunks_of s xs @ chunks_of s ys"
  "chunks_of s [(s', b)] = (if s' = s then [b] else [])"
  by (simp_all add: chunks_of_def)

definition relay_ok :: "'o chunk_observer \<Rightarrow> 'o \<Rightarrow> (side \<times> bytes) list \<Rightarrow> ('t, 'o) relay \<Rightarrow> bool" where
  "relay_ok ob o0 shown r \<longleftrightarrow> (case r of (c, u, obs) \<Rightarrow>
     faithful c u \<and> faithful u c \<and> fifo c \<and> fifo u \<and>
     obs = fold (\<lambda>(s, b). ob s b) shown o0 \<and> chunks_of Client shown = got c \<and> chunks_of Upstream shown = got u \<and>
     [] \<notin> snd ` set shown)"

lemma faithful_frame:
  assumes "faithful src dst" "got src' = got src" "put dst' = put dst" "dead dst \<longrightarrow> dead dst'"
  shows "faithful src' dst'"
  using assms by (auto simp: faithful_def)

text \<open>What the operations on one endpoint leave alone.\<close>

definition same_traffic :: "'t tls_end \<Rightarrow> 't tls_end \<Rightarrow> bool" where
  "same_traffic e e' \<longleftrightarrow> got e' = got e \<and> put e' = put e \<and> (dead e \<longrightarrow> dead e') \<and> (fifo e \<longrightarrow> fifo e')"

lemma same_traffic_refl [simp]: "same_traffic e e"
  by (simp add: same_traffic_def)

lemma same_traffic_trans: "same_traffic e e' \<Longrightarrow> same_traffic e' e'' \<Longrightarrow> same_traffic e e''"
  by (simp add: same_traffic_def)

lemma same_traffic_dead: "same_traffic e e' \<Longrightarrow> same_traffic e (e'\<lparr>dead := b \<or> dead e'\<rparr>)"
  by (simp add: same_traffic_def fifo_def)

lemma same_traffic_killed: "same_traffic e e' \<Longrightarrow> same_traffic e (e'\<lparr>dead := True\<rparr>)"
  using same_traffic_dead [of e e' True] by simp

lemma handshake_traffic: "same_traffic e (snd (drive_handshake lib e))"
  by (auto simp: drive_handshake_def same_traffic_def fifo_def split: prod.splits hs_result.splits)

lemma drain_traffic: "same_traffic e (snd (drain lib e))"
  by (auto simp: drain_def same_traffic_def fifo_def split: prod.splits)

lemma flush_traffic: "same_traffic e (snd (flush rs e))"
proof (induction rs e rule: flush.induct)
  case (2 r rs e)
  show ?case
  proof (cases "pending e = []")
    case False
    show ?thesis
    proof (cases r)
      case (Accepts n)
      let ?e = "e\<lparr>pending := drop n (pending e), wire := wire e @ take n (pending e)\<rparr>"
      have "same_traffic e ?e" by (simp add: same_traffic_def fifo_def)
      then show ?thesis using 2 [OF False Accepts] False Accepts same_traffic_trans by auto
    qed (use False in simp_all)
  qed simp
qed simp

lemma feed_traffic: "same_traffic e (snd (feed_socket lib r e))"
  by (auto simp: feed_socket_def same_traffic_def fifo_def split: recv_result.splits)

lemma flush_end_traffic: "same_traffic e (snd (flush_end lib sends e))"
  using same_traffic_trans [OF drain_traffic [of e lib] flush_traffic [of _ sends]]
  by (auto simp: flush_end_def split: prod.splits intro: same_traffic_killed)

lemma read_plain_traffic: "same_traffic e (snd (read_plain lib e))"
  by (auto simp: read_plain_def same_traffic_def fifo_def split: prod.splits read_result.splits)

text \<open>One direction of the pump keeps what it forwards in step with what it read.\<close>

lemma pump_faithful:
  assumes "pump lib ob n src dst obs p = Some (src', dst', obs', p')"
    and "faithful src dst" "fifo src" "fifo dst"
  shows "\<exists>new. [] \<notin> set new \<and> got src' = got src @ new \<and> obs' = fold ob new obs \<and> faithful src' dst' \<and> fifo src' \<and> fifo dst' \<and>
    got dst' = got dst \<and> put src' = put src \<and> (dead src \<longrightarrow> dead src')"
  using assms
proof (induction n arbitrary: src dst obs p)
  case (Suc n)
  obtain r src1 where r: "read_plain lib src = (r, src1)" by fastforce
  have src1: "same_traffic src src1" using read_plain_traffic [of src lib] r by simp
  show ?case
  proof (cases "dead src \<or> dead dst \<or> r = None \<or> r = Some []")
    case True
    have "faithful src1 dst" "faithful (src1\<lparr>dead := True\<rparr>) dst"
      using Suc.prems(2) src1 by (auto simp: same_traffic_def intro: faithful_frame)
    then have "got src' = got src" "obs' = obs" "faithful src' dst'" "fifo src'" "fifo dst'" "got dst' = got dst"
      "put src' = put src" "dead src \<longrightarrow> dead src'"
      using True Suc.prems r src1 by (auto simp: same_traffic_def fifo_def split: if_splits)
    then show ?thesis by (intro exI [of _ "[]"]) simp
  next
    case False
    then obtain c cs where b: "r = Some (c # cs)" by (cases r) (auto simp: neq_Nil_conv)
    let ?b = "c # cs"
    let ?src = "src1\<lparr>got := got src1 @ [?b]\<rparr>"
    obtain w t where w: "tls_write lib ?b (tls dst) = (w, t)" by fastforce
    have eq: "got src = put dst" using Suc.prems(2) False by (auto simp: faithful_def)
    have src: "got ?src = got src @ [?b]" "put ?src = put src" "fifo ?src" "dead src \<longrightarrow> dead ?src"
      using src1 Suc.prems(3) by (auto simp: same_traffic_def fifo_def)
    show ?thesis
    proof (cases w)
      case True
      let ?dst = "dst\<lparr>tls := t, put := put dst @ [?b]\<rparr>"
      have "faithful ?src ?dst" "fifo ?dst" using eq src Suc.prems(4) by (auto simp: faithful_def fifo_def)
      moreover have "pump lib ob n ?src ?dst (ob ?b obs) True = Some (src', dst', obs', p')"
        using Suc.prems(1) False r b w True by (simp add: Let_def)
      ultimately obtain new where "[] \<notin> set new" "got src' = got ?src @ new" "obs' = fold ob new (ob ?b obs)" "faithful src' dst'"
        "fifo src'" "fifo dst'" "got dst' = got ?dst" "put src' = put ?src" "dead ?src \<longrightarrow> dead src'"
        using Suc.IH [of ?src ?dst "ob ?b obs" True] src(3) by auto
      then show ?thesis using src by (intro exI [of _ "?b # new"]) simp
    next
      case False
      then have "src' = ?src" "dst' = dst\<lparr>tls := t, dead := True\<rparr>" "obs' = ob ?b obs"
        using Suc.prems(1) \<open>\<not> (dead src \<or> dead dst \<or> r = None \<or> r = Some [])\<close> r b w by (auto simp: Let_def)
      moreover have "faithful ?src (dst\<lparr>tls := t, dead := True\<rparr>)" "fifo (dst\<lparr>tls := t, dead := True\<rparr>)"
        using eq src Suc.prems(4) by (auto simp: faithful_def fifo_def)
      ultimately show ?thesis using src by (intro exI [of _ "[?b]"]) simp
    qed
  qed
qed simp

lemma shown_by_side:
  "fold (\<lambda>(s, b). ob s b) (map (Pair s) bs) o0 = fold (ob s) bs o0"
  "chunks_of s' (map (Pair s) bs) = (if s = s' then bs else [])"
  by (induction bs arbitrary: o0) (auto simp: chunks_of_def)

text \<open>
  What one turn adds: the chunks of \<open>new\<close> have been read, the observer has been shown them, and the two
  endpoints are in step as before.
\<close>

definition linked :: "('t, 'o) relay \<Rightarrow> bool" where
  "linked r \<longleftrightarrow> (case r of (c, u, obs) \<Rightarrow> faithful c u \<and> faithful u c \<and> fifo c \<and> fifo u)"

definition onward :: "'o chunk_observer \<Rightarrow> (side \<times> bytes) list \<Rightarrow> ('t, 'o) relay \<Rightarrow> ('t, 'o) relay \<Rightarrow> bool" where
  "onward ob new r r' \<longleftrightarrow> (case r of (c, u, obs) \<Rightarrow> case r' of (c', u', obs') \<Rightarrow>
     linked r' \<and> got c' = got c @ chunks_of Client new \<and> got u' = got u @ chunks_of Upstream new \<and>
     obs' = fold (\<lambda>(s, b). ob s b) new obs \<and> [] \<notin> snd ` set new)"

lemma onward_refl: "linked r \<Longrightarrow> onward ob [] r r"
  by (cases r) (simp add: onward_def)

lemma onward_linked: "onward ob new r r' \<Longrightarrow> linked r'"
  by (auto simp: onward_def split: prod.splits)

lemma onward_trans: "onward ob n1 r r1 \<Longrightarrow> onward ob n2 r1 r2 \<Longrightarrow> onward ob (n1 @ n2) r r2"
  by (auto simp: onward_def split: prod.splits)

lemma same_traffic_linked:
  assumes "linked (c, u, obs)" "same_traffic c c'" "same_traffic u u'"
  shows "linked (c', u', obs)"
  using assms by (auto simp: linked_def same_traffic_def intro: faithful_frame)

lemma same_traffic_onward:
  assumes "linked (c, u, obs)" "same_traffic c c'" "same_traffic u u'"
  shows "onward ob [] (c, u, obs) (c', u', obs)"
  using same_traffic_linked [OF assms] assms(2,3) by (simp add: onward_def same_traffic_def)

lemma pump_both_onward:
  assumes "pump_both lib ob fuel r p = Some (r', p')" "linked r"
  shows "\<exists>new. onward ob new r r'"
proof -
  obtain c u obs where r: "r = (c, u, obs)" by (cases r)
  show ?thesis
  proof (cases "handshaken c \<and> handshaken u")
    case True
    then obtain c1 u1 o1 p1 c2 u2 o2 p2 where
      a: "pump lib (ob Client) fuel c u obs p = Some (c1, u1, o1, p1)" and
      b: "pump lib (ob Upstream) fuel u1 c1 o1 p1 = Some (u2, c2, o2, p2)" and
      r': "r' = (c2, u2, o2)"
      using assms(1) r by (auto simp: pump_both_def split: Option.bind_splits)
    have ok: "faithful c u" "faithful u c" "fifo c" "fifo u" using assms(2) by (simp_all add: linked_def r)
    obtain n1 where n1: "[] \<notin> set n1" and f1: "got c1 = got c @ n1" "o1 = fold (ob Client) n1 obs" "faithful c1 u1" "fifo c1" "fifo u1"
      "got u1 = got u" "put c1 = put c" "dead c \<longrightarrow> dead c1"
      using pump_faithful [OF a ok(1,3,4)] by blast
    have f2: "faithful u1 c1" using ok(2) f1(6-8) by (rule faithful_frame)
    obtain n2 where n2: "[] \<notin> set n2" and f3: "got u2 = got u1 @ n2" "o2 = fold (ob Upstream) n2 o1" "faithful u2 c2" "fifo u2" "fifo c2"
      "got c2 = got c1" "put u2 = put u1" "dead u1 \<longrightarrow> dead u2"
      using pump_faithful [OF b f2 f1(5,4)] by blast
    have "faithful c2 u2" using f1(3) f3(6-8) by (rule faithful_frame)
    then have "onward ob (map (Pair Client) n1 @ map (Pair Upstream) n2) r r'"
      using f1 f3 n1 n2 r r' by (auto simp: onward_def linked_def shown_by_side)
    then show ?thesis by blast
  next
    case False
    with assms r have "r' = r" by (auto simp: pump_both_def)
    with assms(2) onward_refl show ?thesis by blast
  qed
qed

lemma on_side_onward:
  assumes "linked r" "\<And>e. same_traffic e (snd (f e))"
  shows "onward ob [] r (on_side s f r)"
proof -
  obtain c u obs where r: "r = (c, u, obs)" by (cases r)
  show ?thesis using assms(1) assms(2) [of c] assms(2) [of u] unfolding r
    by (cases s; cases "f c"; cases "f u")
      (auto simp: on_side_def intro!: same_traffic_onward same_traffic_killed)
qed

lemma on_ready_onward: "linked r \<Longrightarrow> onward ob [] r (on_ready lib ev r)"
  by (cases ev) (auto intro!: on_side_onward flush_traffic feed_traffic)

lemma events_onward: "linked r \<Longrightarrow> onward ob [] r (fold (on_ready lib) evs r)"
proof (induction evs arbitrary: r)
  case (Cons ev evs)
  note 1 = on_ready_onward [OF Cons.prems, of ob lib ev]
  from onward_trans [OF 1 Cons.IH [OF onward_linked [OF 1]]] show ?case by simp
qed (simp add: onward_refl)

lemma relay_turn_onward:
  assumes "relay_turn lib ob fuel tn r = Some (r', go)" "linked r"
  shows "\<exists>new. onward ob new r r'"
proof -
  obtain c u obs where r: "r = (c, u, obs)" by (cases r)
  show ?thesis
  proof (cases "dead c \<or> dead u")
    case False
    define c1 u1 p1 where "c1 = snd (drive_handshake lib c)" "u1 = snd (drive_handshake lib u)"
      "p1 = (fst (drive_handshake lib c) \<or> fst (drive_handshake lib u))"
    have on1: "onward ob [] r (c1, u1, obs)"
      using assms(2) unfolding r c1_u1_p1_def by (rule same_traffic_onward) (rule handshake_traffic)+
    obtain c2 u2 obs' p3 where p: "pump_both lib ob fuel (c1, u1, obs) p1 = Some ((c2, u2, obs'), p3)"
      using assms(1) False unfolding r c1_u1_p1_def
      by (auto simp: relay_turn_def Let_def split: prod.splits option.splits)
    define c3 u3 where "c3 = snd (flush_end lib (client_sends tn) c2)" "u3 = snd (flush_end lib (up_sends tn) u2)"
    obtain new where on2: "onward ob new (c1, u1, obs) (c2, u2, obs')"
      using pump_both_onward [OF p onward_linked [OF on1]] by blast
    have on3: "onward ob [] (c2, u2, obs') (c3, u3, obs')"
      using onward_linked [OF on2] unfolding c3_u3_def by (rule same_traffic_onward) (rule flush_end_traffic)+
    have on: "onward ob new r (c3, u3, obs')" using onward_trans [OF onward_trans [OF on1 on2] on3] by simp
    have "r' = (c3, u3, obs') \<or> r' = fold (on_ready lib) (selected tn) (c3, u3, obs')"
      using assms(1) False p unfolding r c1_u1_p1_def c3_u3_def
      by (auto simp: relay_turn_def Let_def split: prod.splits if_splits)
    moreover have "onward ob new r (fold (on_ready lib) (selected tn) (c3, u3, obs'))"
      using onward_trans [OF on events_onward [OF onward_linked [OF on]]] by simp
    ultimately show ?thesis using on by blast
  next
    case True
    with assms(1) r have "r' = r" by (auto simp: relay_turn_def)
    with assms(2) onward_refl show ?thesis by blast
  qed
qed

lemma relay_turn_ok:
  assumes "relay_turn lib ob fuel tn r = Some (r', go)" "relay_ok ob o0 shown r"
  shows "\<exists>shown'. relay_ok ob o0 shown' r'"
proof -
  have "linked r" using assms(2) by (auto simp: relay_ok_def linked_def)
  from relay_turn_onward [OF assms(1) this] obtain new where "onward ob new r r'" by blast
  then have "relay_ok ob o0 (shown @ new) r'"
    using assms(2) by (auto simp: relay_ok_def onward_def linked_def split: prod.splits)
  then show ?thesis by blast
qed

lemma relay_run_ok:
  "relay_run lib ob fuel tns r = Some r' \<Longrightarrow> relay_ok ob o0 shown r \<Longrightarrow> \<exists>shown'. relay_ok ob o0 shown' r'"
proof (induction tns arbitrary: r shown)
  case (Cons tn tns)
  then obtain r1 go where 1: "relay_turn lib ob fuel tn r = Some (r1, go)" by (auto split: option.splits)
  obtain shown1 where "relay_ok ob o0 shown1 r1" using relay_turn_ok [OF 1 Cons.prems(2)] by blast
  then show ?case using Cons.IH [of r1 shown1] Cons.prems(1) 1 by (cases go) auto
qed auto

lemma relay_run_transparent:
  assumes "relay_run lib ob fuel tns (new_end tc, new_end tu, o0) = Some (c, u, obs)"
  shows "\<exists>shown. relay_ok ob o0 shown (c, u, obs)"
proof -
  have "relay_ok ob o0 [] (new_end tc, new_end tu, o0)"
    by (simp add: relay_ok_def faithful_def fifo_def new_end_def)
  then show ?thesis by (rule relay_run_ok [OF assms])
qed

text \<open>
  C18. Whatever the two sockets and the TLS library do, in every order, the relay loses, repeats,
  reorders and makes up nothing: what is written to one endpoint is, chunk by chunk, what was read
  from the other, except for a last chunk whose write failed and ended the connection; the bytes
  the socket took are, with those still queued, the connection's ciphertext in order; and the
  observer was shown the chunks read, those of each side in order.
\<close>
theorem relay_transparent:
  assumes "relay_run lib ob fuel tns (new_end tc, new_end tu, o0) = Some (c, u, obs)"
  shows "(got c = put u \<or> dead u \<and> (\<exists>b. got c = put u @ [b])) \<and>
    (got u = put c \<or> dead c \<and> (\<exists>b. got u = put c @ [b])) \<and>
    drained c = wire c @ pending c \<and> drained u = wire u @ pending u \<and>
    (\<exists>shown. obs = fold (\<lambda>(s, b). ob s b) shown o0 \<and>
       chunks_of Client shown = got c \<and> chunks_of Upstream shown = got u)"
  using relay_run_transparent [OF assms] by (auto simp: relay_ok_def faithful_def fifo_def)

section \<open>Every turn comes to an end\<close>

text \<open>
  What a TLS connection holds that can still be read: a read of plaintext takes from it, and
  neither a write nor the handshake adds to it.
\<close>

definition holds :: "'t tls_lib \<Rightarrow> ('t \<Rightarrow> nat) \<Rightarrow> bool" where
  "holds lib m \<longleftrightarrow>
     (\<forall>t b t'. tls_read lib t = (Plain b, t') \<longrightarrow> b \<noteq> [] \<longrightarrow> m t' < m t) \<and>
     (\<forall>t. m (snd (tls_read lib t)) \<le> m t) \<and> (\<forall>b t. m (snd (tls_write lib b t)) \<le> m t) \<and>
     (\<forall>t. m (snd (do_handshake lib t)) \<le> m t)"

lemma holdsD:
  assumes "holds lib m"
  shows "tls_read lib t = (Plain b, t') \<Longrightarrow> b \<noteq> [] \<Longrightarrow> m t' < m t"
    and "m (snd (tls_read lib t)) \<le> m t" and "m (snd (tls_write lib b t)) \<le> m t"
    and "m (snd (do_handshake lib t)) \<le> m t"
  using assms unfolding holds_def by blast+

lemma read_plain_holds:
  assumes "holds lib m" "read_plain lib e = (r, e')"
  shows "m (tls e') \<le> m (tls e)" and "r = Some (c # cs) \<Longrightarrow> m (tls e') < m (tls e)"
  using assms(2) holdsD(1,2) [OF assms(1), of "tls e"]
  by (fastforce simp: read_plain_def split: prod.splits read_result.splits)+

lemma pump_returns:
  assumes "holds lib m" "m (tls src) < n"
  shows "\<exists>src' dst' obs' p'. pump lib ob n src dst obs p = Some (src', dst', obs', p') \<and>
    m (tls src') \<le> m (tls src) \<and> m (tls dst') \<le> m (tls dst)"
  using assms(2)
proof (induction n arbitrary: src dst obs p)
  case (Suc n)
  obtain r src1 where r: "read_plain lib src = (r, src1)" by fastforce
  note le = read_plain_holds(1) [OF assms(1) r]
  show ?case
  proof (cases "dead src \<or> dead dst \<or> r = None \<or> r = Some []")
    case True
    then show ?thesis using r le by auto
  next
    case False
    then obtain c cs where b: "r = Some (c # cs)" by (cases r) (auto simp: neq_Nil_conv)
    obtain w t where w: "tls_write lib (c # cs) (tls dst) = (w, t)" by fastforce
    have t: "m t \<le> m (tls dst)" using holdsD(3) [OF assms(1), of "c # cs" "tls dst"] w by simp
    show ?thesis
    proof (cases w)
      case True
      let ?src = "src1\<lparr>got := got src1 @ [c # cs]\<rparr>" and ?dst = "dst\<lparr>tls := t, put := put dst @ [c # cs]\<rparr>"
      have "m (tls ?src) < n" using read_plain_holds(2) [OF assms(1) r b] Suc.prems by simp
      from Suc.IH [OF this, of ?dst "ob (c # cs) obs" True] show ?thesis
        using False r b w True le t by fastforce
    qed (use False r b w le t in simp)
  qed
qed simp

text \<open>
  C33. A turn of the relay always comes to an end: what the two connections hold bounds the passes
  of the pump's loops, provided a read takes from what a connection holds and neither writing to
  it nor its handshake adds to it.
\<close>
theorem relay_turn_returns:
  assumes "holds lib m" "m (tls c) < fuel" "m (tls u) < fuel"
  shows "relay_turn lib ob fuel tn (c, u, obs) \<noteq> None"
proof -
  have hs: "m (tls (snd (drive_handshake lib e))) \<le> m (tls e)" for e
    using holdsD(4) [OF assms(1), of "tls e"] by (auto simp: drive_handshake_def split: prod.splits hs_result.splits)
  have both: "\<exists>q p'. pump_both lib ob fuel (c1, u1, obs) p = Some (q, p')"
    if lt: "m (tls c1) < fuel" "m (tls u1) < fuel" for c1 u1 p
  proof -
    obtain c2 u2 oc p1 where a: "pump lib (ob Client) fuel c1 u1 obs p = Some (c2, u2, oc, p1)" "m (tls u2) \<le> m (tls u1)"
      using pump_returns [OF assms(1) lt(1), where ob = "ob Client" and dst = u1 and obs = obs and p = p] by blast
    then have "m (tls u2) < fuel" using lt(2) by linarith
    from pump_returns [OF assms(1) this, where ob = "ob Upstream" and dst = c2 and obs = oc and p = p1]
    obtain u3 c3 ou p2 where
      "pump lib (ob Upstream) fuel u2 c2 oc p1 = Some (u3, c3, ou, p2)" by blast
    then show ?thesis using a(1) by (auto simp: pump_both_def)
  qed
  obtain p1 c1 p2 u1 where h: "drive_handshake lib c = (p1, c1)" "drive_handshake lib u = (p2, u1)" by fastforce
  have "m (tls c1) < fuel" "m (tls u1) < fuel" using hs [of c] hs [of u] h assms(2,3) by simp_all
  from both [OF this, of "p1 \<or> p2"] obtain c2 u2 obs' p3 where
    "pump_both lib ob fuel (c1, u1, obs) (p1 \<or> p2) = Some ((c2, u2, obs'), p3)" by auto
  moreover obtain p4 c3 p5 u3 where "flush_end lib (client_sends tn) c2 = (p4, c3)"
    "flush_end lib (up_sends tn) u2 = (p5, u3)" by fastforce
  ultimately show ?thesis using h by (simp add: relay_turn_def del: not_None_eq)
qed

section \<open>A connection without encryption\<close>

text \<open>The chunks to be read and the bytes written, both as they are.\<close>

definition clear_lib :: "(bytes list \<times> bytes) tls_lib" where
  "clear_lib = \<lparr>do_handshake = (\<lambda>t. (HsDone, t)),
     tls_read = (\<lambda>(ins, out). case ins of [] \<Rightarrow> (WantRead, ([], out)) | b # bs \<Rightarrow> (Plain b, (bs, out))),
     tls_write = (\<lambda>b (ins, out). (True, (ins, out @ b))),
     bio_take = (\<lambda>(ins, out). (out, (ins, []))),
     bio_feed = (\<lambda>b (ins, out). (ins @ [b], out)),
     bio_eof = (\<lambda>(ins, out). (ins @ [[]], out))\<rparr>"

lemma clear_lib_holds: "holds clear_lib (\<lambda>t. length (fst t))"
  by (auto simp: holds_def clear_lib_def split: list.splits)

definition clear_turns :: "turn list" where
  "clear_turns =
     [\<lparr>client_sends = [], up_sends = [], selected = [], idle = False\<rparr>,
      \<lparr>client_sends = [], up_sends = [], selected = [Readable Client (Received ''ab'')], idle = False\<rparr>,
      \<lparr>client_sends = [], up_sends = [Accepts 1, WouldBlock], selected = [], idle = False\<rparr>,
      \<lparr>client_sends = [], up_sends = [], selected = [Writable Upstream [Accepts 1]], idle = False\<rparr>]"

definition clear_run :: "((bytes list \<times> bytes), (side \<times> bytes) list) relay option" where
  "clear_run = relay_run clear_lib (\<lambda>s b l. l @ [(s, b)]) 5 clear_turns
     (new_end ([], []), new_end ([], []), [])"

lemmas relay_eval = clear_run_def clear_turns_def clear_lib_def new_end_def relay_turn_def pump_both_def
  drive_handshake_def flush_end_def drain_def read_plain_def on_side_def feed_socket_def Let_def

lemma clear_run_delivers:
  "clear_run = Some
     (\<lparr>tls = ([], []), pending = [], handshaken = True, dead = False, got = [''ab''], put = [], drained = [], wire = []\<rparr>,
      \<lparr>tls = ([], []), pending = [], handshaken = True, dead = False, got = [], put = [''ab''],
       drained = ''ab'', wire = ''ab''\<rparr>,
      [(Client, ''ab'')])"
  by (simp add: relay_eval eval_nat_numeral)

theorem relay_transparent_witness:
  "case clear_run of None \<Rightarrow> False
   | Some (c, u, obs) \<Rightarrow> wire u = ''ab'' \<and> (got c = put u \<or> dead u \<and> (\<exists>b. got c = put u @ [b])) \<and>
       drained u = wire u @ pending u"
  using relay_transparent [OF clear_run_delivers [unfolded clear_run_def]] by (simp add: clear_run_delivers)

theorem relay_turn_returns_witness:
  "relay_turn clear_lib (\<lambda>s b l. l @ [b]) 2 (hd clear_turns)
     (new_end ([''ab''], []), new_end ([], []), []) \<noteq> None"
  by (rule relay_turn_returns [OF clear_lib_holds]) (simp_all add: new_end_def)

end
