(* ===== verification/RelayLog.thy ===== *)
theory RelayLog
  imports ControlChannel RelayEngine
begin

text \<open>
  The relay's log and its reader: the line \<open>deploy/wm_relay.py\<close> writes for every decrypted chunk, and
  \<open>server/wm_local_bridge.py\<close>, which follows the log, decodes the washer's snapshots and publishes
  them. Times are seconds; what a line is read as does not depend on the clock.
\<close>

section \<open>Log lines\<close>

definition two_digits :: "nat \<Rightarrow> str" where
  "two_digits n = [hex_nibble (n div 10 mod 10), hex_nibble (n mod 10)]"

text \<open>The local time of day in seconds, and the milliseconds of the second.\<close>

definition relay_ts :: "nat \<Rightarrow> nat \<Rightarrow> str" where
  "relay_ts secs ms =
     two_digits (secs div 3600 mod 24) @ '':'' @ two_digits (secs div 60 mod 60) @ '':'' @ two_digits (secs mod 60) @
     ''.'' @ hex_nibble (ms div 100 mod 10) # two_digits ms"

definition relay_line :: "str \<Rightarrow> str \<Rightarrow> bytes \<Rightarrow> str" where
  "relay_line ts label chunk =
     ts @ '' '' @ label @ '' len='' @ nat_str (length chunk) @ '' hex='' @ to_hex chunk"

definition label_of :: "side \<Rightarrow> str" where
  "label_of s = (case s of Client \<Rightarrow> ''C->U'' | Upstream \<Rightarrow> ''U->C'')"

text \<open>
  What a relay writes for a chunk, as an observer of the engine: the clock says what each line is
  stamped with.
\<close>

definition chunk_line :: "nat \<times> nat \<Rightarrow> side \<Rightarrow> bytes \<Rightarrow> str" where
  "chunk_line t s b = relay_line (case t of (secs, ms) \<Rightarrow> relay_ts secs ms) (label_of s) b @ [CHR 10]"

definition log_chunk :: "(nat \<Rightarrow> nat \<times> nat) \<Rightarrow> str list chunk_observer" where
  "log_chunk clock s b log = log @ [chunk_line (clock (length log)) s b]"

text \<open>\<open>\d{2}:\d{2}:\d{2}\<close> at the start.\<close>

definition scan_hms :: "str \<Rightarrow> (str \<times> str) option" where
  "scan_hms s =
     (case s of
        a # b # p # c # d # q # e # f # r \<Rightarrow>
          if is_digit a \<and> is_digit b \<and> p = CHR '':'' \<and> is_digit c \<and> is_digit d \<and> q = CHR '':'' \<and>
             is_digit e \<and> is_digit f
          then Some ([a, b, p, c, d, q, e, f], r) else None
      | _ \<Rightarrow> None)"

definition scan_lit :: "str \<Rightarrow> str \<Rightarrow> str option" where
  "scan_lit l s = (if startswith s l then Some (drop (length l) s) else None)"

definition scan_digits :: "str \<Rightarrow> str option" where
  "scan_digits s = (if takeWhile is_digit s = [] then None else Some (dropWhile is_digit s))"

definition is_low_hex :: "char \<Rightarrow> bool" where
  "is_low_hex c \<longleftrightarrow> is_digit c \<or> 97 \<le> code c \<and> code c \<le> (102::nat)"

definition scan_label :: "str \<Rightarrow> (str \<times> str) option" where
  "scan_label s =
     (case scan_lit ''C->U'' s of
        Some r \<Rightarrow> Some (''C->U'', r)
      | None \<Rightarrow> map_option (\<lambda>r. (''U->C'', r)) (scan_lit ''U->C'' s))"

text \<open>\<open>LINE_RE\<close>: the direction and the hex digits; only white space may follow.\<close>

definition match_line :: "str \<Rightarrow> (str \<times> str) option" where
  "match_line s = do {
     (_, r1) \<leftarrow> scan_hms s;
     r2 \<leftarrow> scan_lit ''.'' r1;
     r3 \<leftarrow> scan_digits r2;
     r4 \<leftarrow> scan_lit '' '' r3;
     (label, r5) \<leftarrow> scan_label r4;
     r6 \<leftarrow> scan_lit '' len='' r5;
     r7 \<leftarrow> scan_digits r6;
     r8 \<leftarrow> scan_lit '' hex='' r7;
     let hex = takeWhile is_low_hex r8;
     if hex \<noteq> [] \<and> list_all is_space (dropWhile is_low_hex r8) then Some (label, hex) else None }"

section \<open>Records and snapshots\<close>

function split_records :: "bytes \<Rightarrow> bytes list" where
  "split_records d =
     (if length d < 4 then []
      else let n = be_int (take 4 d) in
        if n = 0 \<or> length d < 4 + n then []
        else take n (drop 4 d) # split_records (drop (4 + n) d))"
  by pat_completeness auto
termination by (relation "measure length") auto

declare split_records.simps [simp del]

definition records_from_hex :: "str \<Rightarrow> bytes list res" where
  "records_from_hex hex = rbind (res_of_option ValueError (from_hex hex)) (\<lambda>d. Inr (split_records d))"

text \<open>
  One record: the snapshot so far is kept unless the record is the device's own, carries \<open>B64\<close>
  data and decodes. A record that is no object raises.
\<close>

definition record_snapshot :: "json \<Rightarrow> str \<Rightarrow> jdict option \<Rightarrow> bytes \<Rightarrow> jdict option res" where
  "record_snapshot mj device snap record =
     (case loads_bytes record of
        None \<Rightarrow> Inr snap
      | Some msg \<Rightarrow>
          rbind (json_get msg ''Header'' (JObj [])) (\<lambda>hdr.
          rbind (json_get msg ''Body'' (JObj [])) (\<lambda>body.
          rbind (json_get hdr ''x-lgedm-deviceId'' JNull) (\<lambda>dev.
            if dev \<noteq> JStr device then Inr snap
            else
              rbind (json_get body ''Format'' JNull) (\<lambda>fmt.
                if fmt \<noteq> JStr ''B64'' then Inr snap
                else
                  rbind (json_get body ''Data'' JNull) (\<lambda>data.
                    if \<not> truthy data then Inr snap
                    else (case b64_of data of
                        None \<Rightarrow> Inr snap
                      | Some blob \<Rightarrow>
                          (case decode_with_model_json blob mj of
                             Inl e \<Rightarrow> Inr snap
                           | Inr d \<Rightarrow> Inr (Some d)))))))))"

fun records_snapshot :: "json \<Rightarrow> str \<Rightarrow> jdict option \<Rightarrow> bytes list \<Rightarrow> jdict option res" where
  "records_snapshot mj device snap [] = Inr snap"
| "records_snapshot mj device snap (r # rs) =
     rbind (record_snapshot mj device snap r) (\<lambda>snap'. records_snapshot mj device snap' rs)"

definition washer_snapshot :: "str \<Rightarrow> json \<Rightarrow> str \<Rightarrow> jdict option res" where
  "washer_snapshot line mj device =
     (case match_line line of
        None \<Rightarrow> Inr None
      | Some (label, hex) \<Rightarrow>
          if label \<noteq> ''C->U'' then Inr None
          else rbind (records_from_hex hex) (records_snapshot mj device None))"

section \<open>The follower\<close>

definition blank_values :: "str list" where
  [const_defs]: "blank_values = [[], ''unknown'', ''unavailable'', ''none'', ''None'', ''-'']"

definition is_real :: "json \<Rightarrow> bool" where
  "is_real v \<longleftrightarrow> \<not> (\<exists>b \<in> set blank_values. v = JStr b)"

definition usable :: "jdict \<Rightarrow> bool" where
  "usable snap \<longleftrightarrow> list_ex (\<lambda>p. is_real (snd p)) snap"

definition terminal_states :: "str list" where
  [const_defs]: "terminal_states = [''WM_STATE_POWER_OFF'', ''WM_STATE_END'']"

definition should_warn_washer_dark :: "json \<Rightarrow> int \<Rightarrow> int \<Rightarrow> bool \<Rightarrow> bool" where
  "should_warn_washer_dark last_state snap_age line_age warned_already \<longleftrightarrow>
     \<not> warned_already \<and> 1800 < snap_age \<and> line_age < 60 \<and> py_str last_state \<notin> set terminal_states"

record follower =
  last_known :: jdict
  last_beat :: int
  last_line :: int
  last_good :: int
  quiet_warned :: bool
  dark_warned :: bool
  outbox :: "jdict list"
  notices :: "str list"

definition post :: "jdict \<Rightarrow> follower \<Rightarrow> follower" where
  "post p s = s\<lparr>outbox := outbox s @ [p]\<rparr>"

text \<open>The restart: the last snapshot of the log's tail, published unless it is all blank.\<close>

fun replay_tail :: "json \<Rightarrow> str \<Rightarrow> str list \<Rightarrow> jdict \<Rightarrow> jdict res" where
  "replay_tail mj device [] sofar = Inr sofar"
| "replay_tail mj device (l # ls) sofar =
     rbind (washer_snapshot l mj device) (\<lambda>snap.
       replay_tail mj device ls (case snap of Some (p # ps) \<Rightarrow> p # ps | _ \<Rightarrow> sofar))"

definition start_follower :: "json \<Rightarrow> str \<Rightarrow> str list \<Rightarrow> int \<Rightarrow> follower res" where
  "start_follower mj device lines now_s =
     rbind (replay_tail mj device (drop (length lines - 3000) lines) []) (\<lambda>sofar.
       Inr \<lparr>last_known = sofar, last_beat = now_s, last_line = now_s, last_good = now_s,
            quiet_warned = False, dark_warned = False, outbox = (if usable sofar then [sofar] else []),
            notices = []\<rparr>)"

definition no_line :: "int \<Rightarrow> follower \<Rightarrow> follower" where
  "no_line now_s s =
     (let s1 = (if \<not> quiet_warned s \<and> 900 < now_s - last_line s
                then s\<lparr>quiet_warned := True, notices := notices s @ [''quiet'']\<rparr> else s);
          s2 = (if should_warn_washer_dark (get_or (last_known s1) ''State'' JNull)
                     (now_s - last_good s1) (now_s - last_line s1) (dark_warned s1)
                then s1\<lparr>dark_warned := True, notices := notices s1 @ [''dark'']\<rparr> else s1) in
      if last_known s2 \<noteq> [] \<and> 300 < now_s - last_beat s2
      then (post (last_known s2) s2)\<lparr>last_beat := now_s\<rparr> else s2)"

definition got_line :: "json \<Rightarrow> str \<Rightarrow> str \<Rightarrow> int \<Rightarrow> follower \<Rightarrow> follower res" where
  "got_line mj device line now_s s =
     rbind (washer_snapshot line mj device) (\<lambda>snap.
       let d = (case snap of None \<Rightarrow> [] | Some d \<Rightarrow> d);
           s1 = s\<lparr>last_line := now_s, quiet_warned := False\<rparr>;
           s2 = (if usable d then s1\<lparr>last_good := now_s, dark_warned := False\<rparr> else s1) in
       Inr (if usable d \<and> \<not> py_eq (JObj d) (JObj (last_known s2))
            then post d (s2\<lparr>last_known := d, last_beat := now_s\<rparr>) else s2))"

text \<open>The loop: a line of the log or none, and the time.\<close>

datatype tick = GotLine str | NoLine

fun follow :: "json \<Rightarrow> str \<Rightarrow> (int \<times> tick) list \<Rightarrow> follower \<Rightarrow> follower res" where
  "follow mj device [] s = Inr s"
| "follow mj device ((t, NoLine) # ticks) s = follow mj device ticks (no_line t s)"
| "follow mj device ((t, GotLine l) # ticks) s = rbind (got_line mj device l t s) (follow mj device ticks)"

section \<open>Reading back what the relay wrote\<close>

lemma scan_lit_append [simp]: "scan_lit l (l @ r) = Some r"
  by (simp add: scan_lit_def)

lemma scan_label_append:
  assumes "label \<in> {''C->U'', ''U->C''}"
  shows "scan_label (label @ r) = Some (label, r)"
proof -
  have "scan_lit ''C->U'' (''U->C'' @ r) = None" by (simp add: scan_lit_def startswith_def)
  then show ?thesis using assms scan_lit_append [of "''C->U''" r] scan_lit_append [of "''U->C''" r]
    unfolding scan_label_def by (elim insertE emptyE) (simp_all only: option.case option.map simp_thms)
qed

lemma scan_digits_then: "list_all is_digit xs \<Longrightarrow> xs \<noteq> [] \<Longrightarrow> scan_digits (xs @ CHR '' '' # r) = Some (CHR '' '' # r)"
  by (simp add: scan_digits_def takeWhile_then dropWhile_then is_digit_def)

lemma hex_nibble_low: "n < 16 \<Longrightarrow> is_low_hex (hex_nibble n)"
  by (auto simp: is_low_hex_def hex_nibble_def is_digit_def)

lemma to_hex_low: "list_all is_low_hex (to_hex bs)"
proof -
  have "code b div 16 < (16::nat)" for b
    using code_less [of b] by linarith
  then show ?thesis by (auto simp: to_hex_def hex_nibble_low list_all_iff)
qed

lemma to_hex_nonempty: "bs \<noteq> [] \<Longrightarrow> to_hex bs \<noteq> []"
  by (cases bs) (auto simp: to_hex_def)

lemma is_digit_hex_nibble: "n < 10 \<Longrightarrow> is_digit (hex_nibble n)"
  by (simp add: is_digit_def hex_nibble_def)

text \<open>After the stamp comes the label.\<close>

lemma match_line_stamp:
  "match_line (relay_ts secs ms @ '' '' @ t) = do {
     (label, r5) \<leftarrow> scan_label t;
     r6 \<leftarrow> scan_lit '' len='' r5;
     r7 \<leftarrow> scan_digits r6;
     r8 \<leftarrow> scan_lit '' hex='' r7;
     let hex = takeWhile is_low_hex r8;
     if hex \<noteq> [] \<and> list_all is_space (dropWhile is_low_hex r8) then Some (label, hex) else None }"
proof -
  let ?ms = "hex_nibble (ms div 100 mod 10) # two_digits ms"
  have "list_all is_digit ?ms" by (simp add: two_digits_def is_digit_hex_nibble)
  then have "scan_digits (hex_nibble (ms div 100 mod 10) # two_digits ms @ CHR '' '' # r) = Some (CHR '' '' # r)" for r
    using scan_digits_then [of ?ms r] by simp
  moreover have "scan_lit ''.'' (CHR ''.'' # r) = Some r" "scan_lit '' '' (CHR '' '' # r) = Some r" for r
    using scan_lit_append [of "''.''" r] scan_lit_append [of "'' ''" r] by simp_all
  moreover obtain h where "scan_hms (relay_ts secs ms @ r) = Some (h, ''.'' @ ?ms @ r)" for r
    by (auto simp: relay_ts_def two_digits_def scan_hms_def is_digit_hex_nibble)
  ultimately show ?thesis by (simp add: match_line_def)
qed

lemma match_line_relay:
  assumes "label \<in> {''C->U'', ''U->C''}" "chunk \<noteq> []"
  shows "match_line (relay_line (relay_ts secs ms) label chunk @ [CHR 10]) = Some (label, to_hex chunk)"
proof -
  have digits: "list_all is_digit (nat_str (length chunk))" by (auto simp: list_all_iff nat_str_digits)
  have nl: "\<not> is_low_hex (CHR 10)" "is_space (CHR 10)" by (simp_all add: is_low_hex_def is_digit_def is_space_def)
  have "takeWhile is_low_hex (to_hex chunk @ [CHR 10]) = to_hex chunk"
    "dropWhile is_low_hex (to_hex chunk @ [CHR 10]) = [CHR 10]"
    using takeWhile_then [OF to_hex_low nl(1), of chunk "[]"] dropWhile_then [OF to_hex_low nl(1), of chunk "[]"] by simp_all
  moreover have "scan_label (label @ r) = Some (label, r)" for r by (rule scan_label_append [OF assms(1)])
  moreover have "scan_digits (nat_str (length chunk) @ CHR '' '' # r) = Some (CHR '' '' # r)" for r
    by (rule scan_digits_then [OF digits]) simp
  moreover have "scan_lit '' len='' ('' len='' @ r) = Some r" "scan_lit '' hex='' ('' hex='' @ r) = Some r" for r
    by (rule scan_lit_append)+
  ultimately show ?thesis
    using to_hex_nonempty [OF assms(2)] nl(2)
      match_line_stamp [of secs ms "label @ '' len='' @ nat_str (length chunk) @ '' hex='' @ to_hex chunk @ [CHR 10]"]
    by (simp add: relay_line_def Let_def)
qed

section \<open>The log holds the traffic\<close>

text \<open>What a line of the log says was sent on the side of the label.\<close>

definition chunk_read :: "str \<Rightarrow> str \<Rightarrow> bytes option" where
  "chunk_read label line = (case match_line line of
      Some (l, hex) \<Rightarrow> if l = label then from_hex hex else None
    | None \<Rightarrow> None)"

lemma label_of_range: "label_of s \<in> {''C->U'', ''U->C''}"
  by (cases s) (simp_all add: label_of_def)

lemma label_of_eq [simp]: "label_of s = label_of s' \<longleftrightarrow> s = s'"
  by (cases s; cases s') (simp_all add: label_of_def)

lemma chunk_read_logged:
  "b \<noteq> [] \<Longrightarrow> chunk_read (label_of s') (relay_line (relay_ts secs ms) (label_of s) b @ [CHR 10]) =
     (if s = s' then Some b else None)"
  by (simp add: chunk_read_def match_line_relay [OF label_of_range])

text \<open>The lines for a list of chunks, numbered on.\<close>

fun logged :: "(nat \<Rightarrow> nat \<times> nat) \<Rightarrow> nat \<Rightarrow> (side \<times> bytes) list \<Rightarrow> str list" where
  "logged clock n [] = []"
| "logged clock n ((s, b) # xs) = chunk_line (clock n) s b # logged clock (Suc n) xs"

lemma fold_log_chunk: "fold (\<lambda>(s, b). log_chunk clock s b) xs log = log @ logged clock (length log) xs"
  by (induction xs arbitrary: log) (auto simp: log_chunk_def)

lemma logged_chunks:
  assumes "[] \<notin> snd ` set shown"
  shows "List.map_filter (chunk_read (label_of s)) (logged clock n shown) = chunks_of s shown"
  using assms
proof (induction shown arbitrary: n)
  case (Cons x shown)
  obtain s' b where x: "x = (s', b)" by (cases x)
  obtain secs ms where c: "clock n = (secs, ms)" by (cases "clock n")
  have b: "b \<noteq> []" using Cons.prems by (auto simp: x)
  have "chunk_read (label_of s) (chunk_line (clock n) s' b) = (if s' = s then Some b else None)"
    using chunk_read_logged [OF b, of s secs ms s'] c by (auto simp: chunk_line_def)
  then show ?case using Cons.IH [of "Suc n"] Cons.prems
    by (auto simp: x chunks_of_def map_filter_simps)
qed (simp add: map_filter_simps)

section \<open>Records\<close>

lemma split_records_nil: "length d < 4 \<Longrightarrow> split_records d = []"
  by (subst split_records.simps) simp

lemma split_records_frame:
  assumes "p \<noteq> []" "length p < 4294967296"
  shows "split_records (be32 (length p) @ p @ r) = p # split_records r"
  using assms by (subst split_records.simps) (simp add: Let_def)

lemma split_records_encoded:
  assumes "list_all2 (\<lambda>m w. encode_message_len4 m = Inr w) ms ws"
  shows "split_records (concat ws @ r) = map (\<lambda>m. dumps_compact (JObj m)) ms @ split_records r"
  using assms
proof (induction rule: list_all2_induct)
  case (Cons m ms w ws)
  then have "w = be32 (length (dumps_compact (JObj m))) @ dumps_compact (JObj m)"
    "length (dumps_compact (JObj m)) < 4294967296"
    by (auto simp: encode_message_len4_def Let_def split: if_splits)
  moreover have "dumps_compact (JObj m) \<noteq> []" by (simp add: dumps_compact_def)
  ultimately show ?case using Cons by (simp add: split_records_frame)
qed simp


section \<open>From the appliance's message to the published snapshot\<close>

text \<open>A message of another device, and a snapshot of this one.\<close>

definition foreign :: "str \<Rightarrow> message \<Rightarrow> bool" where
  "foreign device m \<longleftrightarrow> is_obj (get_or m ''Body'' (JObj [])) \<and>
     (\<exists>h. get_or m ''Header'' (JObj []) = JObj h \<and> get_or h ''x-lgedm-deviceId'' JNull \<noteq> JStr device)"

definition carries :: "str \<Rightarrow> bytes \<Rightarrow> message \<Rightarrow> bool" where
  "carries device blob m \<longleftrightarrow>
     (\<exists>h b text. get_or m ''Header'' (JObj []) = JObj h \<and> get_or h ''x-lgedm-deviceId'' JNull = JStr device \<and>
        get_or m ''Body'' (JObj []) = JObj b \<and> get_or b ''Format'' JNull = JStr ''B64'' \<and>
        get_or b ''Data'' JNull = JStr text \<and> text \<noteq> [] \<and> b64decode text = Some blob)"

lemma record_foreign:
  "json_ok (JObj m) \<Longrightarrow> foreign device m \<Longrightarrow> record_snapshot mj device snap (dumps_compact (JObj m)) = Inr snap"
  by (auto simp: record_snapshot_def foreign_def json_get_JObj simp del: json_get.simps elim: is_obj.elims)

lemma record_carries:
  "json_ok (JObj m) \<Longrightarrow> carries device blob m \<Longrightarrow> decode_with_model_json blob mj = Inr d \<Longrightarrow>
   record_snapshot mj device snap (dumps_compact (JObj m)) = Inr (Some d)"
  by (auto simp: record_snapshot_def carries_def json_get_JObj b64_of_def simp del: json_get.simps)

lemma records_snapshot_append:
  "records_snapshot mj device snap (rs @ rs') =
     rbind (records_snapshot mj device snap rs) (\<lambda>s. records_snapshot mj device s rs')"
  by (induction rs arbitrary: snap) (auto simp: rbind_def split: sum.splits)

lemma records_foreign:
  "list_all (\<lambda>m. json_ok (JObj m) \<and> foreign device m) ms \<Longrightarrow>
   records_snapshot mj device snap (map (\<lambda>m. dumps_compact (JObj m)) ms) = Inr snap"
  by (induction ms) (simp_all add: record_foreign)

text \<open>
  A snapshot gets through: when the appliance's messages leave in one chunk, in whatever
  company of other devices' messages, the line the relay logs for it is read back as the decoded
  snapshot.
\<close>
lemma snapshot_read_back:
  assumes "list_all2 (\<lambda>m w. encode_message_len4 m = Inr w) (ms @ m # ns) ws"
    and "list_all (\<lambda>m. json_ok (JObj m) \<and> foreign device m) (ms @ ns)"
    and "json_ok (JObj m)" "carries device blob m" "decode_with_model_json blob mj = Inr d"
  shows "washer_snapshot (relay_line (relay_ts secs msecs) (label_of Client) (concat ws) @ [CHR 10]) mj device =
    Inr (Some d)"
proof -
  have rec: "split_records (concat ws) = map (\<lambda>m. dumps_compact (JObj m)) (ms @ m # ns)"
    using split_records_encoded [OF assms(1), of "[]"] split_records_nil [of "[]"] by simp
  then have "concat ws \<noteq> []" using split_records_nil [of "[]"] by fastforce
  moreover have "records_snapshot mj device None (map (\<lambda>m. dumps_compact (JObj m)) (ms @ m # ns)) = Inr (Some d)"
    using assms(2) record_carries [OF assms(3-5)] by (simp add: records_snapshot_append records_foreign)
  ultimately show ?thesis
    using match_line_relay [OF label_of_range [of Client], of "concat ws" secs msecs] rec
    by (simp add: washer_snapshot_def records_from_hex_def res_of_option_def label_of_def)
qed

section \<open>What the follower publishes\<close>

definition posts_ok :: "jdict \<Rightarrow> follower \<Rightarrow> bool" where
  "posts_ok start s \<longleftrightarrow> (\<forall>p \<in> set (outbox s). usable p \<or> p = start) \<and> (usable (last_known s) \<or> last_known s = start)"

lemma got_line_posts: "got_line mj device l t s = Inr s' \<Longrightarrow> posts_ok start s \<Longrightarrow> posts_ok start s'"
  by (auto simp: got_line_def posts_ok_def post_def Let_def rbind_Inr_iff split: if_splits)

lemma no_line_posts: "posts_ok start s \<Longrightarrow> posts_ok start (no_line t s)"
  by (auto simp: no_line_def posts_ok_def post_def Let_def)

lemma follow_posts: "follow mj device ticks s = Inr s' \<Longrightarrow> posts_ok start s \<Longrightarrow> posts_ok start s'"
  by (induction mj device ticks s rule: follow.induct) (auto simp: rbind_Inr_iff intro: no_line_posts got_line_posts)


text \<open>
  C23. No dropout frame is published: whatever lines come and whenever, every snapshot the bridge
  publishes, the heartbeats included, has a real value in it, or is the one it found in the log
  when it started.
\<close>
theorem no_blank_published:
  assumes "replay_tail mj device (drop (length lines - 3000) lines) [] = Inr found"
    and "start_follower mj device lines t = Inr s" "follow mj device ticks s = Inr s'"
  shows "\<forall>p \<in> set (outbox s'). usable p \<or> p = found"
proof -
  have "posts_ok found s" using assms(1,2) by (auto simp: start_follower_def posts_ok_def)
  with assms(3) have "posts_ok found s'" by (rule follow_posts)
  then show ?thesis by (simp add: posts_ok_def)
qed

text \<open>A model with one field, and the relay's lines for a good and for a blank snapshot.\<close>

definition tiny_model :: json where
  "tiny_model = JObj
     [(''Monitoring'', JObj [(''type'', JStr ''BINARY(BYTE)''),
        (''protocol'', JArr [JObj [(''value'', JStr ''State''), (''startByte'', JInt 0), (''length'', JInt 1)]])]),
      (''Value'', JObj [(''State'', JObj [(''type'', JStr ''Enum''),
        (''option'', JObj [(''0'', JStr ''-''), (''1'', JStr ''RUNNING'')])])])]"

definition tiny_message :: "str \<Rightarrow> message" where
  "tiny_message data =
     [(''Header'', JObj [(''x-lgedm-deviceId'', JStr ''w'')]),
      (''Body'', JObj [(''Format'', JStr ''B64''), (''Data'', JStr data)])]"

definition tiny_line :: "str \<Rightarrow> str" where
  "tiny_line data =
     (let p = dumps_compact (JObj (tiny_message data)) in
      relay_line (relay_ts 3661 7) (label_of Client) (be32 (length p) @ p) @ [CHR 10])"

definition good_snapshot :: jdict where "good_snapshot = [(''State'', JStr ''RUNNING'')]"

definition blank_snapshot :: jdict where "blank_snapshot = [(''State'', JStr ''-'')]"

lemma tiny_length:
  "length (dumps_compact (JObj (tiny_message ''AQ==''))) < 300"
  "length (dumps_compact (JObj (tiny_message ''AA==''))) < 300"
  by (simp_all add: tiny_message_def dumps_length)

lemma tiny_ok: "json_ok (JObj (tiny_message ''AQ==''))" "json_ok (JObj (tiny_message ''AA==''))"
  by (simp_all add: tiny_message_def)

lemma tiny_base64: "b64decode ''AQ=='' = Some [byte_of 1]" "b64decode ''AA=='' = Some [byte_of 0]"
  by code_simp+

lemma tiny_decoded:
  "decode_with_model_json [byte_of 1] tiny_model = Inr good_snapshot"
  "decode_with_model_json [byte_of 0] tiny_model = Inr blank_snapshot"
  by code_simp+

lemma tiny_carries:
  "carries ''w'' [byte_of 1] (tiny_message ''AQ=='')" "carries ''w'' [byte_of 0] (tiny_message ''AA=='')"
  using tiny_base64 by (simp_all add: carries_def tiny_message_def get_or_def)

lemma tiny_line_read:
  assumes "data = ''AQ=='' \<and> blob = [byte_of 1] \<or> data = ''AA=='' \<and> blob = [byte_of 0]"
    and "decode_with_model_json blob tiny_model = Inr d"
  shows "washer_snapshot (tiny_line data) tiny_model ''w'' = Inr (Some d)"
proof -
  let ?p = "dumps_compact (JObj (tiny_message data))"
  have ok: "json_ok (JObj (tiny_message data))" "length ?p < 300" "carries ''w'' blob (tiny_message data)"
    using assms(1) tiny_ok tiny_length tiny_carries by auto
  have "split_records (be32 (length ?p) @ ?p) = [?p]"
    using split_records_frame [of ?p "[]"] split_records_nil [of "[]"] ok(1,2) by simp
  then show ?thesis
    using match_line_relay [OF label_of_range [of Client], of "be32 (length ?p) @ ?p" 3661 7]
      record_carries [OF ok(1,3) assms(2), of None]
    by (simp add: tiny_line_def Let_def washer_snapshot_def records_from_hex_def res_of_option_def label_of_def be32_def)
qed

lemma tiny_lines_read:
  "washer_snapshot (tiny_line ''AQ=='') tiny_model ''w'' = Inr (Some good_snapshot)"
  "washer_snapshot (tiny_line ''AA=='') tiny_model ''w'' = Inr (Some blank_snapshot)"
  using tiny_line_read tiny_decoded by blast+

lemmas tiny_eval = tiny_lines_read start_follower_def good_snapshot_def blank_snapshot_def usable_def is_real_def
  blank_values_def no_line_def got_line_def post_def should_warn_washer_dark_def terminal_states_def get_or_def Let_def

lemma snapshot_read_back_witness:
  "washer_snapshot (tiny_line ''AQ=='') tiny_model ''w'' = Inr (Some good_snapshot)"
proof -
  let ?p = "dumps_compact (JObj (tiny_message ''AQ==''))"
  have "list_all2 (\<lambda>m w. encode_message_len4 m = Inr w) ([] @ tiny_message ''AQ=='' # []) [be32 (length ?p) @ ?p]"
    using tiny_length by (simp add: encode_message_len4_def Let_def)
  from snapshot_read_back [OF this _ tiny_ok(1) tiny_carries(1) tiny_decoded(1), of 3661 7]
  show ?thesis by (simp add: tiny_line_def Let_def)
qed


text \<open>
  What the bridge does with a blank snapshot at the end of the log it starts from: the start
  publishes nothing, but the first heartbeat publishes the blank.
\<close>

lemma blank_tail_published:
  "\<exists>s. start_follower tiny_model ''w'' [tiny_line ''AA==''] 0 = Inr s \<and> outbox s = [] \<and>
     outbox (no_line 301 s) = [blank_snapshot] \<and> \<not> usable blank_snapshot"
  by (simp add: tiny_eval)

text \<open>
  What it does with a line read while the relay is still writing it, cut within a byte: the
  exception ends the loop.
\<close>

lemma torn_line_kills: "washer_snapshot ''01:01:01.007 C->U len=2 hex=616'' mj device = Inl ValueError"
proof -
  have "match_line ''01:01:01.007 C->U len=2 hex=616'' = Some (''C->U'', ''616'')" "from_hex ''616'' = None"
    by code_simp+
  then show ?thesis by (simp add: washer_snapshot_def records_from_hex_def res_of_option_def)
qed

theorem no_blank_published_witness:
  "\<exists>s s'. start_follower tiny_model ''w'' [tiny_line ''AQ==''] 0 = Inr s \<and>
     follow tiny_model ''w'' [(1, GotLine (tiny_line ''AA=='')), (400, NoLine)] s = Inr s' \<and>
     outbox s' = [good_snapshot, good_snapshot] \<and> (\<forall>p \<in> set (outbox s'). usable p \<or> p = good_snapshot)"
proof -
  let ?lines = "[tiny_line ''AQ=='']" and ?ticks = "[(1, GotLine (tiny_line ''AA=='')), (400, NoLine)]"
  have tail: "replay_tail tiny_model ''w'' (drop (length ?lines - 3000) ?lines) [] = Inr good_snapshot"
    by (simp add: tiny_eval)
  obtain s where s: "start_follower tiny_model ''w'' ?lines 0 = Inr s" "last_known s = good_snapshot"
    "outbox s = [good_snapshot]" "last_beat s = 0" by (simp add: tiny_eval)
  obtain s' where s': "follow tiny_model ''w'' ?ticks s = Inr s'" "outbox s' = [good_snapshot, good_snapshot]"
    using s(2-4) by (simp add: tiny_eval)
  show ?thesis using s(1) s' no_blank_published [OF tail s(1) s'(1)] by blast
qed

end
