(* ===== verification/LogCap.thy ===== *)
theory LogCap
  imports Prelude
begin

text \<open>
  \<open>server/logcap.py\<close>: the relay logs are truncated in place when they outgrow a cap, keeping a tail
  of whole lines. The files are a dictionary from paths to contents; a path the process cannot
  open is skipped. Between two passes of the thread the relays append to their logs.
\<close>

section \<open>Truncation\<close>

definition newline :: char where
  "newline = CHR 10"

text \<open>The tail that is kept, without its first, partial line when it has another.\<close>

definition kept_tail :: "int \<Rightarrow> bytes \<Rightarrow> bytes" where
  "kept_tail keep content =
     (let tail = drop (nat (max 0 (int (length content) - keep))) content in
      if newline \<in> set tail then drop 1 (dropWhile (\<lambda>c. c \<noteq> newline) tail) else tail)"

definition keep_bytes_of :: "int \<Rightarrow> int \<Rightarrow> int" where
  "keep_bytes_of cap keep = (if keep \<le> 0 then cap div 4 else keep)"

fun cap_files ::
  "(str \<Rightarrow> bool) \<Rightarrow> int \<Rightarrow> int \<Rightarrow> str list \<Rightarrow> (str, bytes) dict \<Rightarrow> (str, nat) dict \<times> (str, bytes) dict" where
  "cap_files openable cap keep [] files = ([], files)"
| "cap_files openable cap keep (p # ps) files =
     (case dict_get files p of
        None \<Rightarrow> cap_files openable cap keep ps files
      | Some content \<Rightarrow>
          if \<not> openable p \<or> int (length content) \<le> cap then cap_files openable cap keep ps files
          else let tail = kept_tail keep content;
                   rest = cap_files openable cap keep ps (dict_set files p tail) in
               (dict_set (fst rest) p (length tail), snd rest))"

definition truncate_oversized ::
  "(str \<Rightarrow> bool) \<Rightarrow> str list \<Rightarrow> int \<Rightarrow> int \<Rightarrow> (str, bytes) dict \<Rightarrow> (str, nat) dict \<times> (str, bytes) dict" where
  "truncate_oversized openable ps cap keep files =
     (if cap \<le> 0 then ([], files) else cap_files openable cap (keep_bytes_of cap keep) ps files)"

section \<open>The thread\<close>

text \<open>The logs of a directory, of which the names are given: what \<open>relay-*.log\<close> matches, sorted.\<close>

definition is_relay_log :: "str \<Rightarrow> bool" where
  "is_relay_log n \<longleftrightarrow> startswith n ''relay-'' \<and> endswith n ''.log'' \<and> 10 \<le> length n"

definition relay_log_paths :: "str \<Rightarrow> str list \<Rightarrow> str list" where
  "relay_log_paths dir names = sort (map (\<lambda>n. path_join dir n) (filter is_relay_log names))"

definition appended :: "(str \<Rightarrow> bytes) \<Rightarrow> (str, bytes) dict \<Rightarrow> (str, bytes) dict" where
  "appended more files = map (\<lambda>(p, content). (p, content @ more p)) files"

text \<open>What is appended before each pass is given; no thread runs without a cap.\<close>

fun logcap_thread ::
  "(str \<Rightarrow> bool) \<Rightarrow> int \<Rightarrow> str \<Rightarrow> str list \<Rightarrow> (str \<Rightarrow> bytes) list \<Rightarrow> (str, bytes) dict \<Rightarrow> (str, bytes) dict" where
  "logcap_thread openable cap dir names [] files = files"
| "logcap_thread openable cap dir names (more # ms) files =
     logcap_thread openable cap dir names ms
       (if cap \<le> 0 then appended more files
        else snd (truncate_oversized openable (relay_log_paths dir names) cap 0 (appended more files)))"

section \<open>Lemmas\<close>

lemma kept_tail_length: "0 \<le> keep \<Longrightarrow> int (length (kept_tail keep content)) \<le> keep"
proof -
  assume "0 \<le> keep"
  let ?tail = "drop (nat (max 0 (int (length content) - keep))) content"
  have "length (drop 1 (dropWhile P xs)) \<le> length xs" for P and xs :: bytes
    by (metis diff_le_self le_trans length_drop length_dropWhile_le)
  then have "length (kept_tail keep content) \<le> length ?tail"
    unfolding kept_tail_def Let_def by (cases "newline \<in> set ?tail") (simp_all only: if_True if_False order_refl)
  also have "int (length ?tail) \<le> keep" using \<open>0 \<le> keep\<close> by (simp add: nat_le_iff)
  finally show ?thesis by simp
qed

text \<open>What is kept starts a line: the cut is behind a newline unless no newline was left at all.\<close>

lemma kept_tail_whole_lines:
  "\<exists>gone. content = gone @ kept_tail keep content \<and>
    (newline \<in> set (drop (nat (max 0 (int (length content) - keep))) content) \<longrightarrow>
       gone \<noteq> [] \<and> last gone = newline)"
proof -
  let ?n = "nat (max 0 (int (length content) - keep))"
  let ?tail = "drop ?n content"
  show ?thesis
  proof (cases "newline \<in> set ?tail")
    case False
    then have "content = take ?n content @ kept_tail keep content" by (simp add: kept_tail_def Let_def)
    with False show ?thesis by blast
  next
    case True
    let ?line = "takeWhile (\<lambda>c. c \<noteq> newline) ?tail"
    obtain r where r: "dropWhile (\<lambda>c. c \<noteq> newline) ?tail = newline # r"
      using True by (metis (mono_tags, lifting) dropWhile_eq_Nil_conv hd_dropWhile list.collapse)
    then have "kept_tail keep content = r" using True by (simp add: kept_tail_def Let_def)
    moreover have "content = take ?n content @ ?line @ newline # r"
      using r by (metis append_take_drop_id takeWhile_dropWhile_id)
    ultimately show ?thesis by (intro exI [of _ "take ?n content @ ?line @ [newline]"]) simp
  qed
qed

lemma cap_files_other: "p \<notin> set ps \<Longrightarrow> map_of (snd (cap_files openable cap keep ps files)) p = map_of files p"
  by (induction openable cap keep ps files rule: cap_files.induct) (auto simp: Let_def split: option.splits)

lemma cap_files_each:
  assumes "distinct ps" "p \<in> set ps" "map_of files p = Some content"
  shows "map_of (snd (cap_files openable cap keep ps files)) p =
    Some (if \<not> openable p \<or> int (length content) \<le> cap then content else kept_tail keep content)"
  using assms
proof (induction openable cap keep ps files rule: cap_files.induct)
  case (2 openable cap keep q ps files)
  show ?case
  proof (cases "q = p")
    case True
    with 2 show ?thesis by (auto simp: Let_def cap_files_other)
  next
    case False
    with 2 show ?thesis by (auto simp: Let_def split: option.splits)
  qed
qed simp

text \<open>
  After a pass no log that can be opened is larger than the cap, and what is left of it is a
  suffix of what it held: nothing is rewritten, and no other file is touched.
\<close>

lemma capped_pass:
  assumes "0 < cap" "keep \<le> cap" "distinct ps" "map_of files p = Some content"
  shows "\<exists>left gone. map_of (snd (truncate_oversized openable ps cap keep files)) p = Some left \<and>
    content = gone @ left \<and> (p \<notin> set ps \<or> \<not> openable p \<longrightarrow> gone = []) \<and>
    (p \<in> set ps \<and> openable p \<longrightarrow> int (length left) \<le> cap)"
proof (cases "p \<in> set ps")
  case False
  with assms show ?thesis by (simp add: truncate_oversized_def cap_files_other)
next
  case True
  let ?keep = "keep_bytes_of cap keep"
  have keep: "0 \<le> ?keep" "?keep \<le> cap" using assms(1,2) by (auto simp: keep_bytes_of_def)
  have each: "map_of (snd (truncate_oversized openable ps cap keep files)) p =
      Some (if \<not> openable p \<or> int (length content) \<le> cap then content else kept_tail ?keep content)"
    using cap_files_each [OF assms(3) True assms(4)] assms(1) by (simp add: truncate_oversized_def)
  show ?thesis
  proof (cases "\<not> openable p \<or> int (length content) \<le> cap")
    case True
    with each show ?thesis by auto
  next
    case False
    obtain gone where "content = gone @ kept_tail ?keep content" using kept_tail_whole_lines by blast
    moreover have "int (length (kept_tail ?keep content)) \<le> cap"
      using kept_tail_length [OF keep(1), of content] keep(2) by linarith
    ultimately show ?thesis using each False \<open>p \<in> set ps\<close> by (intro exI [of _ "kept_tail ?keep content"] exI [of _ gone]) simp
  qed
qed

lemma appended_get: "map_of (appended more files) p = map_option (\<lambda>c. c @ more p) (map_of files p)"
  by (induction files) (auto simp: appended_def)

lemma relay_log_relative: "is_relay_log n \<Longrightarrow> \<not> startswith n ''/''"
  by (cases n) (auto simp: is_relay_log_def startswith_def)

lemma distinct_paths: "distinct names \<Longrightarrow> distinct (relay_log_paths dir names)"
  by (auto simp: relay_log_paths_def distinct_map inj_on_def path_join_def relay_log_relative split: if_splits)

text \<open>
  C39. Whatever the relays append between the passes, after each pass no log of the directory that can
  be opened is larger than the cap, and what is left of it is the tail of everything ever written
  to it; a file that is no relay log or cannot be opened loses nothing.
\<close>

theorem logs_stay_capped:
  assumes "0 < cap" "distinct names" "map_of files p = Some content" "ms \<noteq> []"
  shows "\<exists>left gone. map_of (logcap_thread openable cap dir names ms files) p = Some left \<and>
    content @ concat (map (\<lambda>more. more p) ms) = gone @ left \<and>
    (p \<notin> set (relay_log_paths dir names) \<or> \<not> openable p \<longrightarrow> gone = []) \<and>
    (p \<in> set (relay_log_paths dir names) \<and> openable p \<longrightarrow> int (length left) \<le> cap)"
  using assms(3,4)
proof (induction ms arbitrary: files content)
  case (Cons more ms)
  let ?files = "snd (truncate_oversized openable (relay_log_paths dir names) cap 0 (appended more files))"
  have now_there: "map_of (appended more files) p = Some (content @ more p)" using Cons.prems(1) by (simp add: appended_get)
  obtain left gone where g: "map_of ?files p = Some left" "content @ more p = gone @ left"
    "p \<notin> set (relay_log_paths dir names) \<or> \<not> openable p \<longrightarrow> gone = []"
    "p \<in> set (relay_log_paths dir names) \<and> openable p \<longrightarrow> int (length left) \<le> cap"
    using capped_pass [where keep = 0 and openable = openable, OF assms(1) _ distinct_paths [OF assms(2)] now_there, of dir] assms(1)
    by (meson less_imp_le)
  show ?case
  proof (cases "ms = []")
    case True
    then have "logcap_thread openable cap dir names (more # ms) files = ?files" using assms(1) by simp
    with g True show ?thesis by (intro exI [of _ left] exI [of _ gone]) (simp del: logcap_thread.simps)
  next
    case False
    obtain left2 gone2 where h: "map_of (logcap_thread openable cap dir names ms ?files) p = Some left2"
      "left @ concat (map (\<lambda>more. more p) ms) = gone2 @ left2"
      "p \<notin> set (relay_log_paths dir names) \<or> \<not> openable p \<longrightarrow> gone2 = []"
      "p \<in> set (relay_log_paths dir names) \<and> openable p \<longrightarrow> int (length left2) \<le> cap"
      using Cons.IH [OF g(1) False] by blast
    have "content @ concat (map (\<lambda>more. more p) (more # ms)) = (gone @ gone2) @ left2"
      using g(2) h(2) by (metis append.assoc concat.simps(2) list.simps(9))
    moreover have "logcap_thread openable cap dir names (more # ms) files = logcap_thread openable cap dir names ms ?files"
      using assms(1) by simp
    ultimately show ?thesis
      using g(3) h(1,3,4) by (intro exI [of _ left2] exI [of _ "gone @ gone2"]) (simp del: logcap_thread.simps)
  qed
qed simp

theorem logs_stay_capped_witness:
  "\<exists>left gone. map_of (logcap_thread (\<lambda>p. True) 8 ''data'' [''relay-1.log''] [\<lambda>p. ''two'' @ [newline], \<lambda>p. ''three'']
       [(''data/relay-1.log'', ''one'' @ [newline])]) ''data/relay-1.log'' = Some left \<and>
     ''one'' @ [newline] @ ''two'' @ [newline] @ ''three'' = gone @ left \<and> length left \<le> 8"
proof -
  have "''data/relay-1.log'' \<in> set (relay_log_paths ''data'' [''relay-1.log''])" by code_simp
  then show ?thesis
    using logs_stay_capped [of 8 "[''relay-1.log'']" "[(''data/relay-1.log'', ''one'' @ [newline])]" "''data/relay-1.log''"
        "''one'' @ [newline]" "[\<lambda>p. ''two'' @ [newline], \<lambda>p. ''three'']" "\<lambda>p. True" "''data''"]
    by fastforce
qed

end
