(* ===== verification/Observability.thy ===== *)
theory Observability
  imports RelayLog LogCap
begin

text \<open>
  \<open>server/observability.py\<close>: when each appliance was last seen, from the relay logs and the state
  store, and the cycle-end events of the logs. Times are whole seconds since the epoch; a log is
  its path, the size \<open>getsize\<close> gave and the content a later read gives; \<open>iso_epoch\<close> reads a time
  stamp.
\<close>

section \<open>Log lines\<close>

definition known_devices :: "(str, str) dict" where
  [const_defs]: "known_devices = [(''82c2ebc0-0e9f-11f5-82b4-0051eda91d3d'', ''WTWN3''),
     (''93b55500-4b3a-11f1-ad68-7440be73f9ad'', ''RC90U2_WW'')]"

definition max_memory_age :: int where
  [const_defs]: "max_memory_age = 7 * 86400"

text \<open>A text between two literals, of one or more characters of a class.\<close>

definition match_between :: "str \<Rightarrow> (char \<Rightarrow> bool) \<Rightarrow> str \<Rightarrow> str scanner" where
  "match_between before ok_char after s =
     (case scan_lit before s of
        None \<Rightarrow> None
      | Some r \<Rightarrow>
          let v = takeWhile ok_char r in
          if v \<noteq> [] \<and> startswith (dropWhile ok_char r) after
          then Some (v, length before + length v + length after) else None)"

definition is_id_char :: "char \<Rightarrow> bool" where
  "is_id_char c \<longleftrightarrow> is_low_hex c \<or> c = CHR ''-''"

definition is_b64_char :: "char \<Rightarrow> bool" where
  "is_b64_char c \<longleftrightarrow> is_digit c \<or> is_lower c \<or> is_upper c \<or> c = CHR ''+'' \<or> c = CHR ''/'' \<or> c = CHR ''=''"

definition not_lt :: "char \<Rightarrow> bool" where
  "not_lt c \<longleftrightarrow> c \<noteq> CHR ''<''"

definition json_dev :: "str scanner" where
  "json_dev = match_between ([CHR 0x22] @ ''x-lgedm-deviceId'' @ [CHR 0x22] @ '':'' @ [CHR 0x22]) is_id_char [CHR 0x22]"

definition xml_dev :: "str scanner" where
  "xml_dev = match_between ''<devId>'' is_id_char ''</devId>''"

definition diag_data :: "str scanner" where
  "diag_data = match_between ''<diagMonData>'' is_b64_char ''</diagMonData>''"

definition event_type :: "str scanner" where
  "event_type = match_between ''<eventType>'' not_lt ''</eventType>''"

definition mon_data :: "str scanner" where
  "mon_data = match_between ''<monData>'' is_b64_char ''</monData>''"

definition model_tag :: "str scanner" where
  "model_tag = match_between ''<modelName>'' not_lt ''</modelName>''"

definition match_hex :: "str scanner" where
  "match_hex = match_between ''hex='' (\<lambda>c. nibble_val c \<noteq> None) []"

text \<open>A stamp of the day of \<open>now\<close>, or of the day before when that is over five minutes ahead.\<close>

definition sighting_epoch :: "str \<Rightarrow> int \<Rightarrow> int res" where
  "sighting_epoch hms now_s =
     (case map digits_val (split_on (CHR '':'') hms) of
        [hh, mm, ss] \<Rightarrow>
          if hh < 24 \<and> mm < 60 \<and> ss < 60 then
            let cand = 86400 * (now_s div 86400) + 3600 * int hh + 60 * int mm + int ss in
            Inr (if now_s + 300 < cand then cand - 86400 else cand)
          else Inl ValueError
      | _ \<Rightarrow> Inl ValueError)"

text \<open>The text of a stamped line with a hex dump.\<close>

definition line_text :: "bytes \<Rightarrow> (str \<times> str) option" where
  "line_text raw = do {
     (hms, _) \<leftarrow> scan_hms (utf8_replace raw);
     hex \<leftarrow> re_search match_hex (utf8_replace raw);
     bs \<leftarrow> from_hex hex;
     Some (hms, utf8_replace bs) }"

definition devices_in :: "str \<Rightarrow> str list" where
  "devices_in txt = findall json_dev 0 txt @ findall xml_dev 0 txt"

definition event_model :: "(str, str) dict \<Rightarrow> str \<Rightarrow> str option" where
  "event_model models txt =
     (case (case re_search xml_dev txt of None \<Rightarrow> None | Some d \<Rightarrow> dict_get models d) of
        Some (c # m) \<Rightarrow> Some (c # m)
      | _ \<Rightarrow> re_search model_tag txt)"

text \<open>Whatever fails while the state is decoded counts as no state.\<close>

definition event_state :: "'e reg_env_scheme \<Rightarrow> str option \<Rightarrow> str \<Rightarrow> json" where
  "event_state env model txt =
     rdefault JNull
       (case (re_search diag_data txt, model) of
          (Some b, Some (c # m)) \<Rightarrow>
            rbind (res_of_option ValueError (b64decode b)) (\<lambda>x.
              let xml = utf8_replace x in
              case (re_search event_type xml, re_search mon_data xml) of
                (Some et, Some mon) \<Rightarrow>
                  if et \<noteq> ''WM_STATE'' then Inr JNull
                  else
                    rbind (res_of_option ValueError (b64decode mon)) (\<lambda>blob.
                    rbind (decode_mondata env [] blob (c # m)) (\<lambda>(p, _).
                      json_get (let d = get_or p ''monData_decoded'' JNull in if truthy d then d else JObj [])
                        ''State'' JNull))
              | _ \<Rightarrow> Inr JNull)
        | _ \<Rightarrow> Inr JNull)"

section \<open>The watcher\<close>

type_synonym sightings = "(str, int) dict"
type_synonym events = "(str, int \<times> json) dict"

definition see :: "int \<Rightarrow> str \<Rightarrow> sightings \<Rightarrow> sightings" where
  "see t dev m = dict_set m dev (max t (case dict_get m dev of None \<Rightarrow> 0 | Some u \<Rightarrow> u))"

definition event_of :: "'e reg_env_scheme \<Rightarrow> (str, str) dict \<Rightarrow> int \<Rightarrow> str \<Rightarrow> events \<Rightarrow> events" where
  "event_of env models t txt evs =
     (if \<not> sublist ''<diagMonType>EventMonitoring<'' txt then evs
      else let model = event_model models txt; state = event_state env model txt in
        case model of
          Some (c # m) \<Rightarrow> if truthy state then dict_set evs (c # m) (t, state) else evs
        | _ \<Rightarrow> evs)"

text \<open>A stamp that is no time of day leaves the poll.\<close>

fun process_lines ::
  "'e reg_env_scheme \<Rightarrow> (str, str) dict \<Rightarrow> int \<Rightarrow> bytes list \<Rightarrow> sightings \<times> events \<Rightarrow> (sightings \<times> events) res" where
  "process_lines env models now_s [] acc = Inr acc"
| "process_lines env models now_s (raw # raws) (sg, evs) =
     (case line_text raw of
        None \<Rightarrow> process_lines env models now_s raws (sg, evs)
      | Some (hms, txt) \<Rightarrow>
          rbind (sighting_epoch hms now_s) (\<lambda>t.
            process_lines env models now_s raws
              (fold (see t) (devices_in txt) sg, event_of env models t txt evs)))"

record log_file =
  lf_path :: str
  lf_size :: "nat option"
  lf_data :: "bytes option"

text \<open>The offset after a poll, and the bytes it reads from a log of the given size and content.\<close>

definition advance :: "nat option \<Rightarrow> nat \<Rightarrow> bytes option \<Rightarrow> nat \<times> bytes" where
  "advance off sz data =
     (let start = (case off of None \<Rightarrow> sz | Some n \<Rightarrow> if sz < n then 0 else n) in
      if sz = start then (case off of None \<Rightarrow> sz | Some n \<Rightarrow> n, [])
      else (sz, case data of None \<Rightarrow> [] | Some d \<Rightarrow> drop start d))"

fun poll_files ::
  "'e reg_env_scheme \<Rightarrow> (str, str) dict \<Rightarrow> int \<Rightarrow> log_file list \<Rightarrow> (str, nat) dict \<Rightarrow> sightings \<times> events \<Rightarrow>
   (sightings \<times> events) res \<times> (str, nat) dict" where
  "poll_files env models now_s [] offs acc = (Inr acc, offs)"
| "poll_files env models now_s (f # fs) offs acc =
     (case lf_size f of
        None \<Rightarrow> poll_files env models now_s fs offs acc
      | Some sz \<Rightarrow>
          let (off', blob) = advance (dict_get offs (lf_path f)) sz (lf_data f);
              offs' = dict_set offs (lf_path f) off' in
          (case process_lines env models now_s (split_on (CHR 10) blob) acc of
             Inl e \<Rightarrow> (Inl e, offs')
           | Inr acc' \<Rightarrow> poll_files env models now_s fs offs' acc'))"

definition watcher_poll ::
  "'e reg_env_scheme \<Rightarrow> (str, str) dict \<Rightarrow> int \<Rightarrow> log_file list \<Rightarrow> (str, nat) dict \<Rightarrow>
   (sightings \<times> events) res \<times> (str, nat) dict" where
  "watcher_poll env models now_s fs offs = poll_files env models now_s fs offs ([], [])"

text \<open>The boot scan reads whole files and collects sightings only.\<close>

fun scan_lines :: "int \<Rightarrow> bytes list \<Rightarrow> sightings \<Rightarrow> sightings res" where
  "scan_lines now_s [] sg = Inr sg"
| "scan_lines now_s (raw # raws) sg =
     (case line_text raw of
        None \<Rightarrow> scan_lines now_s raws sg
      | Some (hms, txt) \<Rightarrow>
          rbind (sighting_epoch hms now_s) (\<lambda>t. scan_lines now_s raws (fold (see t) (devices_in txt) sg)))"

definition scan_whole_file :: "int \<Rightarrow> bytes option \<Rightarrow> sightings res" where
  "scan_whole_file now_s data = (case data of
      None \<Rightarrow> Inr []
    | Some d \<Rightarrow> scan_lines now_s (split_on (CHR 10) d) [])"

fun seed_memory :: "int \<Rightarrow> log_file list \<Rightarrow> sightings \<Rightarrow> sightings res" where
  "seed_memory now_s [] memory = Inr memory"
| "seed_memory now_s (f # fs) memory =
     rbind (scan_whole_file now_s (lf_data f)) (\<lambda>sg.
       seed_memory now_s fs (fold (\<lambda>(dev, t). see t dev) sg memory))"

section \<open>Publishing ages\<close>

definition view_age :: "(str \<Rightarrow> int option) \<Rightarrow> int \<Rightarrow> jdict \<Rightarrow> (str \<times> int) option" where
  "view_age iso_epoch now_s view =
     (let model = get_or view ''modelName'' JNull; ts = get_or view ''ts'' JNull in
      if \<not> truthy model \<or> \<not> truthy ts then None
      else map_option (\<lambda>t. (py_str model, max 0 (now_s - t))) (iso_epoch (py_str ts)))"

fun store_model_ages :: "(str \<Rightarrow> int option) \<Rightarrow> int \<Rightarrow> jdict list \<Rightarrow> (str, int) dict \<Rightarrow> (str, int) dict" where
  "store_model_ages iso_epoch now_s [] out = out"
| "store_model_ages iso_epoch now_s (v # vs) out =
     store_model_ages iso_epoch now_s vs
       (case view_age iso_epoch now_s v of
          None \<Rightarrow> out
        | Some (model, age) \<Rightarrow>
            (case dict_get out model of
               None \<Rightarrow> dict_set out model age
             | Some a \<Rightarrow> if age < a then dict_set out model age else out))"

definition dev_models :: "(str, str) dict \<Rightarrow> (str, str) dict" where
  "dev_models ids = dict_update known_devices ids"

definition merge_memory :: "(str, str) dict \<Rightarrow> int \<Rightarrow> sightings \<Rightarrow> sightings \<Rightarrow> sightings" where
  "merge_memory models now_s sg memory =
     filter (\<lambda>(dev, t). (case dict_get models dev of None \<Rightarrow> False | Some m \<Rightarrow> m \<noteq> []) \<and>
         now_s - t \<le> max_memory_age)
       (fold (\<lambda>(dev, t). see t dev) sg memory)"

definition model_seen :: "(str, str) dict \<Rightarrow> int \<Rightarrow> sightings \<Rightarrow> (str, int) dict \<Rightarrow> (str, int) dict" where
  "model_seen models now_s memory ages =
     fold (\<lambda>(model, age). see (now_s - age) model) ages
       (fold (\<lambda>(dev, t). see t (the (dict_get models dev))) memory [])"

definition model_ages :: "int \<Rightarrow> (str, int) dict \<Rightarrow> (str, int) dict" where
  "model_ages now_s seen = map (\<lambda>(model, t). (model, max 0 (now_s - t))) seen"

definition device_for :: "(str, str) dict \<Rightarrow> (str, jdict) dict \<Rightarrow> str \<Rightarrow> str" where
  "device_for models l model =
     (case find (\<lambda>(d, m). m = model) models of
        Some (d, _) \<Rightarrow> d
      | None \<Rightarrow> (case find (\<lambda>(k, v). get_or v ''modelName'' JNull = JStr model) l of
            Some (k, _) \<Rightarrow> k
          | None \<Rightarrow> model))"

definition age_payload :: "events \<Rightarrow> str \<Rightarrow> int \<Rightarrow> jdict" where
  "age_payload evs model age =
     [(''modelName'', JStr model), (''last_frame_age'', JStr (int_str age))] @
     (case dict_get evs model of None \<Rightarrow> [] | Some (_, state) \<Rightarrow> [(''State'', state)])"

definition publish_ages ::
  "'s state_env \<Rightarrow> (str \<Rightarrow> int option) \<Rightarrow> int \<Rightarrow> sightings \<Rightarrow> events \<Rightarrow> sightings \<Rightarrow> 's store \<Rightarrow>
   (str, int) dict \<times> sightings \<times> 's store" where
  "publish_ages env iso_epoch now_s sg evs memory st =
     (let models = dev_models (model_by_devid st);
          memory' = merge_memory models now_s sg memory;
          ages = model_ages now_s (model_seen models now_s memory'
                   (store_model_ages iso_epoch now_s (map snd (latest st)) [])) in
      (ages, memory',
       fold (\<lambda>(model, age) s. notify env (device_for models (latest st) model) (age_payload evs model age) s)
         ages st))"


text \<open>A pass of the loop. What a poll that fails had found is lost, but not what it had read.\<close>

definition observe_pass ::
  "'s state_env \<Rightarrow> (str \<Rightarrow> int option) \<Rightarrow> (str, str) dict \<Rightarrow> int \<Rightarrow> log_file list \<Rightarrow>
   (str, nat) dict \<times> sightings \<times> 's store \<Rightarrow> (str, nat) dict \<times> sightings \<times> 's store" where
  "observe_pass env iso_epoch models now_s fs x = (case x of (offs, memory, st) \<Rightarrow>
     (case watcher_poll env models now_s fs offs of
        (Inl e, offs') \<Rightarrow> (offs', memory, st)
      | (Inr (sg, evs), offs') \<Rightarrow>
          (case publish_ages env iso_epoch now_s sg evs memory st of
             (ages, memory', st') \<Rightarrow> (offs', memory', st'))))"

section \<open>The thread\<close>

text \<open>
  The boot scan, then one pass after the other; a pass knows the time and the logs. The models the
  watcher knows are those of the start. An exception of the boot scan ends the thread.
\<close>

definition observability_thread ::
  "'s state_env \<Rightarrow> (str \<Rightarrow> int option) \<Rightarrow> int \<Rightarrow> log_file list \<Rightarrow> (int \<times> log_file list) list \<Rightarrow> ('s, unit) action" where
  "observability_thread env iso_epoch boot_s boot_logs passes st =
     (case seed_memory boot_s boot_logs [] of
        Inl e \<Rightarrow> (Inl e, st)
      | Inr memory \<Rightarrow>
          (Inr (), snd (snd (fold (\<lambda>(now_s, fs) x. observe_pass env iso_epoch (dev_models (model_by_devid st)) now_s fs x)
             passes ([], memory, st)))))"

text \<open>The model of a device an event names, or of a payload that mentions the device somewhere.\<close>

definition mentions :: "str \<Rightarrow> jdict \<Rightarrow> bool" where
  "mentions dev view \<longleftrightarrow> list_ex (\<lambda>i. startswith (drop i (py_str (JObj view))) dev) [0..<Suc (length (py_str (JObj view)))]"

definition model_of_event :: "(str, str) dict \<Rightarrow> (str, jdict) dict \<Rightarrow> str \<Rightarrow> json" where
  "model_of_event models l dev =
     (let named = (case dict_get models dev of None \<Rightarrow> [] | Some m \<Rightarrow> m) in
      if named \<noteq> [] then JStr named
      else case find (\<lambda>(k, v). truthy (get_or v ''modelName'' JNull) \<and> mentions dev v) l of
          None \<Rightarrow> JNull
        | Some (k, v) \<Rightarrow> get_or v ''modelName'' JNull)"

section \<open>Following a log\<close>

text \<open>The watcher poll after poll: the time and the logs as each poll finds them, and what it returns.\<close>

fun watch ::
  "'e reg_env_scheme \<Rightarrow> (str, str) dict \<Rightarrow> (str, nat) dict \<Rightarrow> (int \<times> log_file list) list \<Rightarrow> (sightings \<times> events) res list" where
  "watch env models offs [] = []"
| "watch env models offs ((now_s, fs) # polls) =
     (case watcher_poll env models now_s fs offs of (r, offs') \<Rightarrow> r # watch env models offs' polls)"

text \<open>
  A log that only grows. Between the poll before and the size that this poll takes, \<open>p\<close> is appended; between
  that and its read, \<open>x\<close>, which is the beginning of what the next poll finds appended.
\<close>

definition log_at :: "str \<Rightarrow> bytes \<Rightarrow> bytes \<Rightarrow> log_file" where
  "log_at path d x = \<lparr>lf_path = path, lf_size = Some (length d), lf_data = Some (d @ x)\<rparr>"

fun growing :: "str \<Rightarrow> bytes \<Rightarrow> (int \<times> bytes \<times> bytes) list \<Rightarrow> (int \<times> log_file list) list" where
  "growing path d [] = []"
| "growing path d ((now_s, p, x) # ps) = (now_s, [log_at path (d @ p) x]) # growing path (d @ p) ps"

definition fresh_part :: "bytes \<Rightarrow> bytes \<Rightarrow> bytes" where
  "fresh_part p x = (if p = [] then [] else p @ x)"

text \<open>What a watcher reads from one log, poll by poll, and the contents of a log that only grows.\<close>

fun polled :: "nat option \<Rightarrow> bytes list \<Rightarrow> bytes list" where
  "polled off [] = []"
| "polled off (d # ds) = (case advance off (length d) (Some d) of (off', b) \<Rightarrow> b # polled (Some off') ds)"

fun grown :: "bytes \<Rightarrow> bytes list \<Rightarrow> bytes list" where
  "grown d [] = []"
| "grown d (p # ps) = (d @ p) # grown (d @ p) ps"

definition lines_of :: "bytes \<Rightarrow> bytes list" where
  "lines_of b = filter (\<lambda>l. l \<noteq> []) (split_on newline b)"

definition whole_lines :: "bytes \<Rightarrow> bool" where
  "whole_lines p \<longleftrightarrow> p = [] \<or> last p = newline"

lemma split_on_line: "newline \<notin> set l \<Longrightarrow> split_on newline (l @ newline # r) = l # split_on newline r"
  by (induction l) auto

lemma lines_of_append:
  assumes "whole_lines p"
  shows "lines_of (p @ r) = lines_of p @ lines_of r"
  using assms
proof (induction "length p" arbitrary: p rule: less_induct)
  case less
  show ?case
  proof (cases "p = []")
    case False
    then have "newline \<in> set p" using less.prems by (metis last_in_set whole_lines_def)
    then obtain l q where p: "p = l @ newline # q" "newline \<notin> set l" by (metis split_list_first)
    have "whole_lines q" using less.prems p by (auto simp: whole_lines_def split: if_splits)
    then have "lines_of (q @ r) = lines_of q @ lines_of r" using less.hyps [of q] p by simp
    then show ?thesis using split_on_line [OF p(2)] p(1) by (simp add: lines_of_def)
  qed (simp add: lines_of_def)
qed

lemma lines_of_concat:
  "list_all whole_lines ps \<Longrightarrow> concat (map lines_of ps) = lines_of (concat ps)"
  by (induction ps) (simp_all add: lines_of_append, simp add: lines_of_def)

lemma process_lines_of: "process_lines env models now_s (split_on newline b) acc = process_lines env models now_s (lines_of b) acc"
proof -
  have "process_lines env models now_s ls acc = process_lines env models now_s (filter (\<lambda>l. l \<noteq> []) ls) acc" for ls
  proof (induction ls arbitrary: acc)
    case (Cons l ls)
    have "line_text [] = None" by code_simp
    with Cons show ?case by (cases acc; cases "l = []") (auto simp: rbind_def split: option.splits sum.splits)
  qed simp
  then show ?thesis by (simp add: lines_of_def)
qed

lemma poll_log:
  "watcher_poll env models now_s [log_at path d x] offs =
    (case advance (dict_get offs path) (length d) (Some (d @ x)) of (off', b) \<Rightarrow>
       (process_lines env models now_s (lines_of b) ([], []), dict_set offs path off'))"
  by (auto simp: watcher_poll_def log_at_def process_lines_of [unfolded newline_def] Let_def split: prod.splits sum.splits)

lemma watch_growing:
  "dict_get offs path = Some (length d) \<Longrightarrow> watch env models offs (growing path d ps) =
    map (\<lambda>(now_s, p, x). process_lines env models now_s (lines_of (fresh_part p x)) ([], [])) ps"
proof (induction ps arbitrary: d offs)
  case (Cons q ps)
  obtain now_s p x where q: "q = (now_s, p, x)" by (metis prod_cases3)
  have "advance (dict_get offs path) (length (d @ p)) (Some ((d @ p) @ x)) = (length (d @ p), fresh_part p x)"
    using Cons.prems by (simp add: advance_def fresh_part_def)
  then show ?case using Cons.IH [of "dict_set offs path (length (d @ p))" "d @ p"] by (simp add: q poll_log)
qed simp

text \<open>
  C31. Every line once: the first poll of a log that grows arms at its end and finds nothing; each poll after
  it returns what the lines amount to that were appended since the size the poll before took, and those that
  arrive between its own size and its read (unless nothing was appended before). So where no line
  arrives in between and the log grows by whole lines, the lines processed are exactly the lines appended
  after the first poll, each once and in order, whatever the polls' times.
\<close>
theorem lines_exactly_once:
  "watch env models [] ((now_0, [log_at path d x0]) # growing path d ps) =
      Inr ([], []) # map (\<lambda>(now_s, p, x). process_lines env models now_s (lines_of (fresh_part p x)) ([], [])) ps \<and>
   (list_all (\<lambda>(now_s, p, x). whole_lines p \<and> x = []) ps \<longrightarrow>
      concat (map (\<lambda>(now_s, p, x). lines_of (fresh_part p x)) ps) = lines_of (concat (map (fst \<circ> snd) ps)))"
proof (intro conjI impI)
  have "watcher_poll env models now_0 [log_at path d x0] [] = (Inr ([], []), [(path, length d)])"
    by (simp add: poll_log advance_def lines_of_def)
  then show "watch env models [] ((now_0, [log_at path d x0]) # growing path d ps) =
      Inr ([], []) # map (\<lambda>(now_s, p, x). process_lines env models now_s (lines_of (fresh_part p x)) ([], [])) ps"
    using watch_growing [of "[(path, length d)]" path d] by simp
next
  assume h: "list_all (\<lambda>(now_s, p, x). whole_lines p \<and> x = []) ps"
  then have "list_all whole_lines (map (fst \<circ> snd) ps)" by (auto simp: list_all_iff)
  moreover have "map (\<lambda>(now_s, p, x). lines_of (fresh_part p x)) ps = map lines_of (map (fst \<circ> snd) ps)"
    using h by (auto simp: list_all_iff fresh_part_def)
  ultimately show "concat (map (\<lambda>(now_s, p, x). lines_of (fresh_part p x)) ps) = lines_of (concat (map (fst \<circ> snd) ps))"
    using lines_of_concat by metis
qed

theorem lines_exactly_once_witness:
  "watch (sample_state_env None) [] [] ((0, [log_at ''l'' (''a'' @ [newline]) []]) #
       growing ''l'' (''a'' @ [newline]) [(60, ''b'' @ [newline], []), (120, ''c'' @ [newline], [])]) =
     [Inr ([], []), process_lines (sample_state_env None) [] 60 [''b''] ([], []), process_lines (sample_state_env None) [] 120 [''c''] ([], [])] \<and>
   concat (map (\<lambda>(now_s, p, x). lines_of (fresh_part p x)) [(60 :: int, ''b'' @ [newline], []), (120, ''c'' @ [newline], [])]) = [''b'', ''c'']"
proof -
  let ?ps = "[(60 :: int, ''b'' @ [newline], []), (120, ''c'' @ [newline], [])]"
  have "list_all (\<lambda>(now_s, p, x). whole_lines p \<and> x = []) ?ps" by (simp add: whole_lines_def)
  with lines_exactly_once [of "sample_state_env None" "[]" 0 "''l''" "''a'' @ [newline]" "[]" ?ps]
  show ?thesis by (simp del: growing.simps watch.simps add: fresh_part_def) (simp add: lines_of_def newline_def)
qed

text \<open>A line that arrives between the size and the read is processed by that poll and again by the next.\<close>

lemma raced_line_twice:
  assumes "whole_lines p" "p \<noteq> []" "x \<noteq> []"
  shows "watch env models [] ((now_0, [log_at path d []]) # growing path d [(now_1, p, x), (now_2, x, [])]) =
    [Inr ([], []), process_lines env models now_1 (lines_of p @ lines_of x) ([], []), process_lines env models now_2 (lines_of x) ([], [])]"
  using assms watch_growing [of "[(path, length d)]" path d env models "[(now_1, p, x), (now_2, x, [])]"]
  by (simp add: poll_log advance_def lines_of_append fresh_part_def) (simp add: lines_of_def)

text \<open>
  A line that is half written when the log is polled is processed as two halves, and a log that
  the cap has truncated is read again from its top: its kept lines are processed twice.
\<close>

lemma torn_line_split:
  "concat (map lines_of (polled None ((''a'' @ [newline]) # grown (''a'' @ [newline]) [''b'', ''c'' @ [newline]]))) = [''b'', ''c'']"
  "lines_of (concat [''b'', ''c'' @ [newline]]) = [''bc'']"
  by (simp_all add: advance_def Let_def lines_of_def newline_def)

lemma truncation_rereads:
  assumes "0 \<le> keep" "keep < int (length d)" "kept_tail keep d \<noteq> []"
  shows "polled (Some (length d)) [d, kept_tail keep d] = [[], kept_tail keep d]"
  using assms kept_tail_length [OF assms(1), of d] by (auto simp: advance_def Let_def)

section \<open>Stamps\<close>

text \<open>
  A stamp is read as the instant of that time of day in the day that ends five minutes ahead
  of the clock: there is exactly one, it is never more than five minutes ahead, and never a day
  or more behind.
\<close>
lemma stamp_in_last_day:
  assumes "sighting_epoch hms now_s = Inr t"
  shows "\<exists>hh mm ss. map digits_val (split_on (CHR '':'') hms) = [hh, mm, ss] \<and>
     t mod 86400 = 3600 * int hh + 60 * int mm + int ss \<and> now_s - 86400 < t \<and> t \<le> now_s + 300"
proof -
  obtain hh mm ss where f: "map digits_val (split_on (CHR '':'') hms) = [hh, mm, ss]" "hh < 24" "mm < 60" "ss < 60"
    using assms by (auto simp: sighting_epoch_def split: list.splits if_splits)
  let ?d = "now_s div 86400" and ?s = "3600 * int hh + 60 * int mm + int ss"
  have t: "t = (if now_s + 300 < 86400 * ?d + ?s then 86400 * ?d + ?s - 86400 else 86400 * ?d + ?s)"
    using assms f by (auto simp: sighting_epoch_def Let_def add.assoc split: if_splits)
  have s: "0 \<le> ?s" "?s < 86400" using f(2-4) by linarith+
  have d: "86400 * ?d \<le> now_s" "now_s < 86400 * ?d + 86400" by linarith+
  have "(86400 * k + ?s) mod 86400 = ?s" for k using s by simp
  from this [of ?d] this [of "?d - 1"] have "t mod 86400 = ?s" by (simp add: t algebra_simps)
  moreover have "now_s - 86400 < t" "t \<le> now_s + 300" using t s d by (auto split: if_splits)
  ultimately show ?thesis using f(1) by (intro exI [of _ hh] exI [of _ mm] exI [of _ ss]) simp
qed

lemma stamp_in_last_day_witness:
  "\<exists>t. sighting_epoch ''23:59:58'' 172810 = Inr t \<and> t = 172798 \<and> t mod 86400 = 86398"
proof -
  have e: "sighting_epoch ''23:59:58'' 172810 = Inr 172798" by code_simp
  have "map digits_val (split_on (CHR '':'') ''23:59:58'') = [23, 59, 58]" by code_simp
  then show ?thesis using e stamp_in_last_day [OF e] by auto
qed

section \<open>Ages\<close>

text \<open>What is on record for a key, made newer by a set of sightings.\<close>

definition newest :: "int option \<Rightarrow> int set \<Rightarrow> int option" where
  "newest known S = (if S = {} then known else Some (Max (insert (case known of None \<Rightarrow> 0 | Some u \<Rightarrow> u) S)))"

lemma newest_empty [simp]: "newest known {} = known"
  by (simp add: newest_def)

lemma newest_newest:
  assumes "finite S" "finite T"
  shows "newest (newest known S) T = newest known (S \<union> T)"
proof (cases "S = {} \<or> T = {}")
  case False
  then have "insert (Max (insert u S)) T \<noteq> {}" "Max (insert (Max (insert u S)) T) = Max (insert u (S \<union> T))" for u
    using assms by (simp_all add: Max_Un max.assoc)
  then show ?thesis using False by (simp add: newest_def)
qed auto

lemma see_newest: "dict_get (see t k d) m = newest (dict_get d m) (if k = m then {t} else {})"
  by (simp add: see_def newest_def max.commute split: option.splits)

lemma see_fold: "dict_get (fold (\<lambda>x. see (T x) (K x)) xs d) m = newest (dict_get d m) (T ` {x \<in> set xs. K x = m})"
proof (induction xs arbitrary: d)
  case (Cons a xs)
  have "T ` {x \<in> set (a # xs). K x = m} = (if K a = m then {T a} else {}) \<union> T ` {x \<in> set xs. K x = m}" by auto
  then show ?case using Cons.IH [of "see (T a) (K a) d"]
      newest_newest [of "if K a = m then {T a} else {}" "T ` {x \<in> set xs. K x = m}" "dict_get d m"]
    by (simp only: fold.simps comp_apply see_newest) simp
qed simp

lemma fold_pairs: "fold (\<lambda>(a, b). see (T a b) (K a b)) xs = fold (\<lambda>x. see (T (fst x) (snd x)) (K (fst x) (snd x))) xs"
  by (simp add: case_prod_unfold)

text \<open>What the two tables tell of a model.\<close>

definition evidence :: "(str, str) dict \<Rightarrow> int \<Rightarrow> sightings \<Rightarrow> (str, int) dict \<Rightarrow> str \<Rightarrow> int set" where
  "evidence models now_s memory ages m =
     {t. \<exists>dev. (dev, t) \<in> set memory \<and> the (dict_get models dev) = m} \<union> {now_s - a |a. (m, a) \<in> set ages}"

lemma finite_evidence: "finite (evidence models now_s memory ages m)"
proof -
  have "evidence models now_s memory ages m \<subseteq> snd ` set memory \<union> (\<lambda>x. now_s - snd x) ` set ages"
    by (force simp: evidence_def image_def)
  then show ?thesis by (rule finite_subset) simp
qed

lemma model_seen_get:
  "dict_get (model_seen models now_s memory ages) m = newest None (evidence models now_s memory ages m)"
proof -
  let ?M = "(\<lambda>x. snd x) ` {x \<in> set memory. the (dict_get models (fst x)) = m}"
  let ?A = "(\<lambda>x. now_s - snd x) ` {x \<in> set ages. fst x = m}"
  have E: "evidence models now_s memory ages m = ?M \<union> ?A" by (force simp: evidence_def image_def)
  show ?thesis
    unfolding model_seen_def fold_pairs see_fold E by (subst newest_newest) simp_all
qed

lemma model_ages_get: "dict_get (model_ages now_s seen) m = map_option (\<lambda>t. max 0 (now_s - t)) (dict_get seen m)"
  by (induction seen) (auto simp: model_ages_def)

text \<open>When a device was last seen: what is remembered of it and the sightings of the pass.\<close>

definition last_seen :: "sightings \<Rightarrow> sightings \<Rightarrow> str \<Rightarrow> int option" where
  "last_seen memory sg dev = newest (dict_get memory dev) {t. (dev, t) \<in> set sg}"

definition remembered :: "(str, str) dict \<Rightarrow> int \<Rightarrow> sightings \<Rightarrow> sightings \<Rightarrow> str \<Rightarrow> int \<Rightarrow> bool" where
  "remembered models now_s memory sg dev t \<longleftrightarrow> last_seen memory sg dev = Some t \<and>
     dict_get models dev \<notin> {None, Some []} \<and> now_s - t \<le> max_memory_age"

text \<open>
  The times at which a model is known to have been heard of: a sighting of one of its devices that is not too
  old, or a report in the store with its name and a time stamp, which counts as now when it is ahead of the clock.
\<close>

definition heard :: "(str \<Rightarrow> int option) \<Rightarrow> (str, str) dict \<Rightarrow> int \<Rightarrow> sightings \<Rightarrow> sightings \<Rightarrow> jdict list \<Rightarrow> str \<Rightarrow> int set" where
  "heard iso_epoch models now_s memory sg views m =
     {t. \<exists>dev. dict_get models dev = Some m \<and> remembered models now_s memory sg dev t} \<union>
     {min now_s t | t. \<exists>view \<in> set views. truthy (get_or view ''modelName'' JNull) \<and> truthy (get_or view ''ts'' JNull) \<and>
        py_str (get_or view ''modelName'' JNull) = m \<and> iso_epoch (py_str (get_or view ''ts'' JNull)) = Some t}"

lemma dict_ok_see [simp]: "dict_ok d \<Longrightarrow> dict_ok (see t k d)"
  by (simp add: see_def)

lemma dict_ok_see_fold [simp]: "dict_ok d \<Longrightarrow> dict_ok (fold (\<lambda>x. see (T x) (K x)) xs d)"
  by (induction xs arbitrary: d) simp_all

lemma merge_memory_mem:
  assumes "dict_ok memory"
  shows "(dev, t) \<in> set (merge_memory models now_s sg memory) \<longleftrightarrow> remembered models now_s memory sg dev t"
    and "dict_ok (merge_memory models now_s sg memory)"
proof -
  let ?d = "fold (\<lambda>x. see (snd x) (fst x)) sg memory"
  have ok: "dict_ok ?d" using assms by simp
  then have "(dev, t) \<in> set ?d \<longleftrightarrow> dict_get ?d dev = Some t" by simp
  also have "dict_get ?d dev = last_seen memory sg dev"
    unfolding see_fold last_seen_def by (rule arg_cong [where f = "newest (dict_get memory dev)"]) (force simp: image_def)
  finally show "(dev, t) \<in> set (merge_memory models now_s sg memory) \<longleftrightarrow> remembered models now_s memory sg dev t"
    by (auto simp: merge_memory_def remembered_def case_prod_unfold split: option.splits)
  show "dict_ok (merge_memory models now_s sg memory)"
    using ok by (simp add: merge_memory_def case_prod_unfold distinct_map_filter)
qed

lemma seed_memory_ok: "seed_memory now_s fs memory = Inr m \<Longrightarrow> dict_ok memory \<Longrightarrow> dict_ok m"
  by (induction fs arbitrary: memory) (auto simp: rbind_Inr_iff case_prod_unfold)

text \<open>The age of a model in the store is the least of its reports.\<close>

definition least :: "int option \<Rightarrow> int set \<Rightarrow> int option" where
  "least known S = (if S = {} then known else Some (Min ((case known of None \<Rightarrow> {} | Some a \<Rightarrow> {a}) \<union> S)))"

lemma store_ages_get:
  "dict_get (store_model_ages iso_epoch now_s views out) m =
     least (dict_get out m) {a. \<exists>view \<in> set views. view_age iso_epoch now_s view = Some (m, a)}"
proof (induction views arbitrary: out)
  case (Cons v vs)
  let ?A = "{a. \<exists>view \<in> set vs. view_age iso_epoch now_s view = Some (m, a)}"
  have fin: "finite ?A"
  proof -
    have "?A \<subseteq> (\<lambda>v. snd (the (view_age iso_epoch now_s v))) ` set vs" by force
    then show ?thesis by (rule finite_subset) simp
  qed
  show ?case
  proof (cases "view_age iso_epoch now_s v")
    case None
    then show ?thesis using Cons by simp
  next
    case (Some ma)
    obtain m' a where ma: "ma = (m', a)" by fastforce
    let ?out = "case dict_get out m' of None \<Rightarrow> dict_set out m' a | Some b \<Rightarrow> if a < b then dict_set out m' a else out"
    have A: "{a. \<exists>view \<in> set (v # vs). view_age iso_epoch now_s view = Some (m, a)} = (if m' = m then {a} else {}) \<union> ?A"
      using Some ma by auto
    have "dict_get ?out m = least (dict_get out m) (if m' = m then {a} else {})"
      by (auto simp: least_def min_def split: option.splits)
    moreover have "least (least k B) ?A = least k (B \<union> ?A)" if "finite B" for k B
      using that fin by (auto simp: least_def Un_assoc insert_commute Min_Un split: option.splits) 
    ultimately have "dict_get (store_model_ages iso_epoch now_s vs ?out) m = least (dict_get out m) ((if m' = m then {a} else {}) \<union> ?A)"
      using Cons.IH [of ?out] by simp
    then show ?thesis unfolding A using Some ma by simp
  qed
qed (simp add: least_def)

lemma dict_ok_store_ages [simp]: "dict_ok out \<Longrightarrow> dict_ok (store_model_ages iso_epoch now_s views out)"
  by (induction views arbitrary: out) (auto split: option.splits prod.splits)

lemma Max_image_minus: "finite A \<Longrightarrow> A \<noteq> {} \<Longrightarrow> Max ((\<lambda>a. n - a) ` A) = n - Min (A :: int set)"
  by (rule Max_eqI) (auto intro: Min_in)

lemma view_age_Some:
  "view_age iso_epoch now_s view = Some (m, a) \<longleftrightarrow> truthy (get_or view ''modelName'' JNull) \<and> truthy (get_or view ''ts'' JNull) \<and>
     py_str (get_or view ''modelName'' JNull) = m \<and> (\<exists>t. iso_epoch (py_str (get_or view ''ts'' JNull)) = Some t \<and> a = max 0 (now_s - t))"
  by (auto simp: view_age_def Let_def)

definition report_ages :: "(str \<Rightarrow> int option) \<Rightarrow> int \<Rightarrow> jdict list \<Rightarrow> str \<Rightarrow> int set" where
  "report_ages iso_epoch now_s views m = {a. \<exists>view \<in> set views. view_age iso_epoch now_s view = Some (m, a)}"

definition sighted :: "(str, str) dict \<Rightarrow> int \<Rightarrow> sightings \<Rightarrow> sightings \<Rightarrow> str \<Rightarrow> int set" where
  "sighted models now_s memory sg m = {t. \<exists>dev. dict_get models dev = Some m \<and> remembered models now_s memory sg dev t}"

lemma heard_split:
  "heard iso_epoch models now_s memory sg views m = sighted models now_s memory sg m \<union> (\<lambda>a. now_s - a) ` report_ages iso_epoch now_s views m"
proof -
  have eq: "min now_s t = now_s - max 0 (now_s - t)" for t by simp
  have "{min now_s t | t. \<exists>view \<in> set views. truthy (get_or view ''modelName'' JNull) \<and> truthy (get_or view ''ts'' JNull) \<and>
        py_str (get_or view ''modelName'' JNull) = m \<and> iso_epoch (py_str (get_or view ''ts'' JNull)) = Some t} =
      (\<lambda>a. now_s - a) ` report_ages iso_epoch now_s views m"
    unfolding report_ages_def view_age_Some image_def eq by blast
  then show ?thesis unfolding heard_def sighted_def by blast
qed

lemma finite_report_ages: "finite (report_ages iso_epoch now_s views m)"
proof -
  have "report_ages iso_epoch now_s views m \<subseteq> (\<lambda>v. snd (the (view_age iso_epoch now_s v))) ` set views"
    unfolding report_ages_def by force
  then show ?thesis by (rule finite_subset) simp
qed

lemma store_ages_mem:
  "(m, a) \<in> set (store_model_ages iso_epoch now_s views []) \<longleftrightarrow>
     report_ages iso_epoch now_s views m \<noteq> {} \<and> a = Min (report_ages iso_epoch now_s views m)"
proof -
  have "(m, a) \<in> set (store_model_ages iso_epoch now_s views []) \<longleftrightarrow> dict_get (store_model_ages iso_epoch now_s views []) m = Some a"
    by simp
  then show ?thesis unfolding store_ages_get report_ages_def [symmetric] by (auto simp: least_def)
qed

lemma evidence_split:
  assumes "dict_ok memory"
  shows "evidence models now_s (merge_memory models now_s sg memory) (store_model_ages iso_epoch now_s views []) m =
      sighted models now_s memory sg m \<union>
      (if report_ages iso_epoch now_s views m = {} then {} else {now_s - Min (report_ages iso_epoch now_s views m)})"
  unfolding evidence_def sighted_def merge_memory_mem [OF assms] store_ages_mem by (auto simp: remembered_def)

lemma newest_report:
  assumes "finite M" "finite A" "A \<noteq> {}"
  shows "newest None (M \<union> {n - Min A}) = newest None (M \<union> (\<lambda>a. n - a) ` A)"
proof -
  have "newest (newest None M) {n - Min A} = newest (newest None M) ((\<lambda>a. n - a) ` A)"
    using assms(2,3) by (simp add: newest_def Max_insert Max_image_minus)
  then show ?thesis using assms newest_newest [of M "{n - Min A}" None] newest_newest [of M "(\<lambda>a. n - a) ` A" None] by simp
qed

lemma finite_sighted:
  assumes "dict_ok memory"
  shows "finite (sighted models now_s memory sg m)"
proof -
  have "finite (evidence models now_s (merge_memory models now_s sg memory) (store_model_ages (\<lambda>s. None) now_s [] []) m)"
    by (rule finite_evidence)
  then show ?thesis unfolding evidence_split [OF assms] by simp
qed

lemma newest_heard:
  assumes "dict_ok memory"
  shows "newest None (evidence models now_s (merge_memory models now_s sg memory) (store_model_ages iso_epoch now_s views []) m) =
    newest None (heard iso_epoch models now_s memory sg views m)"
proof (cases "report_ages iso_epoch now_s views m = {}")
  case True
  then show ?thesis by (simp add: evidence_split [OF assms] heard_split)
next
  case False
  then show ?thesis
    using newest_report [OF finite_sighted [OF assms] finite_report_ages False] by (simp add: evidence_split [OF assms] heard_split)
qed

text \<open>
  C32. The age published for a model is exactly that of the newest thing known of it: the newest sighting in
  the logs of a device of that model, remembered or of this pass, that is not too old, or the newest
  report of it in the store, whichever is later; a model nothing is known of has none. And what is
  remembered for the next pass is when each known device was last seen, if that is not too old.
\<close>
theorem ages_follow_evidence:
  assumes "publish_ages env iso_epoch now_s sg evs memory st = (ages, memory', st')"
    and "models = dev_models (model_by_devid st)" "dict_ok memory"
  shows "(\<forall>m. dict_get ages m =
      (let H = heard iso_epoch models now_s memory sg (map snd (latest st)) m in
       if H = {} then None else Some (max 0 (now_s - Max (insert 0 H))))) \<and>
    (\<forall>dev t. dict_get memory' dev = Some t \<longleftrightarrow> remembered models now_s memory sg dev t)"
proof -
  have mem: "memory' = merge_memory models now_s sg memory"
    and get: "dict_get ages m = map_option (\<lambda>t. max 0 (now_s - t))
      (newest None (evidence models now_s memory' (store_model_ages iso_epoch now_s (map snd (latest st)) []) m))" for m
    using assms(1,2) by (auto simp: publish_ages_def Let_def model_ages_get model_seen_get)
  have "dict_get memory' dev = Some t \<longleftrightarrow> remembered models now_s memory sg dev t" for dev t
    using merge_memory_mem [OF assms(3)] unfolding mem by simp
  moreover have "dict_get ages m = map_option (\<lambda>t. max 0 (now_s - t))
      (newest None (heard iso_epoch models now_s memory sg (map snd (latest st)) m))" for m
    unfolding get mem newest_heard [OF assms(3)] ..
  ultimately show ?thesis by (simp add: newest_def Let_def)
qed

text \<open>The washer was seen in its log a minute ago; its report in the store is ten seconds old.\<close>

theorem ages_follow_evidence_witness:
  "\<exists>ages memory' st'. publish_ages (sample_state_env None) (\<lambda>s. Some 990) 1000 [(''82c2ebc0-0e9f-11f5-82b4-0051eda91d3d'', 940)] [] []
     ((initial_store 0)\<lparr>latest := [(''d'', [(''modelName'', JStr ''WTWN3''), (''ts'', JStr ''then'')])]\<rparr>) = (ages, memory', st') \<and>
   dict_get ages ''WTWN3'' = Some 10 \<and> dict_get ages ''RC90U2_WW'' = None \<and>
   dict_get memory' ''82c2ebc0-0e9f-11f5-82b4-0051eda91d3d'' = Some 940"
proof -
  let ?dev = "''82c2ebc0-0e9f-11f5-82b4-0051eda91d3d''"
  let ?st = "(initial_store (0 :: nat))\<lparr>latest := [(''d'', [(''modelName'', JStr ''WTWN3''), (''ts'', JStr ''then'')])]\<rparr>"
  let ?views = "map snd (latest ?st)" and ?sg = "[(?dev, 940 :: int)]" and ?models = "dev_models (model_by_devid ?st)"
  obtain ages memory' st' where p: "publish_ages (sample_state_env None) (\<lambda>s. Some 990) 1000 ?sg [] [] ?st = (ages, memory', st')"
    by (metis prod_cases3)
  have models: "?models = known_devices" by (simp add: dev_models_def initial_store_def)
  have seen: "last_seen [] ?sg d = (if d = ?dev then Some 940 else None)" for d
  proof -
    have "{t. (d, t) \<in> set ?sg} = (if d = ?dev then {940} else {})" by auto
    then show ?thesis by (simp only: last_seen_def newest_def) simp
  qed
  have rem: "remembered ?models 1000 [] ?sg d t \<longleftrightarrow> d = ?dev \<and> t = 940" for d t
    unfolding remembered_def seen models by (auto simp: known_devices_def max_memory_age_def)
  let ?view = "[(''modelName'', JStr ''WTWN3''), (''ts'', JStr ''then'')] :: jdict"
  have view: "get_or ?view ''modelName'' JNull = JStr ''WTWN3''" "get_or ?view ''ts'' JNull = JStr ''then''" "set ?views = {?view}"
    by (simp_all add: get_or_def)
  have dev: "dict_get ?models ?dev = Some ''WTWN3''" unfolding models by (simp add: known_devices_def)
  have H: "heard (\<lambda>s. Some 990) ?models 1000 [] ?sg ?views m = (if m = ''WTWN3'' then {940, 990} else {})" for m
    unfolding heard_def rem view(3) using dev view(1,2) by (cases "m = ''WTWN3''") (simp_all del: map_of.simps, blast)
  have all: "\<forall>m. dict_get ages m = (let H = heard (\<lambda>s. Some 990) ?models 1000 [] ?sg ?views m in
       if H = {} then None else Some (max 0 (1000 - Max (insert 0 H))))"
     "\<forall>dev t. dict_get memory' dev = Some t \<longleftrightarrow> remembered ?models 1000 [] ?sg dev t"
    using ages_follow_evidence [OF p refl] by simp_all
  have "dict_get ages ''WTWN3'' = Some 10" "dict_get ages ''RC90U2_WW'' = None" using all(1) unfolding H by simp_all
  moreover have "dict_get memory' ?dev = Some 940" using all(2) rem by blast
  ultimately show ?thesis using p by blast
qed

text \<open>A stamp that is no time of day ends the poll: what the same poll had seen is lost.\<close>

lemma bad_stamp_loses_poll:
  assumes "line_text raw = Some (hms, txt)" "sighting_epoch hms now_s = Inl e"
  shows "process_lines env models now_s (raws @ raw # raws') acc \<noteq> Inr acc'"
  using assms
proof (induction raws arbitrary: acc)
  case (Cons r raws)
  then show ?case by (cases acc; cases "line_text r") (auto simp: rbind_Inr_iff)
qed (cases acc; auto)

text \<open>The same line in a log at the start ends the thread before its first pass: no age is ever published.\<close>

lemma bad_stamp_fails_scan:
  assumes "line_text raw = Some (hms, txt)" "sighting_epoch hms now_s = Inl e"
  shows "\<exists>e'. scan_lines now_s (raws @ raw # raws') sg = Inl e'"
  using assms
proof (induction raws arbitrary: sg)
  case (Cons r raws)
  then show ?case
    by (cases "line_text r") (auto simp: rbind_def split: sum.splits prod.splits)
qed (auto simp: rbind_def)

lemma bad_stamp_ends_thread:
  assumes "lf_data f = Some d" "split_on (CHR 10) d = raws @ raw # raws'"
    and "line_text raw = Some (hms, txt)" "sighting_epoch hms boot_s = Inl e"
  shows "\<exists>e'. observability_thread env iso_epoch boot_s (fs @ f # fs') passes st = (Inl e', st)"
proof -
  have "\<exists>e'. scan_whole_file boot_s (lf_data f) = Inl e'"
    using bad_stamp_fails_scan [OF assms(3,4)] assms(1,2) by (simp add: scan_whole_file_def)
  then have "\<exists>e'. seed_memory boot_s (fs @ f # fs') memory = Inl e'" for memory
    by (induction fs arbitrary: memory) (auto simp: rbind_def split: sum.splits)
  then show ?thesis by (metis observability_thread_def sum.simps(5))
qed

end
