(* ===== verification/Passthrough.thy ===== *)
theory Passthrough
  imports ControlChannel RelayEngine
begin

text \<open>
  Passthrough mode as a whole: the control channel's handler runs the relay engine
  (\<open>server/wm_bridge.py\<close>) with the observer of \<open>server/control_channel.py\<close> on what the appliance sends,
  and none on what the cloud sends.
\<close>

section \<open>The engine with the observer\<close>

definition passthrough_observer :: "'s chan_env \<Rightarrow> (observer \<times> 's world) chunk_observer" where
  "passthrough_observer env s chunk st = (case s of Client \<Rightarrow> observe env chunk st | Upstream \<Rightarrow> st)"

definition fresh_observer :: observer where
  "fresh_observer = \<lparr>seen_dev = JNull, seen_buf = []\<rparr>"

definition passthrough_run ::
  "'t tls_lib \<Rightarrow> 's chan_env \<Rightarrow> nat \<Rightarrow> turn list \<Rightarrow> 't \<Rightarrow> 't \<Rightarrow> 's world \<Rightarrow> ('t, observer \<times> 's world) relay option" where
  "passthrough_run lib env fuel tns tc tu w =
     relay_run lib (passthrough_observer env) fuel tns (new_end tc, new_end tu, (fresh_observer, w))"

lemma fold_observer:
  "fold (\<lambda>(s, b). passthrough_observer env s b) shown st = fold (observe env) (chunks_of Client shown) st"
  by (induction shown arbitrary: st) (auto simp: passthrough_observer_def chunks_of_def split: side.splits)

lemma observe_stream_fold: "[] \<notin> set cs \<Longrightarrow> observe_stream env (map Data cs) st = fold (observe env) cs st"
  by (induction cs arbitrary: st) auto


lemma passthrough_observes:
  assumes "passthrough_run lib env fuel tns tc tu w = Some (c, u, ob, w')"
  shows "(ob, w') = observe_stream env (map Data (got c)) (fresh_observer, w) \<and>
    (got c = put u \<or> dead u \<and> (\<exists>b. got c = put u @ [b])) \<and> [] \<notin> set (got c)"
proof -
  obtain shown where ok: "relay_ok (passthrough_observer env) (fresh_observer, w) shown (c, u, (ob, w'))"
    using relay_run_transparent [OF assms [unfolded passthrough_run_def]] by blast
  then have "[] \<notin> snd ` set shown" by (simp add: relay_ok_def)
  moreover have "set (chunks_of Client shown) \<subseteq> snd ` set shown" by (auto simp: chunks_of_def)
  ultimately have "[] \<notin> set (chunks_of Client shown)" by blast
  with ok show ?thesis
    using observe_stream_fold [of "got c" env "(fresh_observer, w)"] by (auto simp: relay_ok_def faithful_def fold_observer)
qed

text \<open>So the handler's branch for passthrough, which takes the chunks as given, is this run.\<close>

lemma handle_is_passthrough:
  assumes "passthrough_run lib env fuel tns tc tu w = Some (c, u, ob, w')"
    and "passthrough ce" "upstream_ok ce" "code b = (22::nat)"
  shows "handle env ce sock (b # bs) (map Data (got c)) w = (Inr (), w')"
  using passthrough_observes [OF assms(1)] assms(2-4)
  by (simp add: handle_def fresh_observer_def) (metis snd_conv)


section \<open>A pump message through the engine\<close>



lemma sample_served:
  "list_all len4_message_ok [sample_devinfo, sample_pump]" "list_all (\<lambda>m. is_pump m \<or> snapshotless m) [sample_devinfo, sample_pump]"
  "fst (snd (handle_messages sample_chan_env 7 Len4 (JStr ''unknown'') [sample_devinfo, sample_pump] sample_world)) = Inr ()"
proof -
  have "length (dumps_compact (JObj sample_devinfo)) < 200" "length (dumps_compact (JObj sample_pump)) < 200" by code_simp+
  then show "list_all len4_message_ok [sample_devinfo, sample_pump]"
    by (simp add: len4_message_ok_def sample_devinfo_def sample_pump_def make_message_def const_defs)
  show "list_all (\<lambda>m. is_pump m \<or> snapshotless m) [sample_devinfo, sample_pump]"
    by (simp add: sample_pump_def is_pump_def is_pump_body_def device_of_def get_or_def snapshotless_def sample_devinfo_def make_message_def
        is_acked_def)
  have "list_all is_pump [sample_pump]" by (simp add: sample_pump_def is_pump_def is_pump_body_def device_of_def get_or_def)
  moreover have "fst (snd (handle_messages sample_chan_env 7 Len4 (JStr ''unknown'') [sample_pump] sample_world)) = Inr ()" by code_simp
  ultimately have pump: "list_all is_pump [sample_pump]"
    "fst (snd (handle_messages sample_chan_env 7 Len4 (JStr ''unknown'') [sample_pump] sample_world)) = Inr ()" by simp_all
  have enc: "\<exists>b. encode_by Len4 m = Inr b \<and> b \<noteq> []" if "length (dumps_compact (JObj m)) < 200" for m
    using that by (auto simp: encode_message_len4_def Let_def be32_def)
  have "\<exists>a. encode_by Len4 (ack_message (JStr ''d2'') (JStr ''w-1'')) = Inr a \<and> a \<noteq> []" by (rule enc) code_simp
  moreover have "\<exists>b. encode_by Len4 (mon_start_message (JStr ''d2'') (JStr ''n-d2-mon'')) = Inr b \<and> b \<noteq> []" by (rule enc) code_simp
  ultimately obtain a b where ab: "encode_by Len4 (ack_message (JStr ''d2'') (JStr ''w-1'')) = Inr a" "a \<noteq> []"
      "encode_by Len4 (mon_start_message (JStr ''d2'') (JStr ''n-d2-mon'')) = Inr b" by blast
  have c: "''n-'' @ cp_take 8 ''d2'' @ ''-mon'' = ''n-d2-mon''" by code_simp
  have s: "send_ok sample_chan_env 7 x" for x by (simp add: sample_chan_env_def state_env.defs)
  have first: "\<exists>w. handle_message sample_chan_env 7 Len4 (JStr ''unknown'') sample_devinfo sample_world = (JStr ''d2'', Inr (), w) \<and>
      device_store w = device_store sample_world"
    by (intro exI conjI, rule devinfo_answer [of _ _ "[(''CmdWId'', JStr ''w-1''), (''Cmd'', JStr ''DevInfo'')]" _ a b])
      (use ab s in \<open>simp_all add: sample_devinfo_def make_message_def device_of_def get_or_def c [simplified]\<close>)
  then obtain w where w: "handle_message sample_chan_env 7 Len4 (JStr ''unknown'') sample_devinfo sample_world = (JStr ''d2'', Inr (), w)"
      "device_store w = device_store sample_world" by blast
  have "fst (snd (handle_messages sample_chan_env 7 Len4 (JStr ''d2'') [sample_pump] w)) = Inr ()"
    using modes_ingest_alike [of "[sample_pump]" w sample_world sample_chan_env 7 Len4 "JStr ''d2''" JNull]
      modes_ingest_alike [of "[sample_pump]" sample_world sample_world sample_chan_env 7 Len4 "JStr ''unknown''" JNull] w(2) pump by simp
  then show "fst (snd (handle_messages sample_chan_env 7 Len4 (JStr ''unknown'') [sample_devinfo, sample_pump] sample_world)) = Inr ()"
    unfolding handle_messages.simps(2) [of _ _ _ _ sample_devinfo] by (simp add: w(1) del: handle_messages.simps)
qed

lemma sample_bytes:
  obtains a b x y ys where "encode_message_len4 sample_devinfo = Inr a" "encode_message_len4 sample_pump = Inr b" "a @ b = x # y # ys"
proof -
  obtain a b where ab: "encode_message_len4 sample_devinfo = Inr a" "encode_message_len4 sample_pump = Inr b"
    using washer_wire.enc_ok sample_served(1) by auto metis
  then obtain x y ys where "a = x # y # ys" by (auto simp: encode_message_len4_def be32_def Let_def split: if_splits)
  with ab that show ?thesis by auto
qed

lemma sample_pump_bytes: obtains x y ys where "encode_message_len4 sample_pump = Inr (x # y # ys)"
proof -
  obtain b where b: "encode_message_len4 sample_pump = Inr b" using sample_bytes by blast
  then obtain x y ys where "b = x # y # ys" by (auto simp: encode_message_len4_def be32_def Let_def split: if_splits)
  with b that show ?thesis by blast
qed


end
