(* ===== verification/System.thy ===== *)
theory System
  imports App Observability Passthrough
begin

text \<open>
  The running server as one state machine: the connections the control channel terminates, those it relays
  to LG (passthrough) with the engine of \<open>server/wm_bridge.py\<close> and its observer, the polling thread, the HTTP handlers, Home Assistant's commands, the cloud
  events and the observability thread, all on the one table of connections and the one store that
  \<open>main\<close> of \<open>server/app.py\<close> wires together. A step is what one thread does without another getting in
  between, taken as one message of a connection, one chunk, one turn of a relay, one device of a polling round, one HTTP
  request, one command, one event or one pass; the steps come in any order. What the environment
  answers (clock, log file, sockets, broker, LG) is chosen anew for every step; the options, the
  parser and the model files on disk stay what they are while the server runs.
\<close>

section \<open>State\<close>

text \<open>The options, and what stays fixed.\<close>

record 't deployment =
  su_base :: "lazy_sink state_env"
  su_control :: bool
  su_mqtt :: bool
  su_bridge :: bool
  su_passthrough :: bool
  su_tls :: "'t tls_lib"
  su_watched :: "(str, str) dict"

text \<open>What the environment answers during a step.\<close>

record moment =
  mo_clock :: str
  mo_log_ok :: "str \<Rightarrow> bool"
  mo_broker :: broker
  mo_send_ok :: "nat \<Rightarrow> bytes \<Rightarrow> bool"
  mo_lg :: "nat \<Rightarrow> upstream"
  mo_replay :: replay_env
  mo_snapshots :: "nat \<Rightarrow> (str, jdict) dict"

text \<open>
  The locals of a connection's handler: its framing, \<open>dev_id\<close>, \<open>buf\<close> and the messages of the last
  chunk it has not come to yet.
\<close>

record open_conn =
  oc_family :: family
  oc_dev :: json
  oc_buf :: bytes
  oc_todo :: "message list"

text \<open>
  Of a relayed connection: its two ends and what its observer knows. Those that have ended stay on
  record in \<open>sy_passed\<close>.
\<close>

record 't system =
  sy_net :: "lazy_sink world"
  sy_conns :: "(nat, open_conn) dict"
  sy_taps :: "(nat, ('t, observer) relay) dict"
  sy_passed :: "(nat \<times> ('t, observer) relay) list"
  sy_round :: "json list"
  sy_replayed :: replay_state
  sy_slept :: "nat list"
  sy_offsets :: "(str, nat) dict"
  sy_memory :: sightings

abbreviation sy_store :: "'t system \<Rightarrow> lazy_sink store" where
  "sy_store s \<equiv> device_store (sy_net s)"

definition with_store :: "lazy_sink store \<Rightarrow> 't system \<Rightarrow> 't system" where
  "with_store st s = s\<lparr>sy_net := (sy_net s)\<lparr>device_store := st\<rparr>\<rparr>"

text \<open>What \<open>main\<close> starts with; \<open>captured\<close> is the state of the replay store, \<open>seeds\<close> what the boot scan of the logs found.\<close>

definition booted :: "replay_state \<Rightarrow> sightings \<Rightarrow> 't system" where
  "booted captured seeds = \<lparr>
     sy_net = \<lparr>connections = [], cmd_counter = 0, sent = [],
       device_store = initial_store \<lparr>the_sink = None, logged_down = False\<rparr>\<rparr>,
     sy_conns = [], sy_taps = [], sy_passed = [], sy_round = [], sy_replayed = captured, sy_slept = [], sy_offsets = [], sy_memory = seeds\<rparr>"

section \<open>How main wires the parts\<close>

definition live_env :: "'t deployment \<Rightarrow> moment \<Rightarrow> lazy_sink state_env" where
  "live_env su mo = (su_base su)\<lparr>now := mo_clock mo, append_ok := mo_log_ok mo,
     on_state := if su_mqtt su then Some (lazy_call (bridge_of (su_base su) (su_control su)) (mo_broker mo)) else None\<rparr>"

definition live_chan :: "'t deployment \<Rightarrow> moment \<Rightarrow> lazy_sink chan_env" where
  "live_chan su mo = state_env.extend (live_env su mo)
     \<lparr>allow_control = su_control su, store_wired = True, send_ok = mo_send_ok mo\<rparr>"

definition live_app :: "'t deployment \<Rightarrow> moment \<Rightarrow> lazy_sink world \<Rightarrow> lazy_sink app_env" where
  "live_app su mo w = \<lparr>core = live_env su mo, replaying = mo_replay mo, bridge_mode = su_bridge su,
     forwarder = if su_bridge su then Some (mo_lg mo) else None,
     query_fn = Some (\<lambda>dev. rbind (fst (query_state (live_chan su mo) (JStr dev) w)) (\<lambda>b. Inr (JBool b))),
     snapshots = mo_snapshots mo\<rparr>"

definition app_part :: "'t system \<Rightarrow> lazy_sink app" where
  "app_part s = \<lparr>dev_store = sy_store s, replayed = sy_replayed s, slept = sy_slept s\<rparr>"

definition with_app :: "lazy_sink app \<Rightarrow> 't system \<Rightarrow> 't system" where
  "with_app a s = (with_store (dev_store a) s)\<lparr>sy_replayed := replayed a, sy_slept := slept a\<rparr>"

section \<open>Steps\<close>

datatype 't happening =
    ConnOpened nat bytes "('t \<times> 't) option" bool
  | ConnRead nat recv
  | ConnNext nat
  | TapTurn nat nat turn
  | PollStart
  | PollNext
  | Posted str "(str, str) dict" "str option" bytes
  | Got str "(str, str) dict"
  | HaMessage str bytes
  | CloudPush str str str json
  | AgePass int "str \<Rightarrow> int option" "log_file list"

text \<open>
  A connection comes in, on a socket no other connection has; its handler decides by the first byte, the
  options, and whether LG could be reached (then \<open>lg\<close> has the fresh TLS connections of the two ends) or
  else the handshake was completed.
\<close>

definition opened :: "'t deployment \<Rightarrow> nat \<Rightarrow> bytes \<Rightarrow> ('t \<times> 't) option \<Rightarrow> bool \<Rightarrow> 't system \<Rightarrow> 't system" where
  "opened su sock first lg shaken s = (
     let terminated = (\<lambda>fam. s\<lparr>sy_conns := dict_set (sy_conns s) sock
           \<lparr>oc_family = fam, oc_dev = JStr ''unknown'', oc_buf = [], oc_todo = []\<rparr>\<rparr>) in
     if dict_get (sy_conns s) sock \<noteq> None \<or> dict_get (sy_taps s) sock \<noteq> None then s
     else case first of
       [] \<Rightarrow> s
     | b # _ \<Rightarrow>
         if code b = (22::nat) then
           if su_passthrough su \<and> lg \<noteq> None
           then s\<lparr>sy_taps := dict_set (sy_taps s) sock (new_end (fst (the lg)), new_end (snd (the lg)), fresh_observer)\<rparr>
           else if shaken then terminated Len4 else s
         else terminated Msgpack)"

text \<open>The handler ends, with what it raised or returned.\<close>

definition hang_up :: "nat \<Rightarrow> json \<times> unit res \<times> lazy_sink world \<Rightarrow> 't system \<Rightarrow> 't system" where
  "hang_up sock r s = s\<lparr>sy_net := snd (close_connection sock r), sy_conns := dict_pop (sy_conns s) sock\<rparr>"

text \<open>It reads when it is through with the messages of the chunk before, at most 4096 bytes.\<close>

definition recv_fits :: "recv \<Rightarrow> bool" where
  "recv_fits r \<longleftrightarrow> (case r of Data d \<Rightarrow> length d \<le> 4096 | RecvError \<Rightarrow> True)"

definition conn_read :: "nat \<Rightarrow> recv \<Rightarrow> 't system \<Rightarrow> 't system" where
  "conn_read sock r s = (case dict_get (sy_conns s) sock of
      None \<Rightarrow> s
    | Some c \<Rightarrow>
        if oc_todo c \<noteq> [] \<or> \<not> recv_fits r then s
        else (case r of
            RecvError \<Rightarrow> hang_up sock (oc_dev c, Inl OSError, sy_net s) s
          | Data d \<Rightarrow>
              if d = [] then hang_up sock (oc_dev c, Inr (), sy_net s) s
              else (case decode_by (oc_family c) (oc_buf c @ d) of
                  (msgs, rest) \<Rightarrow> s\<lparr>sy_conns := dict_set (sy_conns s) sock (c\<lparr>oc_buf := rest, oc_todo := msgs\<rparr>)\<rparr>)))"

definition conn_next :: "lazy_sink chan_env \<Rightarrow> nat \<Rightarrow> 't system \<Rightarrow> 't system" where
  "conn_next env sock s = (case dict_get (sy_conns s) sock of
      None \<Rightarrow> s
    | Some c \<Rightarrow>
        (case oc_todo c of
           [] \<Rightarrow> s
         | m # ms \<Rightarrow>
             (case handle_message env sock (oc_family c) (oc_dev c) m (sy_net s) of
                (dev, Inl e, w) \<Rightarrow> hang_up sock (dev, Inl e, w) s
              | (dev, Inr _, w) \<Rightarrow>
                  s\<lparr>sy_net := w, sy_conns := dict_set (sy_conns s) sock (c\<lparr>oc_dev := dev, oc_todo := ms\<rparr>)\<rparr>)))"

text \<open>
  One turn of the relay: what it reads from the appliance it shows the observer and writes to LG, and
  what it reads from LG it writes to the appliance. A turn the fuel does not suffice for is no step
  (\<open>relay_turn_returns\<close>: there is always enough).
\<close>

definition tap_turn :: "'t deployment \<Rightarrow> lazy_sink chan_env \<Rightarrow> nat \<Rightarrow> nat \<Rightarrow> turn \<Rightarrow> 't system \<Rightarrow> 't system" where
  "tap_turn su env sock fuel tn s = (case dict_get (sy_taps s) sock of
      None \<Rightarrow> s
    | Some (c, u, ob) \<Rightarrow>
        (case relay_turn (su_tls su) (passthrough_observer env) fuel tn (c, u, (ob, sy_net s)) of
           None \<Rightarrow> s
         | Some ((c', u', (ob', w)), go) \<Rightarrow>
             if go then s\<lparr>sy_net := w, sy_taps := dict_set (sy_taps s) sock (c', u', ob')\<rparr>
             else s\<lparr>sy_net := w, sy_taps := dict_pop (sy_taps s) sock, sy_passed := sy_passed s @ [(sock, (c', u', ob'))]\<rparr>))"

text \<open>A polling round asks the devices that are connected when it starts; an exception ends it.\<close>

definition poll_start :: "'t system \<Rightarrow> 't system" where
  "poll_start s = (if sy_round s = [] then s\<lparr>sy_round := devices (sy_net s)\<rparr> else s)"

definition poll_next :: "lazy_sink chan_env \<Rightarrow> 't system \<Rightarrow> 't system" where
  "poll_next env s = (case sy_round s of
      [] \<Rightarrow> s
    | dev # ds \<Rightarrow>
        (case query_state env dev (sy_net s) of
           (Inl e, w) \<Rightarrow> s\<lparr>sy_net := w, sy_round := []\<rparr>
         | (Inr _, w) \<Rightarrow> s\<lparr>sy_net := w, sy_round := ds\<rparr>))"

text \<open>The device a request to \<open>/debug/query\<close> asks about, if it gets as far as asking.\<close>

definition asked_device :: "str \<Rightarrow> str option" where
  "asked_device path =
     (if endswith (url_path path) ''/debug/state'' \<or> \<not> endswith (url_path path) ''/debug/query'' then None
      else case map_of (query_pairs (url_query path)) ''dev'' of
          None \<Rightarrow> None
        | Some dev \<Rightarrow> if dev = [] then None else Some dev)"

definition after_query :: "lazy_sink chan_env \<Rightarrow> str \<Rightarrow> lazy_sink world \<Rightarrow> lazy_sink world" where
  "after_query env path w = (case asked_device path of
      None \<Rightarrow> w | Some dev \<Rightarrow> snd (query_state env (JStr dev) w))"

definition posted ::
  "'t deployment \<Rightarrow> moment \<Rightarrow> str \<Rightarrow> (str, str) dict \<Rightarrow> str option \<Rightarrow> bytes \<Rightarrow> 't system \<Rightarrow> response res \<times> 't system" where
  "posted su mo path headers content_length sent_bytes s =
     (case do_post (live_app su mo (sy_net s)) path headers content_length sent_bytes (app_part s) of
        (r, a) \<Rightarrow>
          (case read_body content_length sent_bytes of
             Inl e \<Rightarrow> (r, s)
           | Inr _ \<Rightarrow> (r, with_app a (s\<lparr>sy_net := after_query (live_chan su mo) path (sy_net s)\<rparr>))))"

definition get_request :: "'t deployment \<Rightarrow> moment \<Rightarrow> str \<Rightarrow> (str, str) dict \<Rightarrow> 't system \<Rightarrow> response res \<times> 't system" where
  "get_request su mo path headers s =
     (case do_get (live_app su mo (sy_net s)) path headers (app_part s) of
        (r, a) \<Rightarrow> (r, with_app a (s\<lparr>sy_net := after_query (live_chan su mo) path (sy_net s)\<rparr>)))"

text \<open>A command reaches the sink only when there is one: its construction subscribes.\<close>

definition ha_message :: "lazy_sink chan_env \<Rightarrow> str \<Rightarrow> bytes \<Rightarrow> 't system \<Rightarrow> 't system" where
  "ha_message env topic payload s = (case the_sink (sink_state (sy_store s)) of
      None \<Rightarrow> s
    | Some k \<Rightarrow> s\<lparr>sy_net := ha_command env k topic payload (sy_net s)\<rparr>)"

definition age_pass :: "'t deployment \<Rightarrow> moment \<Rightarrow> int \<Rightarrow> (str \<Rightarrow> int option) \<Rightarrow> log_file list \<Rightarrow> 't system \<Rightarrow> 't system" where
  "age_pass su mo now_s iso_epoch logs s =
     (case observe_pass (live_env su mo) iso_epoch (su_watched su) now_s logs (sy_offsets s, sy_memory s, sy_store s) of
        (offs, memory, st) \<Rightarrow> (with_store st s)\<lparr>sy_offsets := offs, sy_memory := memory\<rparr>)"

fun sys_step :: "'t deployment \<Rightarrow> moment \<Rightarrow> 't happening \<Rightarrow> 't system \<Rightarrow> 't system" where
  "sys_step su mo (ConnOpened sock first lg shaken) s = opened su sock first lg shaken s"
| "sys_step su mo (ConnRead sock r) s = conn_read sock r s"
| "sys_step su mo (ConnNext sock) s = conn_next (live_chan su mo) sock s"
| "sys_step su mo (TapTurn sock fuel tn) s = tap_turn su (live_chan su mo) sock fuel tn s"
| "sys_step su mo PollStart s = poll_start s"
| "sys_step su mo PollNext s = poll_next (live_chan su mo) s"
| "sys_step su mo (Posted path headers cl bs) s = snd (posted su mo path headers cl bs s)"
| "sys_step su mo (Got path headers) s = snd (get_request su mo path headers s)"
| "sys_step su mo (HaMessage topic payload) s = ha_message (live_chan su mo) topic payload s"
| "sys_step su mo (CloudPush alias model dev payload) s =
     with_store (snd (on_cloud_event (live_env su mo) alias model dev payload (sy_store s))) s"
| "sys_step su mo (AgePass now_s iso_epoch logs) s = age_pass su mo now_s iso_epoch logs s"

inductive sys_reach :: "'t deployment \<Rightarrow> 't system \<Rightarrow> bool" for su where
  start: "sys_reach su (booted captured seeds)"
| step: "sys_reach su s \<Longrightarrow> sys_reach su (sys_step su mo h s)"

inductive_cases sys_reachE: "sys_reach su s"

section \<open>What keeps a store well formed and its sink in order\<close>

definition keeps :: "('s \<Rightarrow> bool) \<Rightarrow> 's store \<Rightarrow> bool" where
  "keeps K st \<longleftrightarrow> store_ok st \<and> K (sink_state st)"

text \<open>The sink promises to keep a property of its own state; then every operation on the store does.\<close>

locale sink_keeper =
  fixes env :: "'s state_env" and K :: "'s \<Rightarrow> bool"
  assumes notified: "K (sink_state st) \<Longrightarrow> K (sink_state (notify env d p st))"
begin

lemma commit_kept: "commit env d p st = (r, st') \<Longrightarrow> K (sink_state st) \<Longrightarrow> K (sink_state st')"
  by (auto simp: commit_def Let_def intro: notified split: if_splits)

lemma commit_all_kept: "commit_all env d ps st = (r, st') \<Longrightarrow> K (sink_state st) \<Longrightarrow> K (sink_state st')"
proof (induction ps arbitrary: st)
  case (Cons p ps)
  obtain x st1 where c: "commit env d p st = (x, st1)" by fastforce
  then show ?case using Cons commit_kept [OF c] by (cases "is_unknown p"; cases x) auto
qed simp

lemma report_kept: "ingest_report env r st = (res, st') \<Longrightarrow> keeps K st \<Longrightarrow> keeps K st'"
  by (auto simp: keeps_def store_ok_report)
    (auto simp: ingest_report_def Let_def split: sum.splits prod.splits elim!: commit_all_kept)

lemma mondata_kept: "ingest_mondata env d blob st = (res, st') \<Longrightarrow> keeps K st \<Longrightarrow> keeps K st'"
  by (auto simp: keeps_def store_ok_mondata)
    (auto simp: ingest_mondata_def Let_def split: json.splits sum.splits prod.splits if_splits elim!: commit_kept)

lemma notify_kept: "keeps K st \<Longrightarrow> keeps K (notify env d p st)"
  by (auto simp: keeps_def notified) (simp add: store_ok_def)

lemma cloud_kept:
  assumes "on_cloud_event env alias model dev payload st = (r, st')" "keeps K st"
  shows "keeps K st'"
proof (cases "cloud_view (now env) alias model dev payload")
  case (Inl e)
  with assms show ?thesis by (simp add: on_cloud_event_def)
next
  case (Inr view)
  then obtain key where st': "st' = notify env key (view @ [(''devId'', JStr key)])
      (st\<lparr>latest := dict_set (latest st) key (view @ [(''devId'', JStr key)])\<rparr>)"
    using assms(1) by (auto simp: on_cloud_event_def Let_def)
  have "payload_ok key (view @ [(''devId'', JStr key)])"
    using Inr by (elim cloud_view_shape) (auto simp: payload_ok_def is_unknown_def timer_view_def rbind_Inr_iff split: if_splits)
  then have "keeps K (st\<lparr>latest := dict_set (latest st) key (view @ [(''devId'', JStr key)])\<rparr>)"
    using assms(2) by (auto simp: keeps_def store_ok_def)
  then show ?thesis unfolding st' by (rule notify_kept)
qed

lemma ages_kept: "keeps K st \<Longrightarrow> keeps K (fold (\<lambda>(model, age) s. notify env (f model) (g model age) s) ages st)"
  by (induction ages arbitrary: st) (auto intro: notify_kept)

lemma pass_kept:
  assumes "observe_pass env iso_epoch models now_s fs (offs, memory, st) = (offs', memory', st')" "keeps K st"
  shows "keeps K st'"
  using assms ages_kept
  by (auto simp: observe_pass_def publish_ages_def Let_def split: prod.splits sum.splits)

lemma blob_kept:
  assumes "base_env cenv = env" "ingest_blob cenv dev blob w = (r, w')" "keeps K (device_store w)"
  shows "keeps K (device_store w')"
  using assms(2,3) mondata_kept
  by (auto simp: ingest_blob_def assms(1) split: if_splits sum.splits prod.splits)

lemma snapshot_kept:
  "base_env cenv = env \<Longrightarrow> ingest_snapshot cenv dev data w = (r, w') \<Longrightarrow> keeps K (device_store w) \<Longrightarrow> keeps K (device_store w')"
  by (auto simp: ingest_snapshot_def blob_kept split: option.splits)

lemma incoming_kept:
  "base_env cenv = env \<Longrightarrow> handle_incoming cenv dev m fam w = (r, w') \<Longrightarrow> keeps K (device_store w) \<Longrightarrow> keeps K (device_store w')"
  by (auto simp: handle_incoming_def handle_snapshot_def Let_def blob_kept
      split: json.splits if_splits option.splits prod.splits sum.splits)

lemma message_kept:
  assumes "base_env cenv = env" "handle_message cenv sock fam dev m w = (d, r, w')" "keeps K (device_store w)"
  shows "keeps K (device_store w')"
proof (cases "json_get (get_or m ''Header'' (JObj [])) ''x-lgedm-deviceId'' dev")
  case (Inl e)
  with assms show ?thesis by (auto simp: handle_message_def)
next
  case (Inr d1)
  obtain r1 w1 where 1: "register d1 sock fam w = (r1, w1)" by fastforce
  obtain r2 w2 where 2: "handle_incoming cenv d1 m fam w1 = (r2, w2)" by fastforce
  have "keeps K (device_store w1)" "keeps K (device_store w2)"
    using register_fields(3) [OF 1] incoming_kept [OF assms(1) 2] assms(3) by simp_all
  with Inr 1 2 assms(2) show ?thesis
    by (auto simp: handle_message_def split: sum.splits prod.splits dest!: respond_fields(2) announce_fields(2))
qed

lemma observed_kept:
  "base_env cenv = env \<Longrightarrow> observe_messages cenv dev ms w = (d, r, w') \<Longrightarrow> keeps K (device_store w) \<Longrightarrow> keeps K (device_store w')"
proof (induction ms arbitrary: dev w)
  case (Cons m ms)
  obtain d1 r1 w1 where 1: "observe_message cenv dev m w = (d1, r1, w1)" by (cases rule: prod_cases3)
  then have "keeps K (device_store w1)"
    using Cons.prems by (auto simp: observe_message_def Let_def split: sum.splits json.splits if_splits elim: snapshot_kept [rotated])
  with Cons 1 show ?case by (cases r1) auto
qed simp

lemma chunk_kept: "base_env cenv = env \<Longrightarrow> observe cenv d (ob, w) = (ob', w') \<Longrightarrow> keeps K (device_store w) \<Longrightarrow> keeps K (device_store w')"
  by (auto simp: observe_def Let_def split: prod.splits elim: observed_kept [rotated])

lemma dispatch_kept:
  assumes "core aenv = env" "keeps K (dev_store a)"
  shows "keeps K (dev_store (snd (dispatch aenv rq a)))"
  using assms(2) report_kept [OF prod.collapse [symmetric]]
  by (simp add: dispatch_store observe_report_def assms(1))

end

section \<open>The wiring\<close>

definition live_bridge :: "'t deployment \<Rightarrow> bridge_env" where
  "live_bridge su = bridge_of (su_base su) (su_control su)"

lemma live_bridge_control [simp]: "commands_on (live_bridge su) = su_control su"
  by (simp add: live_bridge_def bridge_of_def)

lemma live_chan_fields [simp]:
  "base_env (live_chan su mo) = live_env su mo" "allow_control (live_chan su mo) = su_control su"
  "store_wired (live_chan su mo)" "send_ok (live_chan su mo) = mo_send_ok mo"
  by (simp_all add: base_env_def live_chan_def state_env.defs)

lemma live_app_core [simp]: "core (live_app su mo w) = live_env su mo"
  by (simp add: live_app_def)

definition sink_in_order :: "'t deployment \<Rightarrow> lazy_sink \<Rightarrow> bool" where
  "sink_in_order su l \<longleftrightarrow> sink_ok (live_bridge su) (current_sink l)"

lemma lazy_call_in_order:
  assumes "sink_in_order su l"
  shows "sink_in_order su (snd (lazy_call (live_bridge su) b dev p l))"
proof -
  have "sink_ok (live_bridge su) (snd (sink_call (live_bridge su) dev p (current_sink l)))"
    using assms sink_ok_step [of "live_bridge su" "current_sink l" "(dev, p)"] by (simp add: sink_in_order_def)
  with assms lazy_call_cases [of "live_bridge su" b dev p l] show ?thesis
    by (auto simp: sink_in_order_def current_sink_def)
qed

interpretation live: sink_keeper "live_env su mo" "sink_in_order su" for su mo
  by unfold_locales
    (use lazy_call_in_order in \<open>auto simp: notify_def live_env_def live_bridge_def split: option.splits\<close>)

text \<open>The bridge looks models up in files that the clock and the log do not change.\<close>

lemma load_clock [simp]: "load_model_json (env\<lparr>now := t, append_ok := a\<rparr>) = load_model_json env"
  by (intro ext) (simp add: load_model_json_def load_fresh_def read_json_def cache_path_def
      cong: rbind_cong if_cong option.case_cong)

lemma registry_clock: "registry_models (env\<lparr>now := t, append_ok := a\<rparr>) = registry_models env"
  by (simp add: registry_models_def model_json_for_def fun_eq_iff)

lemma live_env_wired:
  assumes "su_mqtt su"
  shows "live_env su mo = wired ((su_base su)\<lparr>now := mo_clock mo, append_ok := mo_log_ok mo\<rparr>) (su_control su) (mo_broker mo)"
    "bridge_of ((su_base su)\<lparr>now := mo_clock mo, append_ok := mo_log_ok mo\<rparr>) (su_control su) = live_bridge su"
  using assms by (simp_all only: live_env_def wired_def live_bridge_def bridge_of_def registry_clock if_True)

section \<open>The invariant\<close>

text \<open>
  A buffer of the length-prefixed framing holds less than a maximal frame, one of the fridge's at most
  the sanity limit (and no message is left in it); a relay is in step, its observer's buffer bounded.
\<close>

definition conn_ok :: "open_conn \<Rightarrow> bool" where
  "conn_ok c \<longleftrightarrow> (case oc_family c of
      Len4 \<Rightarrow> length (oc_buf c) < 4 + len4_max_frame
    | Msgpack \<Rightarrow> mp_settled (oc_buf c) \<and> length (oc_buf c) \<le> msgbuf_sanity_limit)"

definition tap_ok :: "('t, observer) relay \<Rightarrow> bool" where
  "tap_ok r \<longleftrightarrow> linked r \<and> (case r of (c, u, ob) \<Rightarrow> length (seen_buf ob) < 4 + len4_max_frame)"

text \<open>A frame that carries one vetted command of a model.\<close>

definition set_frame :: "bridge_env \<Rightarrow> bytes \<Rightarrow> bool" where
  "set_frame env b \<longleftrightarrow> commands_on env \<and> (\<exists>ha e txt wire dev wid fam. entities_of env ha e \<and> to_wire e txt = Some wire \<and>
     w_opt wire = JStr ''Set'' \<and> length (w_value wire) = 1 \<and>
     encode_by fam (make_message dev (JStr wid) [(''Cmd'', w_cmd wire), (''CmdOpt'', JStr ''Set''),
       (''Value'', JObj (map (\<lambda>(k, v). (k, JStr v)) (w_value wire))), (''Data'', JStr [])]) = Inr b)"

definition frame_ok :: "'t deployment \<Rightarrow> bytes \<Rightarrow> bool" where
  "frame_ok su b \<longleftrightarrow> cloud_frame b \<or> set_frame (live_bridge su) b"

definition taps_ok :: "'t deployment \<Rightarrow> 't system \<Rightarrow> bool" where
  "taps_ok su s \<longleftrightarrow> (\<forall>sock r. map_of (sy_taps s) sock = Some r \<or> (sock, r) \<in> set (sy_passed s) \<longrightarrow> su_passthrough su \<and> tap_ok r)"

definition sys_ok :: "'t deployment \<Rightarrow> 't system \<Rightarrow> bool" where
  "sys_ok su s \<longleftrightarrow> keeps (sink_in_order su) (sy_store s) \<and> dict_ok (connections (sy_net s)) \<and>
     (\<forall>(sock, b) \<in> set (sent (sy_net s)). frame_ok su b) \<and>
     (\<forall>sock c. map_of (sy_conns s) sock = Some c \<longrightarrow> conn_ok c) \<and> taps_ok su s"

text \<open>What a thread may do to the channel: the store is kept, the table stays one, frames are in order.\<close>

definition net_ok :: "'t deployment \<Rightarrow> lazy_sink world \<Rightarrow> bool" where
  "net_ok su w \<longleftrightarrow> keeps (sink_in_order su) (device_store w) \<and> dict_ok (connections w) \<and>
     (\<forall>(sock, b) \<in> set (sent w). frame_ok su b)"

lemma read_only_frames: "read_only w w' \<Longrightarrow> \<forall>(sock, b) \<in> set (sent w). frame_ok su b \<Longrightarrow> \<forall>(sock, b) \<in> set (sent w'). frame_ok su b"
  by (auto simp: read_only_def frame_ok_def)

lemma dict_ok_drop_if [simp]: "dict_ok (connections w) \<Longrightarrow> dict_ok (connections (drop_if k sk w))"
  by (auto simp: drop_if_def split: option.splits)

lemma register_dict: "register d sk f w = (r, w') \<Longrightarrow> dict_ok (connections w) \<Longrightarrow> dict_ok (connections w')"
  by (auto simp: register_def split: sum.splits)

lemma unregister_dict: "unregister d sk w = (r, w') \<Longrightarrow> dict_ok (connections w) \<Longrightarrow> dict_ok (connections w')"
  by (auto simp: unregister_def split: sum.splits)

lemma message_dict:
  assumes "handle_message env sock fam dev m w = (d, r, w')" "dict_ok (connections w)"
  shows "dict_ok (connections w')"
proof (cases "json_get (get_or m ''Header'' (JObj [])) ''x-lgedm-deviceId'' dev")
  case (Inl e)
  with assms show ?thesis by (auto simp: handle_message_def)
next
  case (Inr d1)
  obtain r1 w1 where 1: "register d1 sock fam w = (r1, w1)" by fastforce
  obtain r2 w2 where 2: "handle_incoming env d1 m fam w1 = (r2, w2)" by fastforce
  from register_dict [OF 1 assms(2)] handle_incoming_fields(2) [OF 2] have "dict_ok (connections w1)" "dict_ok (connections w2)"
    by simp_all
  with Inr 1 2 assms(1) show ?thesis
    by (auto simp: handle_message_def split: sum.splits prod.splits dest!: respond_fields(1) announce_fields(1))
qed

lemma push_fields:
  assumes "push env dev m w = (r, w')"
  shows "device_store w' = device_store w" "dict_ok (connections w) \<Longrightarrow> dict_ok (connections w')"
  using assms by (auto simp: push_def sendall_def split: sum.splits option.splits prod.splits if_splits)

lemma query_fields:
  assumes "query_state env dev w = (r, w')"
  shows "device_store w' = device_store w" "dict_ok (connections w) \<Longrightarrow> dict_ok (connections w')"
proof -
  obtain x w1 where 1: "next_wid dev w = (x, w1)" by fastforce
  note f = next_wid_fields [OF 1]
  show "device_store w' = device_store w" "dict_ok (connections w) \<Longrightarrow> dict_ok (connections w')"
    using assms 1 f push_fields [of env dev _ w1 r w'] by (cases x; auto simp: query_state_def)+
qed

lemma command_fields:
  assumes "send_command env dev val cmd opt w = (r, w')"
  shows "device_store w' = device_store w" "dict_ok (connections w) \<Longrightarrow> dict_ok (connections w')"
proof -
  obtain x w1 where 1: "next_wid dev w = (x, w1)" by fastforce
  note f = next_wid_fields [OF 1]
  show "device_store w' = device_store w" "dict_ok (connections w) \<Longrightarrow> dict_ok (connections w')"
    using assms 1 f push_fields [of env dev _ w1 r w'] by (cases x; auto simp: send_command_def split: if_splits)+
qed

lemma message_net_ok:
  assumes "handle_message (live_chan su mo) sock fam dev m w = (d, r, w')" "net_ok su w"
  shows "net_ok su w'"
  using assms message_dict [OF assms(1)] live.message_kept [where su = su and mo = mo, OF _ assms(1)]
    read_only_frames [where su = su, OF handle_message_read_only [OF assms(1)]]
  by (simp add: net_ok_def)

lemma query_net_ok:
  assumes "query_state env dev w = (r, w')" "net_ok su w"
  shows "net_ok su w'"
  using assms query_fields [OF assms(1)] read_only_frames [where su = su, OF query_state_read_only [OF assms(1)]]
  by (simp add: net_ok_def)

lemma close_net_ok:
  assumes "net_ok su w"
  shows "net_ok su (snd (close_connection sock (dev, r, w)))"
proof -
  obtain x w1 where u: "unregister dev (Some sock) w = (x, w1)" by fastforce
  have "net_ok su w1"
    using assms unregister_fields [OF u] unregister_dict [OF u] by (simp add: net_ok_def)
  with assms u show ?thesis by (auto simp: close_connection_def Let_def split: sum.splits)
qed

lemma observe_messages_connections:
  "observe_messages env dev ms w = (d, r, w') \<Longrightarrow> connections w' = connections w"
proof (induction ms arbitrary: dev w)
  case (Cons m ms)
  obtain d1 r1 w1 where 1: "observe_message env dev m w = (d1, r1, w1)" by (cases rule: prod_cases3)
  then have "connections w1 = connections w"
    by (auto simp: observe_message_def Let_def ingest_snapshot_def dest!: ingest_blob_fields(2)
        split: sum.splits json.splits if_splits option.splits)
  with Cons 1 show ?case by (cases r1) auto
qed simp

lemma observe_connections: "connections (snd (observe env d s)) = connections (snd s)"
  by (auto simp: observe_def Let_def dest: observe_messages_connections split: prod.splits)

lemma observe_net_ok:
  assumes "observe (live_chan su mo) d (ob, w) = (ob', w')" "net_ok su w"
  shows "net_ok su w'" "length (seen_buf ob') < 4 + len4_max_frame"
proof -
  have "connections w' = connections w"
    using observe_connections [of "live_chan su mo" d "(ob, w)"] assms(1) by simp
  moreover have "sent w' = sent w" using observe_sent [of "live_chan su mo" d "(ob, w)"] assms(1) by simp
  ultimately show "net_ok su w'"
    using assms(2) live.chunk_kept [where su = su and mo = mo, OF _ assms(1)] by (simp add: net_ok_def)
  show "length (seen_buf ob') < 4 + len4_max_frame"
    using assms(1) len4_remainder_bound [of "seen_buf ob @ d"]
    by (auto simp: observe_def Let_def split: prod.splits)
qed

lemma command_net_ok:
  assumes "sink_ok (live_bridge su) k" "net_ok su w"
  shows "net_ok su (ha_command (live_chan su mo) k topic payload w)"
proof (cases "on_message k topic payload")
  case (Some dw)
  obtain dev wire where dw: "dw = (dev, wire)" by fastforce
  obtain r w' where c: "send_command (live_chan su mo) (JStr dev) (JObj (map (\<lambda>(k, v). (k, JStr v)) (w_value wire)))
      (w_cmd wire) (w_opt wire) w = (r, w')" by fastforce
  note v = on_message_vetted [OF assms(1) Some [unfolded dw]]
  have "\<forall>(sock, b) \<in> set (sent w'). frame_ok su b"
    using send_command_writes [OF c]
  proof
    assume "sent w' = sent w"
    with assms(2) show ?thesis by (simp add: net_ok_def)
  next
    assume "allow_control (live_chan su mo) \<and> (\<exists>k sock fam wid b. hash_key (JStr dev) = Inr k \<and>
      map_of (connections w) k = Some (sock, fam) \<and>
      encode_by fam (make_message (JStr dev) (JStr wid) [(''Cmd'', w_cmd wire), (''CmdOpt'', w_opt wire),
        (''Value'', JObj (map (\<lambda>(k, v). (k, JStr v)) (w_value wire))), (''Data'', JStr [])]) = Inr b \<and>
      sent w' = sent w @ [(sock, b)])"
    then obtain sock fam wid b where b: "encode_by fam (make_message (JStr dev) (JStr wid) [(''Cmd'', w_cmd wire),
        (''CmdOpt'', w_opt wire), (''Value'', JObj (map (\<lambda>(k, v). (k, JStr v)) (w_value wire))), (''Data'', JStr [])]) = Inr b"
      "sent w' = sent w @ [(sock, b)]" by blast
    have "set_frame (live_bridge su) b" unfolding set_frame_def using v b(1) by metis
    with b(2) assms(2) show ?thesis by (simp add: net_ok_def frame_ok_def)
  qed
  with c Some dw assms(2) command_fields [OF c] show ?thesis by (simp add: ha_command_def net_ok_def)
qed (use assms in \<open>simp add: ha_command_def\<close>)

text \<open>Every step keeps the invariant, component by component.\<close>

lemma sys_ok_net: "sys_ok su s \<longleftrightarrow> net_ok su (sy_net s) \<and>
    (\<forall>sock c. map_of (sy_conns s) sock = Some c \<longrightarrow> conn_ok c) \<and> taps_ok su s"
  by (auto simp: sys_ok_def net_ok_def)

lemma taps_ok_frame: "sy_taps s' = sy_taps s \<Longrightarrow> sy_passed s' = sy_passed s \<Longrightarrow> taps_ok su s' = taps_ok su s"
  by (simp add: taps_ok_def)

lemma with_store_net [simp]:
  "sy_net (with_store st s) = (sy_net s)\<lparr>device_store := st\<rparr>" "sy_conns (with_store st s) = sy_conns s"
  "sy_taps (with_store st s) = sy_taps s" "sy_passed (with_store st s) = sy_passed s"
  by (simp_all add: with_store_def)

lemma sys_ok_with_store: "sys_ok su s \<Longrightarrow> keeps (sink_in_order su) st \<Longrightarrow> sys_ok su (with_store st s)"
  by (simp add: sys_ok_def taps_ok_def)

lemma linked_new: "linked (new_end tc, new_end tu, ob)"
  by (simp add: linked_def faithful_def fifo_def new_end_def)

lemma opened_ok: "sys_ok su s \<Longrightarrow> sys_ok su (opened su sock first lg shaken s)"
  by (auto simp: sys_ok_def opened_def Let_def conn_ok_def taps_ok_def tap_ok_def linked_new fresh_observer_def mp_settled_def const_defs
      split: list.splits if_splits)

lemma hang_up_ok: "sys_ok su s \<Longrightarrow> net_ok su w \<Longrightarrow> sys_ok su (hang_up sock (dev, r, w) s)"
  by (auto simp: sys_ok_net hang_up_def close_net_ok taps_ok_def)

lemma conn_read_ok:
  assumes "sys_ok su s"
  shows "sys_ok su (conn_read sock r s)"
proof (cases "map_of (sy_conns s) sock")
  case (Some c)
  have n: "net_ok su (sy_net s)" using assms by (simp add: sys_ok_net)
  show ?thesis
  proof (cases r)
    case (Data d)
    obtain msgs rest where dec: "decode_by (oc_family c) (oc_buf c @ d) = (msgs, rest)" by fastforce
    have old: "conn_ok c" using assms Some by (simp add: sys_ok_net)
    have new: "conn_ok (c\<lparr>oc_buf := rest, oc_todo := msgs\<rparr>)" if d: "recv_fits r"
    proof (cases "oc_family c")
      case Len4
      then show ?thesis using dec len4_remainder_bound [of "oc_buf c @ d"] by (simp add: conn_ok_def)
    next
      case Msgpack
      then have "rest = snd (decode_messages (oc_buf c @ d))" using dec by simp
      moreover have "length d \<le> msgbuf_sanity_limit" using d Data by (simp add: recv_fits_def const_defs)
      ultimately show ?thesis
        using Msgpack old mp_remainder_settled [of "oc_buf c @ d"] mp_remainder_bound [of "oc_buf c" d] by (simp add: conn_ok_def)
    qed
    show ?thesis
    proof (cases "recv_fits r \<and> oc_todo c = [] \<and> d \<noteq> []")
      case True
      with new have "conn_ok (c\<lparr>oc_buf := rest, oc_todo := msgs\<rparr>)" by simp
      with assms Some Data dec True show ?thesis by (simp add: conn_read_def sys_ok_net taps_ok_def)
    next
      case False
      with assms n Some Data show ?thesis by (auto simp: conn_read_def hang_up_ok)
    qed
  qed (use assms n Some in \<open>simp add: conn_read_def hang_up_ok\<close>)
qed (use assms in \<open>simp add: conn_read_def\<close>)

lemma conn_next_ok:
  assumes "sys_ok su s"
  shows "sys_ok su (conn_next (live_chan su mo) sock s)"
proof (cases "map_of (sy_conns s) sock")
  case (Some c)
  show ?thesis
  proof (cases "oc_todo c")
    case (Cons m ms)
    obtain dev r w where h: "handle_message (live_chan su mo) sock (oc_family c) (oc_dev c) m (sy_net s) = (dev, r, w)"
      by (cases rule: prod_cases3)
    have "net_ok su w" using message_net_ok [OF h] assms by (simp add: sys_ok_net)
    moreover have "conn_ok (c\<lparr>oc_dev := dev, oc_todo := ms\<rparr>)" using assms Some by (simp add: sys_ok_def conn_ok_def split: family.splits)
    ultimately show ?thesis
      using assms Some Cons h by (cases r) (simp_all add: conn_next_def hang_up_ok, simp add: sys_ok_net taps_ok_def)
  qed (use assms Some in \<open>simp add: conn_next_def\<close>)
qed (use assms in \<open>simp add: conn_next_def\<close>)

text \<open>A turn of the relay shows the observer a row of chunks.\<close>

lemma shown_net_ok:
  assumes "fold (\<lambda>(sd, b). passthrough_observer (live_chan su mo) sd b) new (ob, w) = (ob', w')"
    and "net_ok su w" "length (seen_buf ob) < 4 + len4_max_frame"
  shows "net_ok su w' \<and> length (seen_buf ob') < 4 + len4_max_frame"
  using assms
proof (induction new arbitrary: ob w)
  case (Cons n new)
  obtain sd b where n: "n = (sd, b)" by fastforce
  obtain ob1 w1 where 1: "passthrough_observer (live_chan su mo) sd b (ob, w) = (ob1, w1)" by fastforce
  have "net_ok su w1 \<and> length (seen_buf ob1) < 4 + len4_max_frame"
  proof (cases sd)
    case Client
    with 1 have "observe (live_chan su mo) b (ob, w) = (ob1, w1)" by (simp add: passthrough_observer_def)
    from observe_net_ok [OF this Cons.prems(2)] show ?thesis by simp
  qed (use 1 Cons.prems in \<open>simp add: passthrough_observer_def\<close>)
  with Cons 1 n show ?case by auto
qed simp

lemma tap_turn_ok:
  assumes "sys_ok su s"
  shows "sys_ok su (tap_turn su (live_chan su mo) sock fuel tn s)"
proof (cases "map_of (sy_taps s) sock")
  case (Some r)
  obtain c u ob where r: "r = (c, u, ob)" by (cases r)
  have su: "su_passthrough su" and l: "linked (c, u, (ob, sy_net s))" and b: "length (seen_buf ob) < 4 + len4_max_frame"
    using assms Some r by (auto simp: sys_ok_net taps_ok_def tap_ok_def linked_def)
  show ?thesis
  proof (cases "relay_turn (su_tls su) (passthrough_observer (live_chan su mo)) fuel tn (c, u, (ob, sy_net s))")
    case None
    with assms Some r show ?thesis by (simp add: tap_turn_def)
  next
    case turn: (Some x)
    obtain c' u' ob' w go where x: "x = ((c', u', (ob', w)), go)" by (metis prod.exhaust)
    obtain new where "onward (passthrough_observer (live_chan su mo)) new (c, u, (ob, sy_net s)) (c', u', (ob', w))"
      using relay_turn_onward [OF turn [unfolded x] l] by blast
    then have "linked (c', u', ob')" "net_ok su w" "length (seen_buf ob') < 4 + len4_max_frame"
      using shown_net_ok [of su mo new ob "sy_net s" ob' w] assms b
      by (auto simp: onward_def linked_def sys_ok_net)
    with assms Some r turn x su show ?thesis
      by (auto simp: tap_turn_def sys_ok_net taps_ok_def tap_ok_def)
  qed
qed (use assms in \<open>simp add: tap_turn_def\<close>)

lemma poll_next_ok: "sys_ok su s \<Longrightarrow> sys_ok su (poll_next env s)"
  by (auto simp: poll_next_def sys_ok_net taps_ok_def split: list.splits prod.splits sum.splits elim: query_net_ok)

lemma after_query_ok: "net_ok su w \<Longrightarrow> net_ok su (after_query env path w)"
  by (auto simp: after_query_def split: option.splits intro: query_net_ok [OF prod.collapse [symmetric]])

lemma with_app_ok: "sys_ok su s \<Longrightarrow> keeps (sink_in_order su) (dev_store a) \<Longrightarrow> sys_ok su (with_app a s)"
  by (simp add: with_app_def sys_ok_def taps_ok_def)

lemma request_ok:
  assumes "sys_ok su s"
  shows "sys_ok su (with_app (snd (dispatch (live_app su mo w) rq (app_part s))) (s\<lparr>sy_net := after_query env path (sy_net s)\<rparr>))"
proof (rule with_app_ok)
  show "keeps (sink_in_order su) (dev_store (snd (dispatch (live_app su mo w) rq (app_part s))))"
    by (rule live.dispatch_kept [where mo = mo]) (use assms in \<open>simp_all add: app_part_def sys_ok_def\<close>)
qed (use assms after_query_ok [where su = su] in \<open>simp add: sys_ok_net taps_ok_def\<close>)

lemma posted_ok: "sys_ok su s \<Longrightarrow> sys_ok su (snd (posted su mo path hs cl bs s))"
  using request_ok [where su = su and s = s and mo = mo]
  by (auto simp: posted_def do_post_def split: sum.splits prod.splits) (metis snd_conv)

lemma get_ok: "sys_ok su s \<Longrightarrow> sys_ok su (snd (get_request su mo path hs s))"
  using request_ok [where su = su and s = s and mo = mo]
  by (auto simp: get_request_def do_get_def split: prod.splits) (metis snd_conv)

lemma ha_message_ok: "sys_ok su s \<Longrightarrow> sys_ok su (ha_message (live_chan su mo) topic payload s)"
  by (auto simp: ha_message_def sys_ok_net taps_ok_def net_ok_def [of su "sy_net s"] keeps_def sink_in_order_def current_sink_def
      split: option.splits intro!: command_net_ok)

lemma age_pass_ok:
  assumes "sys_ok su s"
  shows "sys_ok su (age_pass su mo now_s iso_epoch logs s)"
proof -
  obtain offs memory st where p: "observe_pass (live_env su mo) iso_epoch (su_watched su) now_s logs
      (sy_offsets s, sy_memory s, sy_store s) = (offs, memory, st)" by (cases rule: prod_cases3)
  then have "keeps (sink_in_order su) st" by (rule live.pass_kept) (use assms in \<open>simp add: sys_ok_def\<close>)
  from sys_ok_with_store [OF assms this] p show ?thesis by (simp add: age_pass_def sys_ok_def taps_ok_def)
qed

lemma sys_step_ok: "sys_ok su s \<Longrightarrow> sys_ok su (sys_step su mo h s)"
proof (cases h)
  case (CloudPush nickname model dev payload)
  assume ok: "sys_ok su s"
  have "keeps (sink_in_order su) (snd (on_cloud_event (live_env su mo) nickname model dev payload (sy_store s)))"
    by (rule live.cloud_kept [OF prod.collapse [symmetric]]) (use ok in \<open>simp add: sys_ok_def\<close>)
  with ok CloudPush show ?thesis by (simp add: sys_ok_with_store)
next
  case PollStart
  then show "sys_ok su s \<Longrightarrow> ?thesis" by (simp add: poll_start_def sys_ok_def taps_ok_def)
qed (simp_all add: opened_ok conn_read_ok conn_next_ok tap_turn_ok poll_next_ok posted_ok get_ok ha_message_ok age_pass_ok)

lemma booted_ok: "sys_ok su (booted captured seeds)"
  by (simp add: sys_ok_def taps_ok_def booted_def keeps_def store_ok_def initial_store_def sink_in_order_def current_sink_def sink_ok_new)

lemma sys_reach_ok: "sys_reach su s \<Longrightarrow> sys_ok su s"
  by (induction rule: sys_reach.induct) (simp_all add: booted_ok sys_step_ok)

section \<open>One connection by itself\<close>

lemma pop_set [simp]: "dict_pop (dict_set d k v) k = dict_pop d k"
  by (induction d) auto

lemma pop_fresh: "map_of d k = None \<Longrightarrow> dict_pop d k = d"
  by (induction d) (auto split: if_splits)

definition sys_run :: "'t deployment \<Rightarrow> moment \<Rightarrow> 't happening list \<Rightarrow> 't system \<Rightarrow> 't system" where
  "sys_run su mo hs s = foldl (\<lambda>s h. sys_step su mo h s) s hs"

lemma sys_run_simps [simp]:
  "sys_run su mo [] s = s" "sys_run su mo (h # hs) s = sys_run su mo hs (sys_step su mo h s)"
  "sys_run su mo (hs @ ks) s = sys_run su mo ks (sys_run su mo hs s)"
  by (simp_all add: sys_run_def)

lemma sys_run_reach: "sys_reach su s \<Longrightarrow> sys_reach su (sys_run su mo hs s)"
  by (induction hs arbitrary: s) (auto intro: sys_reach.step)

definition idle_conn :: "family \<Rightarrow> json \<Rightarrow> bytes \<Rightarrow> message list \<Rightarrow> open_conn" where
  "idle_conn fam dev buf ms = \<lparr>oc_family = fam, oc_dev = dev, oc_buf = buf, oc_todo = ms\<rparr>"

definition on_conn :: "nat \<Rightarrow> open_conn \<Rightarrow> lazy_sink world \<Rightarrow> 't system \<Rightarrow> 't system" where
  "on_conn sock c w s = s\<lparr>sy_net := w, sy_conns := dict_set (sy_conns s) sock c\<rparr>"

definition gone :: "nat \<Rightarrow> lazy_sink world \<Rightarrow> 't system \<Rightarrow> 't system" where
  "gone sock w s = s\<lparr>sy_net := w, sy_conns := dict_pop (sy_conns s) sock\<rparr>"

lemma messages_alone:
  "sys_run su mo (replicate (length ms) (ConnNext sock)) (on_conn sock (idle_conn fam dev buf ms) w s) =
    (case handle_messages (live_chan su mo) sock fam dev ms w of
       (dev', Inl e, w') \<Rightarrow> gone sock (snd (close_connection sock (dev', Inl e, w'))) s
     | (dev', Inr _, w') \<Rightarrow> on_conn sock (idle_conn fam dev' buf []) w' s)"
proof (induction ms arbitrary: dev w)
  case (Cons m ms)
  obtain d r w1 where h: "handle_message (live_chan su mo) sock fam dev m w = (d, r, w1)" by (cases rule: prod_cases3)
  show ?case
  proof (cases r)
    case (Inl e)
    have "sys_run su mo (replicate n (ConnNext sock)) (gone sock w2 s) = gone sock w2 s" for n w2
      by (induction n) (simp_all add: conn_next_def gone_def)
    moreover have "sys_step su mo (ConnNext sock) (on_conn sock (idle_conn fam dev buf (m # ms)) w s)
        = gone sock (snd (close_connection sock (d, Inl e, w1))) s"
      using h Inl by (simp add: conn_next_def on_conn_def idle_conn_def hang_up_def gone_def)
    ultimately show ?thesis using h Inl by simp
  next
    case (Inr u)
    have "sys_step su mo (ConnNext sock) (on_conn sock (idle_conn fam dev buf (m # ms)) w s)
        = on_conn sock (idle_conn fam d buf ms) w1 s"
      using h Inr by (simp add: conn_next_def on_conn_def idle_conn_def)
    then show ?thesis using h Inr Cons.IH [of d w1] by simp
  qed
qed (simp add: idle_conn_def)

text \<open>
  The steps of a connection that is served chunk after chunk: after each read as many as it has brought
  messages, after the last chunk the end of the stream.
\<close>

fun conn_events :: "nat \<Rightarrow> family \<Rightarrow> bytes \<Rightarrow> recv list \<Rightarrow> 't happening list" where
  "conn_events sock fam buf [] = [ConnRead sock (Data [])]"
| "conn_events sock fam buf (RecvError # rs) = [ConnRead sock RecvError]"
| "conn_events sock fam buf (Data d # rs) = (case decode_by fam (buf @ d) of
      (msgs, rest) \<Rightarrow> ConnRead sock (Data d) # replicate (length msgs) (ConnNext sock) @ conn_events sock fam rest rs)"

lemma unknown_conn_steps [simp]:
  assumes "map_of (sy_conns s) sock = None"
  shows "conn_read sock r s = s" "conn_next env sock s = s"
  using assms by (simp_all add: conn_read_def conn_next_def)

lemma unknown_conn_events:
  assumes "map_of (sy_conns s) sock = None"
  shows "sys_run su mo (conn_events sock fam buf rs) s = s"
proof -
  have n: "sys_run su mo (replicate n (ConnNext sock)) s = s" for n
    using assms by (induction n) simp_all
  show ?thesis
    using assms n by (induction sock fam buf rs rule: conn_events.induct) (simp_all split: prod.splits)
qed

lemma gone_conns [simp]: "map_of (sy_conns (gone sock w s)) sock = None"
  by (simp add: gone_def)

lemma loop_alone:
  "list_all recv_fits rs \<Longrightarrow>
   sys_run su mo (conn_events sock fam buf rs) (on_conn sock (idle_conn fam dev buf []) w s) =
     gone sock (snd (close_connection sock (receive_loop (live_chan su mo) sock fam dev buf rs w))) s"
proof (induction rs arbitrary: dev buf w)
  case Nil
  show ?case by (simp add: conn_read_def on_conn_def idle_conn_def hang_up_def gone_def recv_fits_def)
next
  case (Cons r rs)
  show ?case
  proof (cases r)
    case RecvError
    then show ?thesis by (simp add: conn_read_def on_conn_def idle_conn_def hang_up_def gone_def recv_fits_def)
  next
    case (Data d)
    obtain msgs rest where dec: "decode_by fam (buf @ d) = (msgs, rest)" by fastforce
    let ?skip = "replicate (length msgs) (ConnNext sock) @ conn_events sock fam rest rs"
    have skip: "sys_run su mo ?skip (gone sock w2 s) = gone sock w2 s" for w2
    proof -
      have "sys_run su mo (replicate n (ConnNext sock)) (gone sock w2 s) = gone sock w2 s" for n
        by (induction n) simp_all
      then show ?thesis by (simp add: unknown_conn_events)
    qed
    show ?thesis
    proof (cases "d = []")
      case True
      have "sys_step su mo (ConnRead sock r) (on_conn sock (idle_conn fam dev buf []) w s) =
          gone sock (snd (close_connection sock (dev, Inr (), w))) s"
        using Data True by (simp add: conn_read_def on_conn_def idle_conn_def hang_up_def gone_def recv_fits_def)
      then show ?thesis using Data True dec skip by simp
    next
      case False
      obtain d' x w1 where h: "handle_messages (live_chan su mo) sock fam dev msgs w = (d', x, w1)" by (cases rule: prod_cases3)
      have fits: "recv_fits r" "list_all recv_fits rs" using Cons.prems by simp_all
      have "sys_step su mo (ConnRead sock r) (on_conn sock (idle_conn fam dev buf []) w s) = on_conn sock (idle_conn fam dev rest msgs) w s"
        using Data False dec fits(1) by (simp add: conn_read_def on_conn_def idle_conn_def)
      then show ?thesis
        using Data False dec h messages_alone [of su mo msgs sock fam dev rest w s] Cons.IH [OF fits(2)]
        by (cases x) (simp_all add: unknown_conn_events)
    qed
  qed
qed

text \<open>The relay, turn after turn.\<close>

definition on_tap :: "nat \<Rightarrow> ('t, observer) relay \<Rightarrow> lazy_sink world \<Rightarrow> 't system \<Rightarrow> 't system" where
  "on_tap sock r w s = s\<lparr>sy_net := w, sy_taps := dict_set (sy_taps s) sock r\<rparr>"

definition passed :: "nat \<Rightarrow> ('t, observer) relay \<Rightarrow> lazy_sink world \<Rightarrow> 't system \<Rightarrow> 't system" where
  "passed sock r w s = s\<lparr>sy_net := w, sy_taps := dict_pop (sy_taps s) sock, sy_passed := sy_passed s @ [(sock, r)]\<rparr>"

lemma passed_turns: "sys_run su mo (map (TapTurn sock fuel) tns) (passed sock r w s) = passed sock r w s"
  by (induction tns) (simp_all add: passed_def tap_turn_def)

lemma relay_alone:
  "relay_run (su_tls su) (passthrough_observer (live_chan su mo)) fuel tns (c, u, (ob, w)) = Some (c', u', (ob', w')) \<Longrightarrow>
   sys_run su mo (map (TapTurn sock fuel) tns) (on_tap sock (c, u, ob) w s) \<in>
     {on_tap sock (c', u', ob') w' s, passed sock (c', u', ob') w' s}"
proof (induction tns arbitrary: c u ob w)
  case (Cons tn tns)
  obtain c1 u1 ob1 w1 go where 1: "relay_turn (su_tls su) (passthrough_observer (live_chan su mo)) fuel tn (c, u, (ob, w)) =
      Some ((c1, u1, (ob1, w1)), go)"
    using Cons.prems by (auto split: option.splits)
  show ?case
  proof (cases go)
    case True
    with 1 have "sys_step su mo (TapTurn sock fuel tn) (on_tap sock (c, u, ob) w s) = on_tap sock (c1, u1, ob1) w1 s"
      by (simp add: tap_turn_def on_tap_def)
    with 1 True Cons show ?thesis by simp
  next
    case False
    with 1 have "sys_step su mo (TapTurn sock fuel tn) (on_tap sock (c, u, ob) w s) = passed sock (c1, u1, ob1) w1 s"
      by (simp add: tap_turn_def on_tap_def passed_def)
    with 1 False Cons.prems show ?thesis by (simp add: passed_turns)
  qed
qed simp

text \<open>How a connection is taken.\<close>

definition live_conn :: "'t deployment \<Rightarrow> ('t \<times> 't) option \<Rightarrow> bool \<Rightarrow> conn_env" where
  "live_conn su lg shaken = \<lparr>passthrough = su_passthrough su, upstream_ok = lg \<noteq> None, tls_ok = shaken\<rparr>"

definition says_tls :: "bytes \<Rightarrow> bool" where
  "says_tls first \<longleftrightarrow> (case first of [] \<Rightarrow> False | b # _ \<Rightarrow> code b = (22::nat))"

definition first_family :: "bytes \<Rightarrow> family" where
  "first_family first = (if says_tls first then Len4 else Msgpack)"

definition relays :: "'t deployment \<Rightarrow> bytes \<Rightarrow> ('t \<times> 't) option \<Rightarrow> bool" where
  "relays su first lg \<longleftrightarrow> says_tls first \<and> su_passthrough su \<and> lg \<noteq> None"

section \<open>Properties\<close>

definition sample_deployment :: "(bytes list \<times> bytes) deployment" where
  "sample_deployment = \<lparr>su_base = sample_lazy_env, su_control = False, su_mqtt = True, su_bridge = True,
     su_passthrough = True, su_tls = clear_lib, su_watched = []\<rparr>"

definition sample_moment :: moment where
  "sample_moment = \<lparr>mo_clock = ''2026-01-01'', mo_log_ok = (\<lambda>l. True), mo_broker = sample_broker, mo_send_ok = (\<lambda>sk b. True),
     mo_lg = (\<lambda>n rq. Inl OSError), mo_replay = sample_replay_env, mo_snapshots = (\<lambda>n. [])\<rparr>"

definition sample_boot :: "(bytes list \<times> bytes) system" where
  "sample_boot = booted sample_replay []"

lemma sample_boot_reached: "sys_reach su sample_boot"
  unfolding sample_boot_def by (rule sys_reach.start)

text \<open>A washer connects and announces itself: two frames have been written, and the connection stays.\<close>

lemma sample_devinfo_short: "length (dumps_compact (JObj sample_devinfo)) < 200"
  by code_simp

lemma sample_devinfo_frames:
  obtains x a b where "encode_by Len4 sample_devinfo = Inr x" "x \<noteq> []" "decode_messages_len4 x = ([sample_devinfo], [])"
    "\<forall>dev w. handle_message (live_chan sample_deployment sample_moment) 9 Len4 dev sample_devinfo w = (JStr ''d2'', Inr (),
       w\<lparr>connections := dict_set (connections w) (JStr ''d2'') (9, Len4), sent := sent w @ [(9, a), (9, b)]\<rparr>)"
proof -
  have enc: "\<exists>b. encode_by Len4 m = Inr b \<and> b \<noteq> []" if "length (dumps_compact (JObj m)) < 200" for m
    using that by (auto simp: encode_message_len4_def Let_def be32_def)
  note short = sample_devinfo_short
  have ok: "len4_message_ok sample_devinfo"
    using short by (simp add: len4_message_ok_def sample_devinfo_def make_message_def const_defs)
  obtain x where x: "encode_by Len4 sample_devinfo = Inr x" "x \<noteq> []" using enc [OF short] by blast
  then have d: "decode_messages_len4 x = ([sample_devinfo], [])"
    using len4_message [OF ok, of x "[]"] len4_short [of "[]"] by simp
  have "\<exists>a. encode_by Len4 (ack_message (JStr ''d2'') (JStr ''w-1'')) = Inr a \<and> a \<noteq> []" by (rule enc) code_simp
  moreover have "\<exists>b. encode_by Len4 (mon_start_message (JStr ''d2'') (JStr ''n-d2-mon'')) = Inr b \<and> b \<noteq> []"
    by (rule enc) code_simp
  ultimately obtain a b where ab: "encode_by Len4 (ack_message (JStr ''d2'') (JStr ''w-1'')) = Inr a" "a \<noteq> []"
      "encode_by Len4 (mon_start_message (JStr ''d2'') (JStr ''n-d2-mon'')) = Inr b" by blast
  have c: "''n-'' @ cp_take 8 ''d2'' @ ''-mon'' = ''n-d2-mon''" by code_simp
  have "handle_message (live_chan sample_deployment sample_moment) 9 Len4 dev sample_devinfo w = (JStr ''d2'', Inr (),
       w\<lparr>connections := dict_set (connections w) (JStr ''d2'') (9, Len4), sent := sent w @ [(9, a), (9, b)]\<rparr>)" for dev w
    by (rule devinfo_answer [of _ _ "[(''CmdWId'', JStr ''w-1''), (''Cmd'', JStr ''DevInfo'')]" _ a b])
      (use ab in \<open>simp_all add: sample_moment_def sample_devinfo_def make_message_def device_of_def get_or_def c [simplified]\<close>)
  with x d that show ?thesis by blast
qed

text \<open>
  And another one is relayed: LG sends two bytes, which the engine writes to the appliance.
\<close>

definition lg_turns :: "turn list" where
  "lg_turns = map (\<lambda>evs. \<lparr>client_sends = [], up_sends = [], selected = evs, idle = False\<rparr>)
     [[], [Readable Upstream (Received ''hi'')], []]"

lemma lg_run:
  "\<exists>c u. relay_run clear_lib (passthrough_observer env) 5 lg_turns (new_end ([], []), new_end ([], []), (fresh_observer, w)) =
     Some (c, u, (fresh_observer, w)) \<and> got u = [''hi''] \<and> put c = [''hi'']"
proof -
  have "(5::nat) = Suc (Suc (Suc (Suc (Suc 0))))" by simp
  then show ?thesis by (simp only:) (simp add: lg_turns_def passthrough_observer_def relay_eval clear_lib_def)
qed

lemma sample_live:
  obtains s c a b r u where "sys_reach sample_deployment s" "sent (sy_net s) = [(9, a), (9, b)]"
    "map_of (sy_conns s) 9 = Some c" "oc_family c = Len4"
    "map_of (sy_taps s) 10 = Some (r, u, fresh_observer) \<or> (10, (r, u, fresh_observer)) \<in> set (sy_passed s)"
    "got u = [''hi'']" "put r = [''hi'']"
proof -
  obtain x a b where x: "encode_by Len4 sample_devinfo = Inr x" "x \<noteq> []" "decode_messages_len4 x = ([sample_devinfo], [])"
    and h: "\<forall>dev w. handle_message (live_chan sample_deployment sample_moment) 9 Len4 dev sample_devinfo w = (JStr ''d2'', Inr (),
       w\<lparr>connections := dict_set (connections w) (JStr ''d2'') (9, Len4), sent := sent w @ [(9, a), (9, b)]\<rparr>)"
    by (rule sample_devinfo_frames)
  have fits: "recv_fits (Data x)" using x sample_devinfo_short by (auto simp: recv_fits_def encode_message_len4_def Let_def split: if_splits)
  let ?s = "sys_run sample_deployment sample_moment [ConnOpened 9 [byte_of 22] None True, ConnRead 9 (Data x), ConnNext 9] sample_boot"
  have s: "sent (sy_net ?s) = [(9, a), (9, b)]" "sy_taps ?s = []" "\<exists>c. map_of (sy_conns ?s) 9 = Some c \<and> oc_family c = Len4"
    "map_of (sy_conns ?s) 10 = None"
    using x h fits by (simp_all add: sample_boot_def booted_def opened_def sample_deployment_def [of] conn_read_def conn_next_def)
  let ?t = "sys_step sample_deployment sample_moment (ConnOpened 10 [byte_of 22] (Some (([], []), ([], []))) False) ?s"
  let ?v = "sys_run sample_deployment sample_moment (map (TapTurn 10 5) lg_turns) ?t"
  obtain r u where run: "relay_run clear_lib (passthrough_observer (live_chan sample_deployment sample_moment)) 5 lg_turns
      (new_end ([], []), new_end ([], []), (fresh_observer, sy_net ?s)) = Some (r, u, (fresh_observer, sy_net ?s))"
    "got u = [''hi'']" "put r = [''hi'']"
    using lg_run by blast
  have "?t = on_tap 10 (new_end ([], []), new_end ([], []), fresh_observer) (sy_net ?s) ?s"
    using s(2,4) by (simp add: opened_def on_tap_def sample_deployment_def [of])
  moreover have "su_tls sample_deployment = clear_lib" by (simp add: sample_deployment_def)
  ultimately have v: "?v \<in> {on_tap 10 (r, u, fresh_observer) (sy_net ?s) ?s, passed 10 (r, u, fresh_observer) (sy_net ?s) ?s}"
    using relay_alone [of sample_deployment sample_moment 5 lg_turns "new_end ([], [])" "new_end ([], [])" fresh_observer "sy_net ?s"
        r u fresh_observer "sy_net ?s" 10 ?s] run(1) by simp
  moreover have "sys_reach sample_deployment ?v"
    by (intro sys_run_reach sys_reach.step sample_boot_reached)
  moreover have "sent (sy_net ?v) = [(9, a), (9, b)]" "sy_conns ?v = sy_conns ?s"
    using v s(1) by (auto simp: on_tap_def passed_def)
  moreover have "map_of (sy_taps ?v) 10 = Some (r, u, fresh_observer) \<or> (10, (r, u, fresh_observer)) \<in> set (sy_passed ?v)"
    using v by (auto simp: on_tap_def passed_def)
  ultimately show ?thesis using s(3) that run(2,3) by metis
qed

text \<open>
  C6. Whatever the appliances, LG, Home Assistant, the broker, the disk and the clients of the HTTP
  surface do, and in whatever order the threads get to it: the store is well formed, what the broker
  retains is what the sink believes and every known field has been announced, the table of
  connections has one entry per device, and no receive buffer grows without bound: one of the
  length-prefixed framing stays below a maximal frame, a fridge's at most at the sanity limit of
  64 KiB, and that of an observer below a maximal frame.
\<close>

theorem system_invariant:
  assumes "sys_reach su s"
  shows "store_ok (sy_store s) \<and> sink_ok (live_bridge su) (current_sink (sink_state (sy_store s))) \<and>
    dict_ok (connections (sy_net s)) \<and>
    (\<forall>sock c. map_of (sy_conns s) sock = Some c \<longrightarrow>
      length (oc_buf c) \<le> (case oc_family c of Len4 \<Rightarrow> 3 + len4_max_frame | Msgpack \<Rightarrow> msgbuf_sanity_limit)) \<and>
    (\<forall>sock c u ob. map_of (sy_taps s) sock = Some (c, u, ob) \<longrightarrow> length (seen_buf ob) \<le> 3 + len4_max_frame)"
proof -
  have ok: "sys_ok su s" by (rule sys_reach_ok [OF assms])
  have "length (oc_buf c) \<le> (case oc_family c of Len4 \<Rightarrow> 3 + len4_max_frame | Msgpack \<Rightarrow> msgbuf_sanity_limit)"
    if "map_of (sy_conns s) sock = Some c" for sock c
    using ok that by (fastforce simp: sys_ok_def conn_ok_def split: family.splits)
  moreover have "length (seen_buf ob) \<le> 3 + len4_max_frame" if "map_of (sy_taps s) sock = Some (c, u, ob)" for sock c u ob
    using ok that by (fastforce simp: sys_ok_def taps_ok_def tap_ok_def)
  ultimately show ?thesis using ok by (auto simp: sys_ok_def keeps_def sink_in_order_def)
qed

theorem system_invariant_witness:
  "\<exists>s c. sys_reach sample_deployment s \<and> length (sent (sy_net s)) = 2 \<and> store_ok (sy_store s) \<and>
     map_of (sy_conns s) 9 = Some c \<and> length (oc_buf c) \<le> 3 + len4_max_frame"
proof -
  obtain s c a b r u where s: "sys_reach sample_deployment s" "sent (sy_net s) = [(9, a), (9, b)]"
    "map_of (sy_conns s) 9 = Some c" "oc_family c = Len4" by (rule sample_live)
  have "length (oc_buf c) \<le> 3 + len4_max_frame \<and> store_ok (sy_store s)"
    using system_invariant [OF s(1)] s(3,4) by (metis family.simps(4) family.simps(3))
  with s show ?thesis by (intro exI [of _ s] exI [of _ c]) simp
qed

text \<open>
  C4. Every frame the server itself has ever written to an appliance is an acknowledgement, a
  \<open>Mon Start\<close> query or, only when control is on, a \<open>Set\<close> of one value that an entity of a modelJson
  gives. A connection it relays, open or ended, there is only in passthrough mode, and what is
  written to that appliance is, chunk by chunk and in order, what was read from LG and nothing else
  (but for a last chunk whose write failed and ended the connection); what its socket took is, with
  what is queued, the ciphertext of that in order.
\<close>

theorem every_frame_vetted:
  assumes "sys_reach su s"
  shows "((sock, b) \<in> set (sent (sy_net s)) \<longrightarrow> cloud_frame b \<or> su_control su \<and> set_frame (live_bridge su) b) \<and>
    (map_of (sy_taps s) sock = Some (c, u, ob) \<or> (sock, (c, u, ob)) \<in> set (sy_passed s) \<longrightarrow>
      su_passthrough su \<and> (put c = got u \<or> dead c \<and> (\<exists>x. put c @ [x] = got u)) \<and> drained c = wire c @ pending c)"
proof -
  have ok: "sys_ok su s" by (rule sys_reach_ok [OF assms])
  then have "\<forall>(sock, b) \<in> set (sent (sy_net s)). frame_ok su b" by (simp add: sys_ok_def)
  then have "(sock, b) \<in> set (sent (sy_net s)) \<longrightarrow> cloud_frame b \<or> su_control su \<and> set_frame (live_bridge su) b"
    by (auto simp: frame_ok_def set_frame_def)
  moreover have "su_passthrough su \<and> tap_ok (c, u, ob)"
    if "map_of (sy_taps s) sock = Some (c, u, ob) \<or> (sock, (c, u, ob)) \<in> set (sy_passed s)"
    using ok that by (auto simp: sys_ok_def taps_ok_def)
  ultimately show ?thesis by (auto simp: tap_ok_def linked_def faithful_def fifo_def)
qed

theorem every_frame_vetted_witness:
  "\<exists>s b c u. sys_reach sample_deployment s \<and> (9, b) \<in> set (sent (sy_net s)) \<and> cloud_frame b \<and>
     (map_of (sy_taps s) 10 = Some (c, u, fresh_observer) \<or> (10, (c, u, fresh_observer)) \<in> set (sy_passed s)) \<and>
     got u = [''hi''] \<and> put c = [''hi''] \<and> drained c = wire c @ pending c"
proof -
  obtain s d a b c u where s: "sys_reach sample_deployment s" "sent (sy_net s) = [(9, a), (9, b)]"
    "map_of (sy_conns s) 9 = Some d" "oc_family d = Len4"
    "map_of (sy_taps s) 10 = Some (c, u, fresh_observer) \<or> (10, (c, u, fresh_observer)) \<in> set (sy_passed s)"
    "got u = [''hi'']" "put c = [''hi'']" by (rule sample_live)
  then have a: "(9, a) \<in> set (sent (sy_net s))" by simp
  have "\<not> su_control sample_deployment" by (simp add: sample_deployment_def)
  then have "cloud_frame a" using every_frame_vetted [OF s(1), of 9 a] a by blast
  moreover have "drained c = wire c @ pending c" using every_frame_vetted [OF s(1), of 10] s(5) by blast
  ultimately show ?thesis using s a by blast
qed

text \<open>
  C7. Left alone, a connection of the running server does what its handler does from the first byte to
  the last. Terminated, in either framing: when every chunk is read and every message it brings is
  handled, up to the end of the stream or an error, the server is left as \<open>handle\<close> leaves it, and
  nothing of the connection is left. Relayed: the turns of the engine, one after the other, leave it as
  \<open>handle\<close> does on the chunks the engine has read from the appliance, and of the connection nothing but
  the relay, open or ended.
\<close>

theorem connection_alone_is_handle:
  assumes "map_of (sy_conns s) sock = None" "map_of (sy_taps s) sock = None" "list_all recv_fits rs"
  shows "(\<not> relays su first lg \<longrightarrow>
      sys_run su mo (ConnOpened sock first lg shaken # conn_events sock (first_family first) [] rs) s =
        s\<lparr>sy_net := snd (handle (live_chan su mo) (live_conn su lg shaken) sock first rs (sy_net s))\<rparr>) \<and>
    (relays su first lg \<and>
       passthrough_run (su_tls su) (live_chan su mo) fuel tns (fst (the lg)) (snd (the lg)) (sy_net s) = Some (c, u, ob, w) \<longrightarrow>
      w = snd (handle (live_chan su mo) (live_conn su lg shaken) sock first (map Data (got c)) (sy_net s)) \<and>
      sys_run su mo (ConnOpened sock first lg shaken # map (TapTurn sock fuel) tns) s \<in>
        {on_tap sock (c, u, ob) w s, passed sock (c, u, ob) w s})"
proof (intro conjI impI)
  let ?env = "live_chan su mo"
  have served: "sys_run su mo (ConnOpened sock first lg shaken # conn_events sock fam [] rs) s =
      s\<lparr>sy_net := snd (serve ?env sock fam rs (sy_net s))\<rparr>"
    if "opened su sock first lg shaken s = on_conn sock (idle_conn fam (JStr ''unknown'') [] []) (sy_net s) s" for fam
    using that loop_alone [OF assms(3), of su mo sock fam "[]" "JStr ''unknown''" "sy_net s" s]
    by (simp add: serve_def gone_def pop_fresh [OF assms(1)])
  assume no: "\<not> relays su first lg"
  show "sys_run su mo (ConnOpened sock first lg shaken # conn_events sock (first_family first) [] rs) s =
        s\<lparr>sy_net := snd (handle ?env (live_conn su lg shaken) sock first rs (sy_net s))\<rparr>"
  proof (cases "first = [] \<or> says_tls first \<and> \<not> shaken")
    case True
    with no assms(1,2) have "opened su sock first lg shaken s = s"
      by (auto simp: opened_def Let_def relays_def says_tls_def split: list.splits)
    moreover have "handle ?env (live_conn su lg shaken) sock first rs (sy_net s) = (Inr (), sy_net s)"
      using True no by (auto simp: handle_def live_conn_def relays_def says_tls_def split: list.splits)
    ultimately show ?thesis by (simp add: unknown_conn_events [OF assms(1)])
  next
    case False
    with no assms(1,2) have "opened su sock first lg shaken s =
        on_conn sock (idle_conn (first_family first) (JStr ''unknown'') [] []) (sy_net s) s"
      by (auto simp: opened_def Let_def relays_def says_tls_def first_family_def on_conn_def idle_conn_def split: list.splits)
    moreover have "handle ?env (live_conn su lg shaken) sock first rs (sy_net s) = serve ?env sock (first_family first) rs (sy_net s)"
      using False no by (auto simp: handle_def live_conn_def relays_def says_tls_def first_family_def split: list.splits)
    ultimately show ?thesis using served by simp
  qed
next
  assume r: "relays su first lg \<and>
    passthrough_run (su_tls su) (live_chan su mo) fuel tns (fst (the lg)) (snd (the lg)) (sy_net s) = Some (c, u, ob, w)"
  then obtain b bs where b: "first = b # bs" "code b = (22::nat)" by (auto simp: relays_def says_tls_def split: list.splits)
  from r b have "handle (live_chan su mo) (live_conn su lg shaken) sock first (map Data (got c)) (sy_net s) = (Inr (), w)"
    using handle_is_passthrough [of "su_tls su" "live_chan su mo" fuel tns "fst (the lg)" "snd (the lg)" "sy_net s" c u ob w
        "live_conn su lg shaken" b sock bs]
    by (simp add: relays_def live_conn_def)
  then show "w = snd (handle (live_chan su mo) (live_conn su lg shaken) sock first (map Data (got c)) (sy_net s))" by simp
  have "opened su sock first lg shaken s = on_tap sock (new_end (fst (the lg)), new_end (snd (the lg)), fresh_observer) (sy_net s) s"
    using r b assms(1,2) by (simp add: opened_def relays_def on_tap_def)
  then show "sys_run su mo (ConnOpened sock first lg shaken # map (TapTurn sock fuel) tns) s \<in>
        {on_tap sock (c, u, ob) w s, passed sock (c, u, ob) w s}"
    using r relay_alone [of su mo fuel tns _ _ fresh_observer "sy_net s" c u ob w sock s] by (simp add: passthrough_run_def)
qed

text \<open>The washer announces itself to the server after it has started, and then closes.\<close>

theorem connection_alone_is_handle_witness:
  "\<exists>x. encode_by Len4 sample_devinfo = Inr x \<and>
     sys_run sample_deployment sample_moment
       (ConnOpened 9 [byte_of 22] None True # conn_events 9 Len4 [] [Data (take 5 x), Data (drop 5 x)]) sample_boot =
     sample_boot\<lparr>sy_net := snd (handle (live_chan sample_deployment sample_moment) (live_conn sample_deployment None True)
       9 [byte_of 22] [Data (take 5 x), Data (drop 5 x)] (sy_net sample_boot))\<rparr>"
proof -
  obtain x where x: "encode_by Len4 sample_devinfo = Inr x" by (rule sample_devinfo_frames)
  then have "length x \<le> 4096"
    using sample_devinfo_short by (auto simp: encode_message_len4_def Let_def split: if_splits)
  then have fits: "list_all recv_fits [Data (take 5 x), Data (drop 5 x)]" by (auto simp: recv_fits_def)
  have fresh: "map_of (sy_conns sample_boot) 9 = None" "map_of (sy_taps sample_boot) 9 = None"
    by (simp_all add: sample_boot_def booted_def)
  have "\<not> relays sample_deployment [byte_of 22] None" "first_family [byte_of 22] = Len4"
    by (simp_all add: relays_def first_family_def says_tls_def)
  with connection_alone_is_handle [OF fresh fits, of sample_deployment "[byte_of 22]" None sample_moment True] x
  show ?thesis by auto
qed

end
