(* ===== verification/JsonIndent.thy ===== *)
theory JsonIndent
  imports Json_Roundtrip
begin

text \<open>
  Indented JSON as the tools write it: \<open>json.dumps\<close> with a width of indentation, with its texts escaped or
  not. Whatever quotes texts so that the scanner reads them back makes a document that is read back.
\<close>

section \<open>The text\<close>

definition line_break :: "nat \<Rightarrow> nat \<Rightarrow> str" where
  "line_break w d = CHR 10 # replicate (w * d) (CHR '' '')"

fun indented :: "nat \<Rightarrow> (str \<Rightarrow> str) \<Rightarrow> nat \<Rightarrow> json \<Rightarrow> str"
  and indented_elems :: "nat \<Rightarrow> (str \<Rightarrow> str) \<Rightarrow> nat \<Rightarrow> json list \<Rightarrow> str"
  and indented_members :: "nat \<Rightarrow> (str \<Rightarrow> str) \<Rightarrow> nat \<Rightarrow> (str \<times> json) list \<Rightarrow> str" where
  "indented w q d JNull = ''null''"
| "indented w q d (JBool b) = (if b then ''true'' else ''false'')"
| "indented w q d (JInt n) = int_str n"
| "indented w q d (JReal t) = t"
| "indented w q d (JStr s) = q s"
| "indented w q d (JArr xs) = (if xs = [] then ''[]'' else CHR ''['' # line_break w (Suc d) @ indented_elems w q (Suc d) xs @ line_break w d @ '']'')"
| "indented w q d (JObj ps) = (if ps = [] then ''{}'' else CHR ''{'' # line_break w (Suc d) @ indented_members w q (Suc d) ps @ line_break w d @ ''}'')"
| "indented_elems w q d [] = []"
| "indented_elems w q d (x # xs) = indented w q d x @ (if xs = [] then [] else (CHR '','' # line_break w d) @ indented_elems w q d xs)"
| "indented_members w q d [] = []"
| "indented_members w q d ((s, x) # ps) =
     q s @ '': '' @ indented w q d x @ (if ps = [] then [] else (CHR '','' # line_break w d) @ indented_members w q d ps)"

section \<open>Reading it back\<close>

lemma blank_num_stop: "list_all is_json_space r \<Longrightarrow> num_stop r"
  by (cases r) (auto simp: num_stop_def is_json_space_def is_digit_def)

lemma line_break_space: "list_all is_json_space (line_break w d)"
  by (simp add: line_break_def list_all_iff is_json_space_def)

lemma skip_line_break [simp]: "skip_ws (line_break w d @ s) = skip_ws s"
  by (rule skip_ws_spaces [OF line_break_space])

lemma sep_ok_line_break: "sep_ok (CHR '','') (CHR '','' # line_break w d)"
  using line_break_space by (auto simp: sep_ok_def)

lemma num_stop_line_break [simp]: "num_stop (line_break w d @ r)"
  by (simp add: line_break_def num_stop_def is_digit_def)

lemma scan_sep_line_break [simp]:
  "c \<in> {CHR '']'', CHR ''}''} \<Longrightarrow> scan_sep c (line_break w d @ c # r) = Some (True, r)"
  by (auto simp: scan_sep_def)

text \<open>What a quoting promises: the text between its quotes is scanned to what was quoted.\<close>

locale json_quoting =
  fixes q :: "str \<Rightarrow> str"
  assumes quoted: "str_ok s \<Longrightarrow> \<exists>body. q s = CHR 0x22 # body \<and> (\<forall>r. scan_str (body @ r) = Some (s, r))"
begin

lemma quoted_key: "str_ok s \<Longrightarrow> starts_value r \<Longrightarrow> scan_key (q s @ '': '' @ r) = Some (s, r)"
  using quoted [of s] by (auto simp: scan_key_def is_json_space_def)

lemma quoted_text: "str_ok s \<Longrightarrow> scan_val (Suc f) (q s @ r) = Some (JStr s, r)"
  using quoted [of s] by auto

lemma quoted_starts: "str_ok s \<Longrightarrow> starts_value (q s) \<and> q s \<noteq> [] \<and> hd (q s) = CHR 0x22"
  using quoted [of s] by (auto simp: starts_value_def is_json_space_def)

lemma indented_starts: "json_ok v \<Longrightarrow> starts_value (indented w q d v)"
  by (cases v) (simp_all add: quoted_starts, auto simp: starts_value_def is_json_space_def)

lemma indented_list_starts:
  "list_all json_ok xs \<Longrightarrow> xs \<noteq> [] \<Longrightarrow> starts_value (indented_elems w q d xs)"
  "list_all (\<lambda>(s, x). str_ok s \<and> json_ok x) ps \<Longrightarrow> ps \<noteq> [] \<Longrightarrow> starts_value (indented_members w q d ps)"
  by (cases xs; simp add: indented_starts) (cases ps; auto simp: quoted_starts)

end

lemma indented_roundtrip:
  shows "json_quoting q \<Longrightarrow> json_ok v \<Longrightarrow> num_stop r \<Longrightarrow> 2 * length (indented w q d v) + 1 \<le> f \<Longrightarrow> scan_val f (indented w q d v @ r) = Some (v, r)"
    and "json_quoting q \<Longrightarrow> list_all json_ok xs \<Longrightarrow> xs \<noteq> [] \<Longrightarrow> 2 * length (indented_elems w q d xs) + 2 \<le> f \<Longrightarrow>
      scan_elems f (indented_elems w q d xs @ line_break w e @ CHR '']'' # r) = Some (xs, r)"
    and "json_quoting q \<Longrightarrow> list_all (\<lambda>(s, x). str_ok s \<and> json_ok x) ps \<Longrightarrow> ps \<noteq> [] \<Longrightarrow> 2 * length (indented_members w q d ps) + 2 \<le> f \<Longrightarrow>
      scan_members f (indented_members w q d ps @ line_break w e @ CHR ''}'' # r) = Some (ps, r)"
proof (induction w q d v and w q d xs and w q d ps arbitrary: f r and f r e and f r e rule: indented_indented_elems_indented_members.induct)
  case (1 w q d)
  then show ?case by (cases f) (simp_all add: scan_const_def startswith_def)
next
  case (2 w q d b)
  then show ?case by (cases f) (auto simp: scan_const_def startswith_def)
next
  case (3 w q d n)
  then show ?case by (cases f) (simp_all add: scan_val_int del: scan_val.simps(2))
next
  case (5 w q d s)
  then show ?case by (cases f) (simp_all add: json_quoting.quoted_text del: scan_val.simps(2))
next
  case (6 w q d xs)
  then obtain f' where f: "f = Suc f'" by (cases f) auto
  show ?case
  proof (cases "xs = []")
    case False
    then have "starts_value (indented_elems w q (Suc d) xs @ line_break w d @ CHR '']'' # r)"
      using "6.prems" by (simp add: json_quoting.indented_list_starts)
    with 6 False f show ?thesis by simp
  qed (simp add: f)
next
  case (7 w q d ps)
  then obtain f' where f: "f = Suc f'" by (cases f) auto
  show ?case
  proof (cases "ps = []")
    case False
    then have "starts_value (indented_members w q (Suc d) ps @ line_break w d @ CHR ''}'' # r)"
      using "7.prems" by (simp add: json_quoting.indented_list_starts)
    with 7 False f show ?thesis by (simp add: dict_of_distinct)
  qed (simp add: f)
next
  case (9 w q d x xs)
  then obtain f' where f: "f = Suc f'" by (cases f) auto
  define t where "t = (if xs = [] then [] else (CHR '','' # line_break w d) @ indented_elems w q d xs) @ line_break w e @ CHR '']'' # r"
  have "num_stop t" by (simp add: t_def)
  then have head: "scan_val f' (indented w q d x @ t) = Some (x, t)" using 9 f by simp
  show ?case
  proof (cases "xs = []")
    case True
    then show ?thesis using head f by (simp add: t_def)
  next
    case False
    have "scan_elems f' (indented_elems w q d xs @ line_break w e @ CHR '']'' # r) = Some (xs, r)"
      by (rule "9.IH"(2)) (use "9.prems" False f json_quoting.indented_starts [of q x w d] in \<open>auto simp: starts_value_def\<close>)
    moreover have "starts_value (indented_elems w q d xs @ line_break w e @ CHR '']'' # r)"
      using "9.prems" False by (simp add: json_quoting.indented_list_starts)
    ultimately show ?thesis using head f False scan_sep_comma [OF sep_ok_line_break [of w d], of _ "CHR '']''"] by (simp add: t_def)
  qed
next
  case (11 w q d s x ps)
  then obtain f' where f: "f = Suc f'" by (cases f) auto
  define t where "t = (if ps = [] then [] else (CHR '','' # line_break w d) @ indented_members w q d ps) @ line_break w e @ CHR ''}'' # r"
  have "num_stop t" by (simp add: t_def)
  then have head: "scan_val f' (indented w q d x @ t) = Some (x, t)" using 11 f by simp
  have key: "scan_key (q s @ '': '' @ indented w q d x @ t) = Some (s, indented w q d x @ t)"
    using "11.prems" by (intro json_quoting.quoted_key) (simp_all add: json_quoting.indented_starts)
  have whole: "indented_members w q d ((s, x) # ps) @ line_break w e @ CHR ''}'' # r = q s @ '': '' @ indented w q d x @ t"
    by (simp add: t_def)
  show ?case
  proof (cases "ps = []")
    case True
    then show ?thesis unfolding whole using head key f by (simp add: t_def)
  next
    case False
    have "scan_members f' (indented_members w q d ps @ line_break w e @ CHR ''}'' # r) = Some (ps, r)"
      by (rule "11.IH"(2)) (use "11.prems" False f json_quoting.quoted_starts [of q s] in auto)
    moreover have "starts_value (indented_members w q d ps @ line_break w e @ CHR ''}'' # r)"
      using "11.prems" False by (simp add: json_quoting.indented_list_starts)
    ultimately have "scan_sep (CHR ''}'') t = Some (False, indented_members w q d ps @ line_break w e @ CHR ''}'' # r)"
      "scan_members f' (indented_members w q d ps @ line_break w e @ CHR ''}'' # r) = Some (ps, r)"
      using scan_sep_comma [OF sep_ok_line_break [of w d], of _ "CHR ''}''"] False by (simp_all add: t_def)
    then show ?thesis unfolding whole using head key f by simp
  qed
qed simp_all

context json_quoting
begin

lemma loads_indented:
  assumes ok: "json_ok v" and blank: "list_all is_json_space r"
  shows "loads (indented w q 0 v @ r) = Some v"
proof -
  let ?s = "indented w q 0 v @ r"
  have starts: "starts_value ?s" using ok by (simp add: indented_starts)
  have "code (hd ?s) < (128::nat)"
  proof (cases v)
    case (JInt i)
    obtain c cs where "nat_str (nat \<bar>i\<bar>) = c # cs" "is_digit c" by (rule nat_str_hd)
    with JInt show ?thesis by (auto simp: int_str_def is_digit_def)
  qed (use ok in \<open>auto simp: quoted_starts\<close>)
  then have "\<not> startswith ?s bom" using starts by (cases ?s) (auto simp: startswith_def bom_def starts_value_def)
  moreover have "scan_val (2 * length ?s + 1) ?s = Some (v, r)"
    using ok blank json_quoting_axioms by (intro indented_roundtrip(1)) (simp_all add: blank_num_stop)
  moreover have "skip_ws r = []" using skip_ws_spaces [OF blank, of "[]"] by simp
  ultimately show ?thesis using starts by (simp add: loads_def)
qed

end

section \<open>The two quotings\<close>

text \<open>
  With \<open>ensure_ascii=False\<close> only quotes, backslashes and control characters are
  escaped.
\<close>

definition esc_raw :: "char \<Rightarrow> str" where
  "esc_raw c = (if code c < (32::nat) \<or> c = CHR 0x22 \<or> c = CHR 0x5C then esc_cp (code c) else [c])"

definition quote_raw :: "str \<Rightarrow> str" where
  "quote_raw s = CHR 0x22 # concat (map esc_raw s) @ [CHR 0x22]"

lemma scan_str_esc_raw: "scan_str (esc_raw c @ t) = map_option (apfst ((#) c)) (scan_str t)"
proof (cases "code c < (32::nat) \<or> c = CHR 0x22 \<or> c = CHR 0x5C")
  case True
  then have "code c < (128::nat)" by auto
  then have "is_scalar (code c)" "enc_cp (code c) = [c]" by (simp_all add: is_scalar_def is_surrogate_def enc_cp_def)
  with True show ?thesis using scan_str_esc_cp [of "code c" t] by (simp add: esc_raw_def)
qed (simp add: esc_raw_def)

lemma scan_str_raw: "scan_str (concat (map esc_raw s) @ CHR 0x22 # r) = Some (s, r)"
  by (induction s) (simp_all add: scan_str_esc_raw)

interpretation raw_text: json_quoting quote_raw
  by unfold_locales (auto simp: quote_raw_def scan_str_raw)

interpretation ascii_text: json_quoting quote
  by unfold_locales (auto simp: quote_def)

end
