(* ===== verification/Utf8_Text.thy ===== *)
theory Utf8_Text
  imports Utf8
begin

text \<open>
  Well-formed text: decoding bytes, with replacement where they are ill formed, always gives text that is
  a sequence of encoded code points, and so does cutting a text at its ASCII characters, which is what
  the searches of the program do.
\<close>

section \<open>Code points\<close>

lemma two_bytes: "(n::nat) < 2048 \<Longrightarrow> n div 64 < 32"
  by (simp add: less_mult_imp_div_less)

lemma three_bytes: "(n::nat) < 65536 \<Longrightarrow> n div 4096 < 16" "n div 4096 * 4096 + n div 64 mod 64 * 64 + n mod 64 = n"
proof -
  have "n = n div 64 * 64 + n mod 64" "n div 64 = n div 64 div 64 * 64 + n div 64 mod 64" by simp_all
  moreover have "n div 4096 = n div 64 div 64" by (simp add: div_mult2_eq [symmetric])
  ultimately show "n div 4096 * 4096 + n div 64 mod 64 * 64 + n mod 64 = n" by linarith
qed (simp add: less_mult_imp_div_less)

lemma four_bytes: "(n::nat) < 1114112 \<Longrightarrow> n div 262144 < 5"
    "n div 262144 * 262144 + n div 4096 mod 64 * 4096 + n div 64 mod 64 * 64 + n mod 64 = n"
proof -
  have "n div 4096 = n div 4096 div 64 * 64 + n div 4096 mod 64" by simp
  moreover have "n div 262144 = n div 4096 div 64" by (simp add: div_mult2_eq [symmetric])
  ultimately show "n div 262144 * 262144 + n div 4096 mod 64 * 4096 + n div 64 mod 64 * 64 + n mod 64 = n"
    using three_bytes(2) [of n] by linarith
qed (simp add: less_mult_imp_div_less)

lemma next_cp_enc:
  assumes "is_scalar n"
  shows "next_cp (enc_cp n @ r) = (n, r)"
proof -
  have n: "n < 1114112" using assms by (simp add: is_scalar_def)
  consider "n < 128" | "\<not> n < 128" "n < 2048" | "\<not> n < 2048" "n < 65536" | "\<not> n < 65536" by blast
  then show ?thesis
  proof cases
    case 2
    then show ?thesis using two_bytes [of n] by (simp add: next_cp_def enc_cp_def)
  next
    case 3
    then show ?thesis using three_bytes [of n] by (simp add: next_cp_def enc_cp_def)
  next
    case 4
    then show ?thesis using four_bytes [of n] n by (simp add: next_cp_def enc_cp_def)
  qed (simp add: next_cp_def enc_cp_def)
qed

lemma str_ok_enc: "is_scalar n \<Longrightarrow> str_ok (enc_cp n @ r) = str_ok r"
  by (subst str_ok.simps) (simp add: next_cp_enc)

lemma str_ok_append: "str_ok a \<Longrightarrow> str_ok b \<Longrightarrow> str_ok (a @ b)"
  by (induction a rule: str_ok_induct) (simp_all add: str_ok_enc)

lemma enc_cp_ascii: "c \<in> set (enc_cp n) \<Longrightarrow> code c < (128::nat) \<Longrightarrow> is_scalar n \<Longrightarrow> enc_cp n = [c]"
  using two_bytes [of n] three_bytes(1) [of n] four_bytes(1) [of n]
  by (auto simp: enc_cp_def is_scalar_def split: if_splits)

text \<open>Cut at an ASCII character, a text falls into two.\<close>

lemma str_ok_cut:
  assumes "str_ok s" "s = a @ c # b" "code c < (128::nat)"
  shows "str_ok a \<and> str_ok b"
  using assms(1,2)
proof (induction s arbitrary: a rule: str_ok_induct)
  case (Cp n r)
  show ?case
  proof (cases "c \<in> set (take (length (enc_cp n) - length a) (c # b)) \<and> length a < length (enc_cp n)")
    case True
    then have "c \<in> set (enc_cp n)" using Cp.prems
      by (metis append_eq_append_conv_if in_set_conv_nth nth_append_length nth_append)
    then have "enc_cp n = [c]" using enc_cp_ascii assms(3) Cp by blast
    then show ?thesis using Cp True by (cases a) auto
  next
    case False
    then have "length (enc_cp n) \<le> length a" by (cases "length (enc_cp n) - length a") auto
    then obtain a' where "a = enc_cp n @ a'" "r = a' @ c # b"
      using Cp.prems by (metis append_eq_append_conv2 append_eq_append_conv_if append_take_drop_id)
    then show ?thesis using Cp by (simp add: str_ok_enc)
  qed
qed simp

text \<open>A sequence the decoder keeps is the encoding of a code point.\<close>

section \<open>Decoded bytes\<close>

lemma enc_two:
  assumes "2 \<le> x" "x < 32" "y < 64"
  shows "enc_cp (x * 64 + y) = [char_of (192 + x), char_of (128 + y)]" "is_scalar (x * 64 + y)"
proof -
  have "(x * 64 + y) div 64 = x" "(x * 64 + y) mod 64 = y" "128 \<le> x * 64 + y" "x * 64 + y < 2048" using assms by simp_all
  then show "enc_cp (x * 64 + y) = [char_of (192 + x), char_of (128 + y)]" "is_scalar (x * 64 + y)"
    by (simp_all add: enc_cp_def is_scalar_def is_surrogate_def)
qed

lemma digit_last: "z < 64 \<Longrightarrow> (a * 64 + z) div 64 = (a::nat)" "z < 64 \<Longrightarrow> (a * 64 + z) mod 64 = z"
  by simp_all

lemma enc_three:
  assumes "x < 16" "y < 64" "z < 64" "x = 0 \<longrightarrow> 32 \<le> y" "x = 13 \<longrightarrow> y < 32"
  shows "enc_cp (x * 4096 + y * 64 + z) = [char_of (224 + x), char_of (128 + y), char_of (128 + z)]"
    "is_scalar (x * 4096 + y * 64 + z)"
proof -
  let ?m = "x * 4096 + y * 64 + z"
  have m: "?m = (x * 64 + y) * 64 + z" by simp
  have d: "?m div 64 = x * 64 + y" "?m mod 64 = z" unfolding m using assms(3) by (rule digit_last)+
  have "?m div 4096 = ?m div 64 div 64" by (simp add: div_mult2_eq [symmetric])
  then have "?m div 4096 = x" "?m div 64 mod 64 = y" using d(1) assms(2) by simp_all
  moreover have "2048 \<le> ?m" using assms(4) by (cases "x = 0") simp_all
  moreover have "?m < 65536" using assms by linarith
  moreover have "\<not> is_surrogate ?m"
    using assms by (cases x "13::nat" rule: linorder_cases) (simp_all add: is_surrogate_def)
  ultimately show "enc_cp ?m = [char_of (224 + x), char_of (128 + y), char_of (128 + z)]" "is_scalar ?m"
    using d(2) by (simp_all add: enc_cp_def is_scalar_def)
qed

lemma enc_four:
  assumes "x < 5" "y < 64" "z < 64" "w < 64" "x = 0 \<longrightarrow> 16 \<le> y" "x = 4 \<longrightarrow> y < 16"
  shows "enc_cp (x * 262144 + y * 4096 + z * 64 + w) = [char_of (240 + x), char_of (128 + y), char_of (128 + z), char_of (128 + w)]"
    "is_scalar (x * 262144 + y * 4096 + z * 64 + w)"
proof -
  let ?m = "x * 262144 + y * 4096 + z * 64 + w"
  have m: "?m = ((x * 64 + y) * 64 + z) * 64 + w" by simp
  have d: "?m div 64 = (x * 64 + y) * 64 + z" "?m mod 64 = w" unfolding m using assms(4) by (rule digit_last)+
  have e: "?m div 4096 = ?m div 64 div 64" "?m div 262144 = ?m div 64 div 64 div 64" by (simp_all add: div_mult2_eq [symmetric])
  have "?m div 64 mod 64 = z" "?m div 64 div 64 = x * 64 + y" unfolding d(1) using assms(3) by (rule digit_last)+
  with e have "?m div 64 mod 64 = z" "?m div 4096 mod 64 = y" "?m div 262144 = x" using assms(2) by simp_all
  moreover have "65536 \<le> ?m" using assms(5) by (cases "x = 0") simp_all
  moreover have "?m < 1114112" using assms by (cases "x = 4") simp_all
  ultimately show "enc_cp ?m = [char_of (240 + x), char_of (128 + y), char_of (128 + z), char_of (128 + w)]" "is_scalar ?m"
    using d(2) by (simp_all add: enc_cp_def is_scalar_def is_surrogate_def)
qed

lemma byte_above: "(k::nat) \<le> code c \<Longrightarrow> \<exists>x. code c = k + x \<and> c = char_of (k + x)"
  by (metis le_iff_add char_of_char)

lemma conts_next: "conts_present False b i (Suc n) bs = Suc n \<Longrightarrow>
    \<exists>c r. bs = c # r \<and> cont_ok False b i c \<and> conts_present False b (Suc i) n r = n"
  by (cases bs) (auto split: if_splits)

lemma cont_byte:
  "cont_ok False b i c \<Longrightarrow> \<exists>x. code c = 128 + x \<and> c = char_of (128 + x) \<and> x < (64::nat)"
  using byte_above [of 128 c] by (auto simp: cont_ok_def Let_def split: if_splits)
text \<open>A sequence the decoder keeps is the encoding of a code point.\<close>

lemma kept_two:
  assumes "194 \<le> (code b::nat)" "code b < (224::nat)" "cont_ok False b 1 c"
  shows "\<exists>m. is_scalar m \<and> enc_cp m = [b, c]"
proof -
  obtain x where x: "code b = 192 + x" "b = char_of (192 + x)" using byte_above [of 192 b] assms(1) by auto
  obtain y where y: "c = char_of (128 + y)" "y < (64::nat)" using cont_byte [OF assms(3)] by blast
  have "2 \<le> x" "x < 32" using assms(1,2) unfolding x(1) by simp_all
  then show ?thesis using enc_two [of x y] x(2) y by blast
qed

lemma kept_three:
  assumes "224 \<le> (code b::nat)" "code b < (240::nat)" "cont_ok False b 1 c" "cont_ok False b 2 d"
  shows "\<exists>m. is_scalar m \<and> enc_cp m = [b, c, d]"
proof -
  obtain x where x: "code b = 224 + x" "b = char_of (224 + x)" using byte_above [of 224 b] assms(1) by auto
  obtain y where y: "code c = 128 + y" "c = char_of (128 + y)" "y < (64::nat)" using cont_byte [OF assms(3)] by blast
  obtain z where z: "d = char_of (128 + z)" "z < (64::nat)" using cont_byte [OF assms(4)] by blast
  have "x < 16" using assms(2) unfolding x(1) by simp
  moreover have "x = 0 \<longrightarrow> 32 \<le> y" "x = 13 \<longrightarrow> y < 32"
    using assms(3) unfolding cont_ok_def Let_def x(1) y(1) by (auto split: if_splits)
  ultimately show ?thesis using enc_three [of x y z] x(2) y(2,3) z by blast
qed

lemma kept_four:
  assumes "240 \<le> (code b::nat)" "code b < (245::nat)" "cont_ok False b 1 c" "cont_ok False b 2 d" "cont_ok False b 3 e"
  shows "\<exists>m. is_scalar m \<and> enc_cp m = [b, c, d, e]"
proof -
  obtain x where x: "code b = 240 + x" "b = char_of (240 + x)" using byte_above [of 240 b] assms(1) by auto
  obtain y where y: "code c = 128 + y" "c = char_of (128 + y)" "y < (64::nat)" using cont_byte [OF assms(3)] by blast
  obtain z where z: "d = char_of (128 + z)" "z < (64::nat)" using cont_byte [OF assms(4)] by blast
  obtain w where w: "e = char_of (128 + w)" "w < (64::nat)" using cont_byte [OF assms(5)] by blast
  have "x < 5" using assms(2) unfolding x(1) by simp
  moreover have "x = 0 \<longrightarrow> 16 \<le> y" "x = 4 \<longrightarrow> y < 16"
    using assms(3) unfolding cont_ok_def Let_def x(1) y(1) by (auto split: if_splits)
  ultimately show ?thesis using enc_four [of x y z w] x(2) y(2,3) z w by blast
qed

lemma kept_sequence:
  assumes "seq_len b \<noteq> 0" "conts_present False b 1 (seq_len b - 1) bs = seq_len b - 1"
  shows "\<exists>m. is_scalar m \<and> enc_cp m = b # take (seq_len b - 1) bs"
proof -
  consider "code b < (128::nat)" | "194 \<le> (code b::nat)" "code b < (224::nat)" | "224 \<le> (code b::nat)" "code b < (240::nat)"
    | "240 \<le> (code b::nat)" "code b < (245::nat)"
    using assms(1) by (fastforce simp: seq_len_def Let_def split: if_splits)
  then show ?thesis
  proof cases
    case 1
    then show ?thesis by (intro exI [of _ "code b"]) (simp add: enc_cp_def is_scalar_def is_surrogate_def seq_len_def)
  next
    case 2
    then have n: "seq_len b = 2" by (simp add: seq_len_def)
    obtain c r where "bs = c # r" "cont_ok False b 1 c" using conts_next [of b 1 0 bs] assms(2) n by auto
    then show ?thesis using kept_two [OF 2] n by simp
  next
    case 3
    then have n: "seq_len b = 3" by (simp add: seq_len_def)
    obtain c r where c: "bs = c # r" "cont_ok False b 1 c" "conts_present False b 2 1 r = 1"
      using conts_next [of b 1 1 bs] assms(2) n by (auto simp: numeral_2_eq_2)
    obtain d q where "r = d # q" "cont_ok False b 2 d" using conts_next [of b 2 0 r] c(3) by auto
    then show ?thesis using kept_three [OF 3 c(2)] n c(1) by (simp add: numeral_2_eq_2)
  next
    case 4
    then have n: "seq_len b = 4" by (simp add: seq_len_def)
    obtain c r where c: "bs = c # r" "cont_ok False b 1 c" "conts_present False b 2 2 r = 2"
      using conts_next [of b 1 2 bs] assms(2) n by (auto simp: numeral_2_eq_2 numeral_3_eq_3)
    obtain d q where d: "r = d # q" "cont_ok False b 2 d" "conts_present False b 3 1 q = 1"
      using conts_next [of b 2 1 r] c(3) by (auto simp: numeral_2_eq_2 numeral_3_eq_3)
    obtain e p where "q = e # p" "cont_ok False b 3 e" using conts_next [of b 3 0 q] d(3) by auto
    then show ?thesis using kept_four [OF 4 c(2) d(2)] n c(1) d(1) by (simp add: numeral_3_eq_3)
  qed
qed

lemma str_ok_replacement: "str_ok (replacement @ s) = str_ok s"
  using enc_three [of 15 63 61] str_ok_enc [of "15 * 4096 + 63 * 64 + 61" s] by (simp add: replacement_def)

lemma str_ok_utf8_replace: "str_ok (utf8_replace bs)"
proof (induction bs rule: utf8_replace.induct)
  case (2 b bs)
  let ?k = "conts_present False b 1 (seq_len b - 1) bs"
  have rest: "str_ok (utf8_replace (drop ?k bs))" using 2 by (cases "seq_len b \<noteq> 0 \<and> ?k = seq_len b - 1") auto
  show ?case
  proof (cases "seq_len b \<noteq> 0 \<and> ?k = seq_len b - 1")
    case True
    then obtain m where "is_scalar m" "enc_cp m = b # take ?k bs" using kept_sequence [of b bs] by auto
    then have "str_ok ((b # take ?k bs) @ utf8_replace (drop ?k bs))" using rest str_ok_enc by metis
    moreover have "utf8_replace (b # bs) = (b # take ?k bs) @ utf8_replace (drop ?k bs)" using True by (simp add: Let_def)
    ultimately show ?thesis by simp
  next
    case False
    then show ?thesis using rest by (auto simp: Let_def str_ok_replacement)
  qed
qed simp

section \<open>Pieces of a text\<close>

lemma str_ok_takeWhile:
  assumes "str_ok s" "\<And>c. \<not> P c \<Longrightarrow> code c < (128::nat)"
  shows "str_ok (takeWhile P s)"
proof (cases "dropWhile P s")
  case Nil
  then have "takeWhile P s = s" by (metis append_Nil2 takeWhile_dropWhile_id)
  then show ?thesis using assms(1) by (simp only:)
next
  case (Cons c b)
  then have "s = takeWhile P s @ c # b" using takeWhile_dropWhile_id [of P s] by simp
  moreover have "\<not> P c" using hd_dropWhile [of P s] Cons by simp
  ultimately show ?thesis using str_ok_cut assms by blast
qed

lemma re_search_split: "re_search m s = Some x \<Longrightarrow> \<exists>a b n. s = a @ b \<and> m b = Some (x, n)"
proof (induction s)
  case (Cons c s)
  then show ?case
  proof (cases "m (c # s)")
    case None
    then obtain a b n where "s = a @ b" "m b = Some (x, n)" using Cons by auto
    then show ?thesis by (metis append_Cons)
  next
    case (Some y)
    then obtain n where "m (c # s) = Some (x, n)" using Cons.prems by (cases y) auto
    then show ?thesis by (metis append_Nil)
  qed
qed auto

lemma str_ok_behind: "str_ok (a @ p @ b) \<Longrightarrow> p \<noteq> [] \<Longrightarrow> is_ascii p \<Longrightarrow> str_ok b"
proof (induction p arbitrary: a)
  case (Cons c p)
  then have "str_ok (p @ b)" using str_ok_cut [of "a @ (c # p) @ b" a c "p @ b"] by simp
  then show ?case using Cons.IH [of "[]"] Cons.prems by (cases "p = []") simp_all
qed simp

end
