(* ===== verification/ReplayExtract.thy ===== *)
theory ReplayExtract
  imports Replay RelayLog JsonIndent Utf8_Text
begin

text \<open>
  \<open>tools/extract_replay_store.py\<close>: the replay store is made from the relay's log of the :46030 port.
  The lines of the log are the input; what the tool writes is the text of the store's file, which
  \<open>server/replay.py\<close> reads.
\<close>

section \<open>Reading a response\<close>

fun split_first :: "str \<Rightarrow> str \<Rightarrow> (str \<times> str) option" where
  "split_first sep [] = (if sep = [] then Some ([], []) else None)"
| "split_first sep (c # cs) =
     (if startswith (c # cs) sep then Some ([], drop (length sep) (c # cs))
      else map_option (apfst ((#) c)) (split_first sep cs))"

definition blank_line_sep :: bytes where
  [const_defs]: "blank_line_sep = [CHR 13, CHR 10, CHR 13, CHR 10]"

text \<open>\<open>Content-Length:\s*(\d+)\<close>, in any case.\<close>

definition match_length :: "nat scanner" where
  "match_length s =
     (if py_lower (take 15 s) = ''content-length:'' then
        (let r = dropWhile is_hex_space (drop 15 s); n = takeWhile is_digit r in
         if n \<noteq> [] then Some (digits_val n, length s - length r + length n) else None)
      else None)"

definition parse_response :: "bytes \<Rightarrow> (str \<times> str) option" where
  "parse_response buf =
     (if \<not> startswith buf ''HTTP'' then None
      else do {
        (head, rest) \<leftarrow> split_first blank_line_sep buf;
        n \<leftarrow> re_search match_length head;
        if length rest < n then None else Some (utf8_replace head, utf8_replace (take n rest)) })"

section \<open>Following the connections\<close>

record capture =
  endpoint :: "str option"
  cap_item :: str
  up_buf :: bytes
  response_of :: "(str \<times> str) option"

definition new_capture :: capture where
  "new_capture = \<lparr>endpoint = None, cap_item = [], up_buf = [], response_of = None\<rparr>"

definition entry_of :: "str \<times> str \<Rightarrow> json" where
  "entry_of r = JObj [(''response_headers'', JStr (fst r)), (''response_body'', JStr (snd r))]"

text \<open>The first response for an endpoint and item is kept.\<close>

definition keep_capture :: "capture \<Rightarrow> jdict \<Rightarrow> jdict" where
  "keep_capture c pairs =
     (case (response_of c, endpoint c) of
        (Some r, Some ep) \<Rightarrow>
          let key = ep @ ''|'' @ cap_item c in
          if dict_get pairs key = None then dict_set pairs key (entry_of r) else pairs
      | _ \<Rightarrow> pairs)"

definition match_chunk :: "str \<Rightarrow> str scanner" where
  "match_chunk label s = do {
     r1 \<leftarrow> scan_lit (label @ '' len='') s;
     r2 \<leftarrow> scan_digits r1;
     r3 \<leftarrow> scan_lit '' hex='' r2;
     let hex = takeWhile is_low_hex r3;
     if hex \<noteq> [] then Some (hex, length s - length r3 + length hex) else None }"

definition match_post :: "str scanner" where
  "match_post s = do {
     r \<leftarrow> scan_lit ''POST '' s;
     let v = takeWhile (\<lambda>c. \<not> is_space c) r;
     if v \<noteq> [] then Some (v, 5 + length v) else None }"

definition match_item_tag :: "str scanner" where
  "match_item_tag s = do {
     r \<leftarrow> scan_lit ''<item>'' s;
     let v = takeWhile (\<lambda>c. c \<noteq> CHR ''<'') r;
     if startswith (dropWhile (\<lambda>c. c \<noteq> CHR ''<'') r) ''</item>'' then Some (v, 13 + length v) else None }"

definition note_request :: "bytes \<Rightarrow> capture \<Rightarrow> capture" where
  "note_request b c =
     (let text = utf8_replace b in
      c\<lparr>endpoint := re_search match_post text,
        cap_item := (case re_search match_item_tag text of None \<Rightarrow> [] | Some i \<Rightarrow> i)\<rparr>)"

definition note_response :: "bytes \<Rightarrow> capture \<times> jdict \<Rightarrow> capture \<times> jdict" where
  "note_response b x = (case x of (c, pairs) \<Rightarrow>
     let c1 = c\<lparr>up_buf := up_buf c @ b\<rparr> in
     (case parse_response (up_buf c1) of
        None \<Rightarrow> (c1, pairs)
      | Some r \<Rightarrow> let c2 = c1\<lparr>response_of := Some r\<rparr> in (c2, keep_capture c2 pairs)))"

text \<open>A response without a length ends with its connection.\<close>

definition close_capture :: "capture \<Rightarrow> capture" where
  "close_capture c =
     (if response_of c = None \<and> startswith (up_buf c) ''HTTP'' then
        (case split_first blank_line_sep (up_buf c) of
           None \<Rightarrow> c
         | Some (head, rest) \<Rightarrow> c\<lparr>response_of := Some (utf8_replace head, utf8_replace rest)\<rparr>)
      else c)"

definition unhex :: "str \<Rightarrow> bytes res" where
  "unhex hex = res_of_option ValueError (from_hex hex)"

definition chunk_step :: "str \<Rightarrow> capture \<times> jdict \<Rightarrow> (capture \<times> jdict) res" where
  "chunk_step line x = (case x of (c, pairs) \<Rightarrow>
     rbind (case re_search (match_chunk ''C->U'') line of
         Some hex \<Rightarrow> if endpoint c = None then rbind (unhex hex) (\<lambda>b. Inr (note_request b c)) else Inr c
       | None \<Rightarrow> Inr c) (\<lambda>c1.
     case re_search (match_chunk ''U->C'') line of
         Some hex \<Rightarrow>
           if response_of c1 = None then rbind (unhex hex) (\<lambda>b. Inr (note_response b (c1, pairs)))
           else Inr (c1, pairs)
       | None \<Rightarrow> Inr (c1, pairs)))"

fun extract_lines :: "str list \<Rightarrow> capture option \<Rightarrow> jdict \<Rightarrow> jdict res" where
  "extract_lines [] conn pairs = Inr pairs"
| "extract_lines (l # ls) conn pairs =
     (if sublist ''relay open'' l then extract_lines ls (Some new_capture) pairs
      else case conn of
          None \<Rightarrow> extract_lines ls None pairs
        | Some c \<Rightarrow>
            if sublist ''relay closed'' l then extract_lines ls None (keep_capture (close_capture c) pairs)
            else rbind (chunk_step l (c, pairs)) (\<lambda>(c', pairs'). extract_lines ls (Some c') pairs'))"

definition extract_store :: "str list \<Rightarrow> jdict res" where
  "extract_store ls = extract_lines ls None []"

text \<open>
  What \<open>main\<close> does: it exits with an error when there is no pair; else it writes \<open>json.dump(pairs, indent=1)\<close> to
  the file it is given and lists the endpoints.
\<close>

datatype extraction = NoPairs | StoreWritten str str "str list"

definition extract_main :: "str \<Rightarrow> str list \<Rightarrow> extraction res" where
  "extract_main out ls = rbind (extract_store ls) (\<lambda>pairs.
     Inr (if pairs = [] then NoPairs
          else StoreWritten out (indented 1 quote 0 (JObj pairs))
            ((''Replay store: '' @ out @ '' ('' @ nat_str (length pairs) @ '' endpoints)'') # map (\<lambda>ep. ''  '' @ ep) (dict_keys pairs))))"

section \<open>The store is text\<close>

text \<open>
  Whatever bytes the log holds, what the tool keeps of them are well-formed texts under distinct keys: the file it
  writes is read back.
\<close>

definition capture_ok :: "capture \<Rightarrow> bool" where
  "capture_ok c \<longleftrightarrow> pred_option str_ok (endpoint c) \<and> str_ok (cap_item c) \<and>
     pred_option (\<lambda>(h, b). str_ok h \<and> str_ok b) (response_of c)"

definition pairs_ok :: "jdict \<Rightarrow> bool" where
  "pairs_ok pairs \<longleftrightarrow> dict_ok pairs \<and> list_all (\<lambda>(k, v). str_ok k \<and> json_ok v) pairs"

lemma pairs_ok_json: "json_ok (JObj pairs) = pairs_ok pairs"
  by (simp add: pairs_ok_def)

lemma new_capture_ok [simp]: "capture_ok new_capture"
  by (simp add: capture_ok_def new_capture_def)

lemma parse_response_ok: "parse_response b = Some (h, r) \<Longrightarrow> str_ok h \<and> str_ok r"
  by (auto simp: parse_response_def str_ok_utf8_replace split: if_splits Option.bind_splits prod.splits)

lemma keep_capture_ok: "capture_ok c \<Longrightarrow> pairs_ok pairs \<Longrightarrow> pairs_ok (keep_capture c pairs)"
  by (auto simp: keep_capture_def capture_ok_def pairs_ok_def entry_of_def dict_set_new map_of_eq_None_iff str_ok_append
    Let_def split: option.splits)

lemma close_capture_ok: "capture_ok c \<Longrightarrow> capture_ok (close_capture c)"
  by (auto simp: close_capture_def capture_ok_def str_ok_utf8_replace split: option.splits)

lemma searched_piece_ok:
  assumes "re_search m s = Some x" "str_ok s"
    and "\<And>b n. m b = Some (x, n) \<Longrightarrow> \<exists>r. b = p @ r \<and> x = takeWhile P r"
    and "p \<noteq> []" "is_ascii p" "\<And>c. \<not> P c \<Longrightarrow> code c < (128::nat)"
  shows "str_ok x"
proof -
  obtain a b n where b: "s = a @ b" "m b = Some (x, n)" using re_search_split [OF assms(1)] by blast
  then obtain r where r: "b = p @ r" "x = takeWhile P r" using assms(3) by blast
  have "str_ok r" using str_ok_behind [of a p r] assms(2,4,5) b(1) r(1) by simp
  then show ?thesis unfolding r(2) using assms(6) by (rule str_ok_takeWhile)
qed

lemma scan_lit_Some: "scan_lit p s = Some r \<Longrightarrow> s = p @ r"
  by (auto simp: scan_lit_def startswith_iff_prefix prefix_def split: if_splits)

lemma post_ok: "re_search match_post s = Some ep \<Longrightarrow> str_ok s \<Longrightarrow> str_ok ep"
  by (rule searched_piece_ok [where m = match_post and p = "''POST ''" and P = "\<lambda>c. \<not> is_space c"])
    (auto simp: match_post_def is_space_def Let_def dest!: scan_lit_Some split: Option.bind_splits if_splits)

lemma item_tag_ok: "re_search match_item_tag s = Some i \<Longrightarrow> str_ok s \<Longrightarrow> str_ok i"
  by (rule searched_piece_ok [where m = match_item_tag and p = "''<item>''" and P = "\<lambda>c. c \<noteq> CHR ''<''"])
    (auto simp: match_item_tag_def Let_def dest!: scan_lit_Some split: Option.bind_splits if_splits)

lemma note_request_ok: "capture_ok c \<Longrightarrow> capture_ok (note_request b c)"
  using post_ok [of "utf8_replace b"] item_tag_ok [of "utf8_replace b"]
  by (auto simp: note_request_def capture_ok_def str_ok_utf8_replace Let_def pred_option_def split: option.splits)

lemma note_response_ok:
  "capture_ok c \<Longrightarrow> pairs_ok pairs \<Longrightarrow> note_response b (c, pairs) = (c', pairs') \<Longrightarrow> capture_ok c' \<and> pairs_ok pairs'"
  by (auto simp: note_response_def Let_def split: option.splits intro!: keep_capture_ok)
    (auto simp: capture_ok_def dest!: parse_response_ok)

lemma chunk_step_ok:
  assumes "chunk_step l (c, pairs) = Inr (c', pairs')" "capture_ok c" "pairs_ok pairs"
  shows "capture_ok c' \<and> pairs_ok pairs'"
proof -
  obtain c1 where a: "(case re_search (match_chunk ''C->U'') l of
         Some hex \<Rightarrow> if endpoint c = None then rbind (unhex hex) (\<lambda>b. Inr (note_request b c)) else Inr c
       | None \<Rightarrow> Inr c) = Inr c1"
    and b: "(case re_search (match_chunk ''U->C'') l of
         Some hex \<Rightarrow> if response_of c1 = None then rbind (unhex hex) (\<lambda>b. Inr (note_response b (c1, pairs))) else Inr (c1, pairs)
       | None \<Rightarrow> Inr (c1, pairs)) = Inr (c', pairs')"
    using assms(1) unfolding chunk_step_def prod.case rbind_Inr_iff by blast
  from a have "c1 = c \<or> (\<exists>b. c1 = note_request b c)" by (auto simp: rbind_Inr_iff split: option.splits if_splits)
  then have c1: "capture_ok c1" using assms(2) note_request_ok by blast
  from b have "(c', pairs') = (c1, pairs) \<or> (\<exists>b. note_response b (c1, pairs) = (c', pairs'))"
    by (auto simp: rbind_Inr_iff split: option.splits if_splits)
  with c1 assms(3) note_response_ok [of c1 pairs _ c' pairs'] show ?thesis by auto
qed

lemma extract_lines_ok:
  "extract_lines ls conn pairs = Inr pairs' \<Longrightarrow> pred_option capture_ok conn \<Longrightarrow> pairs_ok pairs \<Longrightarrow> pairs_ok pairs'"
proof (induction ls conn pairs rule: extract_lines.induct)
  case (2 l ls conn pairs)
  show ?case
  proof (cases "sublist ''relay open'' l \<or> conn = None")
    case True
    then show ?thesis using 2 by (auto split: if_splits)
  next
    case False
    then obtain c where c: "conn = Some c" "\<not> sublist ''relay open'' l" by auto
    show ?thesis
    proof (cases "sublist ''relay closed'' l")
      case True
      then show ?thesis using 2 c by (auto intro!: keep_capture_ok close_capture_ok)
    next
      case False
      then obtain c' q where "chunk_step l (c, pairs) = Inr (c', q)" "extract_lines ls (Some c') q = Inr pairs'"
        using "2.prems"(1) c by (auto simp: rbind_Inr_iff)
      then show ?thesis using "2.IH"(4) [OF c(2,1) False] "2.prems" c chunk_step_ok by auto
    qed
  qed
qed simp

lemma extract_store_ok: "extract_store ls = Inr pairs \<Longrightarrow> pairs_ok pairs"
  using extract_lines_ok [of ls None "[]" pairs] by (simp add: extract_store_def pairs_ok_def)

lemma store_read_back:
  assumes "extract_main out ls = Inr (StoreWritten path text listing)" "store_present env" "store_text env = Inr text"
  shows "\<exists>pairs. extract_store ls = Inr pairs \<and> pairs \<noteq> [] \<and> read_store env = Inr (JObj pairs)"
proof -
  obtain pairs where p: "extract_store ls = Inr pairs" "pairs \<noteq> []" "text = indented 1 quote 0 (JObj pairs) @ []"
    using assms(1) by (auto simp: extract_main_def rbind_Inr_iff split: if_splits)
  have "loads text = Some (JObj pairs)"
    unfolding p(3) using extract_store_ok [OF p(1)] by (intro ascii_text.loads_indented) (simp_all add: pairs_ok_json del: json_ok.simps)
  then show ?thesis using p(1,2) assms(2,3) by (simp add: read_store_def)
qed


section \<open>A response grows until it is complete\<close>

lemma startswith_more: "startswith s p \<Longrightarrow> startswith (s @ q) p"
  by (auto simp: startswith_iff_prefix prefix_def)

lemma split_first_length: "split_first sep s = Some (h, r) \<Longrightarrow> length sep \<le> length s"
  by (induction s arbitrary: h) (auto split: if_splits dest: startswith_length)

lemma split_first_append: "split_first sep s = Some (h, r) \<Longrightarrow> split_first sep (s @ q) = Some (h, r @ q)"
proof (induction s arbitrary: h)
  case Nil
  then show ?case by (cases q) (auto simp: startswith_def split: if_splits)
next
  case (Cons c cs)
  show ?case
  proof (cases "startswith (c # cs) sep")
    case True
    then have "startswith (c # cs @ q) sep" using startswith_more [of "c # cs" sep q] by simp
    moreover have "length sep \<le> length (c # cs)" using True by (rule startswith_length)
    ultimately show ?thesis using Cons.prems True by (cases sep) auto
  next
    case False
    then obtain h' where h': "split_first sep cs = Some (h', r)" "h = c # h'" using Cons.prems by auto
    then have "length sep \<le> length cs" using split_first_length by blast
    then have "take (length sep) (c # cs @ q) = take (length sep) (c # cs)"
      using take_append [of "length sep" "c # cs" q] by simp
    then have "\<not> startswith (c # cs @ q) sep" using False by (simp add: startswith_def)
    then show ?thesis using Cons.IH [OF h'(1)] h'(2) by simp
  qed
qed

lemma parse_response_append: "parse_response b = Some r \<Longrightarrow> parse_response (b @ q) = Some r"
  using split_first_append [of blank_line_sep b _ _ q]
  by (auto simp: parse_response_def startswith_more split: if_splits Option.bind_splits prod.splits)

section \<open>Reading back the relay's lines\<close>

lemma chunk_head:
  assumes "match_chunk (label_of s) t = Some x"
  shows "t \<noteq> [] \<and> hd t = hd (label_of s)"
proof -
  have "startswith t (label_of s @ '' len='')"
    using assms by (auto simp: match_chunk_def scan_lit_def split: if_splits Option.bind_splits)
  then show ?thesis by (cases s) (auto simp: startswith_iff_prefix prefix_def label_of_def)
qed

definition stamp_chars :: "char set" where
  "stamp_chars = {c. is_low_hex c} \<union> {CHR '':'', CHR ''.'', CHR '' ''}"

lemma low_hex_nibble: "n < 16 \<Longrightarrow> hex_nibble n \<in> stamp_chars"
  by (simp add: stamp_chars_def hex_nibble_low)

lemma relay_ts_chars: "set (relay_ts secs ms) \<subseteq> stamp_chars"
  by (auto simp: relay_ts_def two_digits_def low_hex_nibble) (simp_all add: stamp_chars_def)

lemma not_stamp: "CHR ''C'' \<notin> stamp_chars" "CHR ''U'' \<notin> stamp_chars" "CHR ''r'' \<notin> stamp_chars"
  by (simp_all add: stamp_chars_def is_low_hex_def is_digit_def)

definition dump_of :: "bytes \<Rightarrow> str" where
  "dump_of b = '' len='' @ nat_str (length b) @ '' hex='' @ to_hex b @ [CHR 10]"

lemma chunk_line_parts:
  "chunk_line t s b = (relay_ts (fst t) (snd t) @ '' '') @ label_of s @ dump_of b"
  by (simp add: chunk_line_def relay_line_def dump_of_def case_prod_unfold)

lemma dump_chars: "set (dump_of b) \<subseteq> stamp_chars \<union> {CHR ''l'', CHR ''n'', CHR ''='', CHR ''h'', CHR ''x'', CHR 10}"
proof -
  have "set (nat_str n) \<subseteq> stamp_chars" for n
    using nat_str_digits by (auto simp: stamp_chars_def is_low_hex_def)
  moreover have "set (to_hex b) \<subseteq> stamp_chars"
    using to_hex_low [of b] by (auto simp: stamp_chars_def list_all_iff)
  moreover have "{CHR ''e'', CHR '' ''} \<subseteq> stamp_chars" by (simp add: stamp_chars_def is_low_hex_def is_digit_def)
  ultimately show ?thesis by (auto simp: dump_of_def)
qed

lemma dump_scanned:
  assumes "b \<noteq> []"
  shows "match_chunk (label_of s) (label_of s @ dump_of b) = Some (to_hex b, length (label_of s @ dump_of b) - 1)"
proof -
  have "list_all is_digit (nat_str (length b))" by (auto simp: list_all_iff nat_str_digits)
  then have "scan_digits (nat_str (length b) @ CHR '' '' # r) = Some (CHR '' '' # r)" for r
    by (rule scan_digits_then) simp
  moreover have nl: "\<not> is_low_hex (CHR 10)" by (simp add: is_low_hex_def is_digit_def)
  have "takeWhile is_low_hex (to_hex b @ [CHR 10]) = to_hex b"
    using takeWhile_then [OF to_hex_low nl, of b "[]"] by simp
  moreover have "scan_lit (label_of s @ '' len='') (label_of s @ '' len='' @ r) = Some r" for r
    using scan_lit_append [of "label_of s @ '' len=''" r] by simp
  moreover have "scan_lit '' hex='' ('' hex='' @ r) = Some r" for r by (rule scan_lit_append)
  ultimately show ?thesis
    using to_hex_nonempty [OF assms] by (simp add: match_chunk_def dump_of_def Let_def)
qed

lemma chunk_found:
  assumes "b \<noteq> []"
  shows "re_search (match_chunk (label_of s')) (chunk_line t s b) = (if s = s' then Some (to_hex b) else None)"
proof -
  let ?m = "match_chunk (label_of s')"
  have c: "hd (label_of s') \<in> {CHR ''C'', CHR ''U''}" by (cases s') (simp_all add: label_of_def)
  then have a: "hd (label_of s') \<notin> set (relay_ts (fst t) (snd t) @ '' '')"
    using relay_ts_chars [of "fst t" "snd t"] not_stamp by auto
  have d: "hd (label_of s') \<notin> set (dump_of b)" using dump_chars [of b] c not_stamp by auto
  have none: "re_search ?m (dump_of b) = None"
    using search_skip [of ?m "hd (label_of s')" "dump_of b" "[]", OF chunk_head d]
    by (simp add: match_chunk_def scan_lit_def startswith_def label_of_def split: side.splits)
  have skip: "re_search ?m (chunk_line t s b) = re_search ?m (label_of s @ dump_of b)"
    unfolding chunk_line_parts by (rule search_skip [OF chunk_head a])
  show ?thesis
  proof (cases "s = s'")
    case True
    then show ?thesis using skip dump_scanned [OF assms, of s] re_search_here [of ?m "label_of s @ dump_of b"] by simp
  next
    case False
    have other: "?m (x # dump_of b) = None" for x
      by (cases s') (simp_all add: match_chunk_def scan_lit_def startswith_def label_of_def dump_of_def)
    have "re_search ?m (label_of s @ dump_of b) = re_search ?m (dump_of b)"
      using False other
      by (cases s; cases s') (simp_all add: label_of_def match_chunk_def scan_lit_def startswith_def dump_of_def)
    then show ?thesis using False skip none by simp
  qed
qed


lemma chunk_line_quiet:
  assumes "CHR ''r'' \<in> set p"
  shows "\<not> sublist p (chunk_line t s b)"
proof -
  have "CHR ''r'' \<notin> set (relay_ts (fst t) (snd t))" using relay_ts_chars not_stamp by blast
  moreover have "CHR ''r'' \<notin> set (label_of s)" by (cases s) (simp_all add: label_of_def)
  moreover have "CHR ''r'' \<notin> set (dump_of b)" using dump_chars [of b] not_stamp by auto
  ultimately have "CHR ''r'' \<notin> set (chunk_line t s b)" by (simp add: chunk_line_parts)
  then show ?thesis using assms set_mono_sublist by blast
qed

lemma chunk_step_logged:
  assumes "b \<noteq> []"
  shows "chunk_step (chunk_line t Client b) (c, pairs) =
      Inr (if endpoint c = None then note_request b c else c, pairs)"
    and "chunk_step (chunk_line t Upstream b) (c, pairs) =
      Inr (if response_of c = None then note_response b (c, pairs) else (c, pairs))"
  using chunk_found [OF assms, of Client] chunk_found [OF assms, of Upstream]
  by (simp_all add: chunk_step_def unhex_def label_of_def res_of_option_def)

section \<open>Recorded connections\<close>

record session =
  s_open :: str
  s_close :: str
  s_request :: bytes
  s_traffic :: "(side \<times> bytes) list"

definition session_lines :: "(nat \<Rightarrow> nat \<times> nat) \<Rightarrow> session \<Rightarrow> str list" where
  "session_lines clock s = s_open s # fold (\<lambda>(d, b). log_chunk clock d b) ((Client, s_request s) # s_traffic s) [] @ [s_close s]"

definition session_reply :: "session \<Rightarrow> (str \<times> str) option" where
  "session_reply s = parse_response (concat (chunks_of Upstream (s_traffic s)))"

definition session_key :: "session \<Rightarrow> str" where
  "session_key s =
     (case re_search match_post (utf8_replace (s_request s)) of None \<Rightarrow> [] | Some ep \<Rightarrow> ep) @ ''|'' @
     (case re_search match_item_tag (utf8_replace (s_request s)) of None \<Rightarrow> [] | Some i \<Rightarrow> i)"

text \<open>A connection of the log: its request in one chunk, then a complete response in any pieces.\<close>

definition recorded :: "session \<Rightarrow> bool" where
  "recorded s \<longleftrightarrow> sublist ''relay open'' (s_open s) \<and>
     \<not> sublist ''relay open'' (s_close s) \<and> sublist ''relay closed'' (s_close s) \<and>
     s_request s \<noteq> [] \<and> [] \<notin> snd ` set (s_traffic s) \<and>
     re_search match_post (utf8_replace (s_request s)) \<noteq> None \<and> session_reply s \<noteq> None"

definition add_pair :: "str \<Rightarrow> str \<times> str \<Rightarrow> jdict \<Rightarrow> jdict" where
  "add_pair key r pairs = (if dict_get pairs key = None then dict_set pairs key (entry_of r) else pairs)"

lemma add_pair_again [simp]: "add_pair key r (add_pair key r pairs) = add_pair key r pairs"
  by (simp add: add_pair_def)

lemma keep_capture_pair:
  "response_of c = Some r \<Longrightarrow> endpoint c = Some ep \<Longrightarrow> keep_capture c pairs = add_pair (ep @ ''|'' @ cap_item c) r pairs"
  by (simp add: keep_capture_def add_pair_def Let_def)

lemma chunk_quiet [simp]:
  "\<not> sublist ''relay open'' (chunk_line t s b)" "\<not> sublist ''relay closed'' (chunk_line t s b)"
  by (rule chunk_line_quiet, simp)+

text \<open>What the lines behind the request leave, up to the line that closes the connection.\<close>

lemma traffic_ignored:
  assumes "[] \<notin> snd ` set xs" "endpoint c = Some ep" "response_of c = Some r"
    and "add_pair (ep @ ''|'' @ cap_item c) r pairs = pairs"
    and "\<not> sublist ''relay open'' l" "sublist ''relay closed'' l"
  shows "extract_lines (logged clock n xs @ l # rest) (Some c) pairs = extract_lines rest None pairs"
  using assms(1)
proof (induction xs arbitrary: n)
  case Nil
  then show ?case using assms by (simp add: close_capture_def keep_capture_pair)
next
  case (Cons x xs)
  obtain s b where x: "x = (s, b)" by (cases x)
  have "b \<noteq> []" using Cons.prems x by auto
  then have "chunk_step (chunk_line (clock n) s b) (c, pairs) = Inr (c, pairs)"
    using chunk_step_logged [of b] assms(2,3) by (cases s) simp_all
  then show ?case using Cons x by simp
qed

lemma traffic_extracted:
  assumes "[] \<notin> snd ` set xs" "endpoint c = Some ep" "key = ep @ ''|'' @ cap_item c" "response_of c = None"
    and "parse_response (up_buf c) = None" "parse_response (up_buf c @ concat (chunks_of Upstream xs)) = Some r"
    and "\<not> sublist ''relay open'' l" "sublist ''relay closed'' l"
  shows "extract_lines (logged clock n xs @ l # rest) (Some c) pairs = extract_lines rest None (add_pair key r pairs)"
  using assms(1-6)
proof (induction xs arbitrary: n c)
  case Nil
  then show ?case by (simp add: chunks_of_def)
next
  case (Cons x xs)
  obtain s b where x: "x = (s, b)" by (cases x)
  have b: "b \<noteq> []" and xs: "[] \<notin> snd ` set xs" using Cons.prems(1) x by auto
  show ?case
  proof (cases s)
    case Client
    then have "chunk_step (chunk_line (clock n) s b) (c, pairs) = Inr (c, pairs)"
      using chunk_step_logged(1) [OF b] Cons.prems(2) by simp
    moreover have "chunks_of Upstream (x # xs) = chunks_of Upstream xs" using Client x by (simp add: chunks_of_def)
    ultimately show ?thesis using Cons.IH [OF xs Cons.prems(2-5), of "Suc n"] Cons.prems(6) x by simp
  next
    case Upstream
    have all: "parse_response ((up_buf c @ b) @ concat (chunks_of Upstream xs)) = Some r"
      using Cons.prems(6) x Upstream by (simp add: chunks_of_def)
    let ?c = "c\<lparr>up_buf := up_buf c @ b\<rparr>"
    show ?thesis
    proof (cases "parse_response (up_buf c @ b)")
      case None
      then have "chunk_step (chunk_line (clock n) s b) (c, pairs) = Inr (?c, pairs)"
        using chunk_step_logged(2) [OF b] Upstream Cons.prems(4) by (simp add: note_response_def)
      then show ?thesis using Cons.IH [of ?c "Suc n"] xs Cons.prems(2-4) all None x by simp
    next
      case (Some r')
      then have r': "r' = r" using parse_response_append [OF Some, of "concat (chunks_of Upstream xs)"] all by simp
      let ?d = "?c\<lparr>response_of := Some r\<rparr>"
      have "chunk_step (chunk_line (clock n) s b) (c, pairs) = Inr (?d, add_pair key r pairs)"
        using chunk_step_logged(2) [OF b] Upstream Some r' Cons.prems(2-4)
        by (simp add: note_response_def keep_capture_pair)
      moreover have "extract_lines (logged clock (Suc n) xs @ l # rest) (Some ?d) (add_pair key r pairs) =
          extract_lines rest None (add_pair key r pairs)"
        using traffic_ignored [of xs ?d ep r "add_pair key r pairs"] xs Cons.prems(2,3) assms(7,8) by simp
      ultimately show ?thesis using x by simp
    qed
  qed
qed

lemma session_lines_logged:
  "session_lines clock s = s_open s # chunk_line (clock 0) Client (s_request s) # logged clock 1 (s_traffic s) @ [s_close s]"
  unfolding session_lines_def fold_log_chunk by simp

lemma session_extracted:
  assumes "recorded s" "session_reply s = Some r"
  shows "extract_lines (session_lines clock s @ rest) conn pairs = extract_lines rest None (add_pair (session_key s) r pairs)"
proof -
  obtain ep where ep: "re_search match_post (utf8_replace (s_request s)) = Some ep"
    using assms(1) by (auto simp: recorded_def)
  let ?c = "note_request (s_request s) new_capture"
  have c: "endpoint ?c = Some ep" "session_key s = ep @ ''|'' @ cap_item ?c" "response_of ?c = None" "up_buf ?c = []"
    using ep by (simp_all add: note_request_def new_capture_def session_key_def Let_def)
  have req: "s_request s \<noteq> []" using assms(1) by (simp add: recorded_def)
  have "chunk_step (chunk_line (clock 0) Client (s_request s)) (new_capture, pairs) = Inr (?c, pairs)"
    using chunk_step_logged(1) [OF req] by (simp add: new_capture_def)
  moreover have "extract_lines (logged clock 1 (s_traffic s) @ s_close s # rest) (Some ?c) pairs =
      extract_lines rest None (add_pair (session_key s) r pairs)"
    by (rule traffic_extracted [OF _ c(1,2,3)])
      (use assms c(4) in \<open>simp_all add: recorded_def session_reply_def parse_response_def startswith_def\<close>)
  ultimately show ?thesis
    using assms(1) by (simp add: session_lines_logged recorded_def)
qed


definition session_pair :: "session \<Rightarrow> jdict \<Rightarrow> jdict" where
  "session_pair s = (case session_reply s of None \<Rightarrow> id | Some r \<Rightarrow> add_pair (session_key s) r)"

lemma sessions_extracted:
  assumes "list_all recorded ss"
  shows "extract_lines (concat (map (session_lines clock) ss)) conn pairs = Inr (fold session_pair ss pairs)"
  using assms
proof (induction ss arbitrary: conn pairs)
  case (Cons s ss)
  then obtain r where r: "session_reply s = Some r" by (auto simp: recorded_def)
  then show ?case using Cons session_extracted [of s r clock "concat (map (session_lines clock) ss)"]
    by (simp add: session_pair_def)
qed simp

lemma find_add_pair:
  "find (\<lambda>(k, d). P k) (add_pair key r pairs) =
     (case find (\<lambda>(k, d). P k) pairs of
        Some x \<Rightarrow> Some x
      | None \<Rightarrow> if P key then Some (key, entry_of r) else None)"
proof (cases "dict_get pairs key")
  case None
  then have "add_pair key r pairs = pairs @ [(key, entry_of r)]"
    by (simp add: add_pair_def dict_set_new map_of_eq_None_iff)
  moreover have "find Q (xs @ [y]) = (case find Q xs of Some x \<Rightarrow> Some x | None \<Rightarrow> if Q y then Some y else None)" for Q xs and y :: "str \<times> json"
    by (induction xs) auto
  ultimately show ?thesis by simp
next
  case (Some d)
  then have "find (\<lambda>(k, d). P k) pairs \<noteq> None" if "P key"
    using that map_of_SomeD [OF Some] by (auto simp: find_None_iff)
  then show ?thesis using Some by (auto simp: add_pair_def split: option.splits)
qed

lemma find_sessions:
  assumes "list_all recorded ss"
  shows "find (\<lambda>(k, d). P k) (fold session_pair ss pairs) =
     (case find (\<lambda>(k, d). P k) pairs of
        Some x \<Rightarrow> Some x
      | None \<Rightarrow> map_option (\<lambda>s. (session_key s, entry_of (the (session_reply s)))) (find (\<lambda>s. P (session_key s)) ss))"
  using assms
proof (induction ss arbitrary: pairs)
  case Nil
  then show ?case by (auto split: option.splits)
next
  case (Cons s ss)
  then obtain r where r: "session_reply s = Some r" by (auto simp: recorded_def)
  show ?case using Cons r by (auto simp: session_pair_def find_add_pair split: option.splits)
qed

text \<open>
  C35. From the capture to the replay: a log of connections, each a request and a complete response
  cut into chunks in any way, makes a file from which a server that has not read its store answers a
  request with LG's own response in the first of those connections whose service and item the request
  asks for, brought up to date; and it answers nothing if there is none.
\<close>
theorem capture_replayed:
  assumes "list_all recorded ss"
    and "extract_main out (concat (map (session_lines clock) ss)) = Inr (StoreWritten out text listing)"
    and "store_present env" "store_text env = Inr text" "\<not> loaded st"
  shows "fst (replay_response env path item st) =
    (case find (\<lambda>s. serves path item (session_key s)) ss of
       None \<Rightarrow> Inr None
     | Some s \<Rightarrow> rbind (entry_response (utc_now env) (entry_of (the (session_reply s)))) (\<lambda>r. Inr (Some r)))"
proof -
  obtain pairs where pairs: "extract_store (concat (map (session_lines clock) ss)) = Inr pairs" "pairs \<noteq> []"
      "read_store env = Inr (JObj pairs)"
    using store_read_back [OF assms(2-4)] by blast
  then have "pairs = fold session_pair ss []"
    using assms(1) sessions_extracted [OF assms(1), of clock None "[]"] by (simp add: extract_store_def)
  then have "find (\<lambda>(key, data). serves path item key) pairs =
      map_option (\<lambda>s. (session_key s, entry_of (the (session_reply s)))) (find (\<lambda>s. serves path item (session_key s)) ss)"
    using find_sessions [OF assms(1), of "serves path item" "[]"] by simp
  moreover have "load_store env st = (Inr (JObj pairs), \<lparr>loaded = True, captures = JObj pairs\<rparr>)"
    using pairs(3) assms(5) by (simp add: load_store_def)
  ultimately show ?thesis
    by (cases "find (\<lambda>s. serves path item (session_key s)) ss") (simp_all add: replay_response_def)
qed


definition sample_session :: session where
  "sample_session = \<lparr>s_open = ''relay open'', s_close = ''relay closed'',
     s_request = ''POST /api/TimeSvc <item>TIME</item>'',
     s_traffic = [(Upstream, ''HTTP/1.1 200 OK'' @ [CHR 13, CHR 10] @ ''Content-Length: 4'' @ [CHR 13]),
       (Client, ''more''), (Upstream, [CHR 10, CHR 13, CHR 10] @ ''<s/>'')]\<rparr>"

lemma sample_session_facts:
  "session_key sample_session = ''/api/TimeSvc|TIME''"
  "session_reply sample_session = Some (''HTTP/1.1 200 OK'' @ [CHR 13, CHR 10] @ ''Content-Length: 4'', ''<s/>'')"
  "re_search match_post (utf8_replace (s_request sample_session)) = Some ''/api/TimeSvc''"
  by code_simp+

lemma sample_session_recorded: "recorded sample_session"
proof -
  have "\<not> sublist ''relay open'' ''relay closed''"
  proof
    assume "sublist ''relay open'' ''relay closed''"
    then have "set ''relay open'' \<subseteq> set ''relay closed''" by (rule set_mono_sublist)
    then show False by simp
  qed
  then show ?thesis using sample_session_facts(2,3) by (simp add: recorded_def sample_session_def)
qed

theorem capture_replayed_witness:
  "\<exists>text listing. extract_main ''store.json'' (session_lines (\<lambda>n. (n, 0)) sample_session) =
       Inr (StoreWritten ''store.json'' text listing) \<and>
     fst (replay_response \<lparr>store_present = True, store_text = Inr text, utc_now = ''new''\<rparr> ''/lgehadm/api/TimeSvc''
       (Some ''TIME'') \<lparr>loaded = False, captures = JObj []\<rparr>) = Inr (Some (200, ''text/xml;charset=utf-8'', ''<s/>''))"
proof -
  have ok: "list_all recorded [sample_session]" using sample_session_recorded by simp
  have ex: "extract_store (concat (map (session_lines (\<lambda>n. (n, 0))) [sample_session])) = Inr (fold session_pair [sample_session] [])"
    using sessions_extracted [OF ok, of "\<lambda>n. (n, 0)" None "[]"] by (simp only: extract_store_def)
  have "fold session_pair [sample_session] [] \<noteq> []"
    by (simp add: session_pair_def sample_session_facts add_pair_def dict_set_new)
  then obtain written listing where main: "extract_main ''store.json'' (concat (map (session_lines (\<lambda>n. (n, 0))) [sample_session])) =
      Inr (StoreWritten ''store.json'' written listing)"
    using ex by (simp add: extract_main_def)
  let ?env = "\<lparr>store_present = True, store_text = Inr written, utc_now = ''new''\<rparr> :: replay_env"
  have "serves ''/lgehadm/api/TimeSvc'' (Some ''TIME'') ''/api/TimeSvc|TIME''" by code_simp
  moreover have "entry_response ''new'' (entry_of (''HTTP/1.1 200 OK'' @ [CHR 13, CHR 10] @ ''Content-Length: 4'', ''<s/>'')) =
      Inr (200, ''text/xml;charset=utf-8'', ''<s/>'')" by code_simp
  moreover note capture_replayed [OF ok main, of ?env "\<lparr>loaded = False, captures = JObj []\<rparr>" "''/lgehadm/api/TimeSvc''" "Some ''TIME''"]
  ultimately have "fst (replay_response ?env ''/lgehadm/api/TimeSvc'' (Some ''TIME'') \<lparr>loaded = False, captures = JObj []\<rparr>) =
    Inr (Some (200, ''text/xml;charset=utf-8'', ''<s/>''))"
    by (simp add: sample_session_facts)
  with main show ?thesis by auto
qed

section \<open>What the log does not tell\<close>

text \<open>
  The lines of a chunk do not name their connection. When two are open at once, the response to
  the first is filed under the request of the second.
\<close>

lemma interleaved_mispaired:
  assumes "ra \<noteq> []" "rb \<noteq> []" "pa \<noteq> []" "parse_response pa = Some r"
    and "re_search match_post (utf8_replace rb) = Some ep" "re_search match_item_tag (utf8_replace rb) = Some i"
  shows "extract_store [''relay open'', chunk_line t1 Client ra, ''relay open'', chunk_line t2 Client rb,
    chunk_line t3 Upstream pa] = Inr [(ep @ ''|'' @ i, entry_of r)]"
  using assms
  by (simp add: extract_store_def chunk_step_logged note_request_def note_response_def new_capture_def
    keep_capture_pair add_pair_def Let_def)

text \<open>
  Only the chunk with the request line is searched for the item. When the body comes in a chunk of
  its own, the response is filed under no item, and is never served for the one it answers.
\<close>

lemma split_request_loses_item:
  assumes "ra \<noteq> []" "rb \<noteq> []" "pa \<noteq> []" "parse_response pa = Some r"
    and "re_search match_post (utf8_replace ra) = Some ep" "re_search match_item_tag (utf8_replace ra) = None"
  shows "extract_store [''relay open'', chunk_line t1 Client ra, chunk_line t2 Client rb, chunk_line t3 Upstream pa] =
    Inr [(ep @ ''|'', entry_of r)]"
  using assms
  by (simp add: extract_store_def chunk_step_logged note_request_def note_response_def new_capture_def
    keep_capture_pair add_pair_def Let_def)

text \<open>
  \<open>tools/wm47878_tls_relay.py\<close> ends a connection with a line of the shared engine's, which the extractor
  does not know: a response without a length, which ends with its connection, is never stored.
\<close>

lemma engine_close_ignored:
  assumes "ra \<noteq> []" "pa \<noteq> []" "parse_response pa = None"
  shows "extract_store [''relay open'', chunk_line t1 Client ra, chunk_line t2 Upstream pa, ''passthrough closed''] = Inr []"
proof -
  have "\<not> sublist ''relay open'' ''passthrough closed''" "\<not> sublist ''relay closed'' ''passthrough closed''"
    "re_search (match_chunk ''C->U'') ''passthrough closed'' = None" "re_search (match_chunk ''U->C'') ''passthrough closed'' = None"
    by code_simp+
  moreover from this(3,4) have "chunk_step ''passthrough closed'' x = Inr x" for x
    by (cases x) (simp del: re_search.simps add: chunk_step_def)
  ultimately show ?thesis using assms
    by (simp del: re_search.simps add: extract_store_def chunk_step_logged note_request_def note_response_def new_capture_def
      keep_capture_pair add_pair_def Let_def)
qed

end
