(* ===== verification/LogTools.thy ===== *)
theory LogTools
  imports ReplayExtract
begin

text \<open>
  The readers of the relay's logs under \<open>tools/\<close>: \<open>wm46030_timeline.py\<close>, which lists the requests and
  the status lines of a log of the HTTP channel, and \<open>wm47878_door_check.py\<close>, which groups the
  snapshots of a log of the control channel by their value. What they print is a value.
\<close>

section \<open>The timeline\<close>

text \<open>The first chunk of either side in a line.\<close>

definition match_either :: "(str \<times> str) scanner" where
  "match_either s =
     (case match_chunk ''C->U'' s of
        Some (hex, n) \<Rightarrow> Some ((''C->U'', hex), n)
      | None \<Rightarrow> (case match_chunk ''U->C'' s of
            Some (hex, n) \<Rightarrow> Some ((''U->C'', hex), n)
          | None \<Rightarrow> None))"

definition match_event :: "str \<Rightarrow> (str \<times> str \<times> str) option" where
  "match_event line = do {
     (ts, r1) \<leftarrow> scan_hms line;
     r2 \<leftarrow> scan_lit ''.'' r1;
     r3 \<leftarrow> scan_digits r2;
     r4 \<leftarrow> scan_lit '' '' r3;
     (direction, hex) \<leftarrow> re_search match_either r4;
     Some (ts, direction, hex) }"

definition model_char :: "char \<Rightarrow> bool" where
  "model_char c \<longleftrightarrow> is_digit c \<or> 65 \<le> code c \<and> code c \<le> (90::nat) \<or> c = CHR ''_''"

definition match_model :: "str scanner" where
  "match_model s = do {
     r \<leftarrow> scan_lit ''modelName>'' s;
     let v = takeWhile model_char r;
     if v \<noteq> [] \<and> startswith (dropWhile model_char r) ''<'' then Some (v, 11 + length v) else None }"

definition match_status :: "str scanner" where
  "match_status s = do {
     r \<leftarrow> scan_lit ''HTTP/1.1 '' s;
     let v = takeWhile is_digit r;
     if v \<noteq> [] then Some (v, 9 + length v) else None }"

type_synonym event = "str \<times> str \<times> str"

definition event_of :: "str \<Rightarrow> side \<Rightarrow> str \<Rightarrow> event option" where
  "event_of ts s text = (case s of
      Client \<Rightarrow> map_option (\<lambda>path.
        (ts, ''APPLIANCE->LG'', last (split_on (CHR ''/'') path) @
           (case re_search match_model text of None \<Rightarrow> [] | Some tag \<Rightarrow> '' ['' @ tag @ '']'')))
        (re_search match_post text)
    | Upstream \<Rightarrow> map_option (\<lambda>st. (ts, ''LG->APPLIANCE'', st)) (re_search match_status text))"

text \<open>Texts compare by their bytes, which for UTF-8 is the order of the code points.\<close>

fun str_less :: "str \<Rightarrow> str \<Rightarrow> bool" where
  "str_less s [] = False"
| "str_less [] (c # cs) = True"
| "str_less (x # xs) (c # cs) \<longleftrightarrow> (code x :: nat) < code c \<or> x = c \<and> str_less xs cs"

definition zfill :: "nat \<Rightarrow> str \<Rightarrow> str" where
  "zfill n s =
     (if n \<le> length s then s
      else case s of
          c # cs \<Rightarrow> if c = CHR ''+'' \<or> c = CHR ''-'' then c # replicate (n - length s) (CHR ''0'') @ cs
                   else replicate (n - length s) (CHR ''0'') @ s
        | [] \<Rightarrow> replicate n (CHR ''0''))"

text \<open>A line with an odd number of hex digits is skipped.\<close>

definition timeline_line :: "str \<Rightarrow> str \<Rightarrow> event option" where
  "timeline_line since line = (case match_event line of
      None \<Rightarrow> None
    | Some (ts, direction, hex) \<Rightarrow>
        if str_less ts since then None
        else (case from_hex hex of
            None \<Rightarrow> None
          | Some b \<Rightarrow> event_of ts (if direction = ''C->U'' then Client else Upstream) (utf8_replace b)))"

text \<open>\<open>xs[-k:]\<close>; of a count of zero it is everything.\<close>

definition py_tail :: "int \<Rightarrow> 'a list \<Rightarrow> 'a list" where
  "py_tail k xs = (if 0 < k then drop (length xs - nat k) xs else drop (nat (- k)) xs)"

definition timeline :: "str option \<Rightarrow> str option \<Rightarrow> str list \<Rightarrow> event list res" where
  "timeline from count lines =
     rbind (case count of None \<Rightarrow> Inr 30 | Some k \<Rightarrow> res_of_option ValueError (py_int k)) (\<lambda>k.
       Inr (py_tail k (List.map_filter
         (timeline_line (zfill 8 (case from of None \<Rightarrow> ''00:00:00'' | Some t \<Rightarrow> t))) lines)))"

section \<open>The door check\<close>

fun re_search_last :: "'a scanner \<Rightarrow> str \<Rightarrow> 'a option" where
  "re_search_last m [] = map_option fst (m [])"
| "re_search_last m (c # cs) = (case re_search_last m cs of
      Some x \<Rightarrow> Some x
    | None \<Rightarrow> map_option fst (m (c # cs)))"

definition match_hex :: "str scanner" where
  "match_hex s = do {
     r \<leftarrow> scan_lit ''hex='' s;
     let v = takeWhile is_low_hex r;
     if v \<noteq> [] then Some (v, 4 + length v) else None }"

definition match_dump :: "str \<Rightarrow> (str \<times> str) option" where
  "match_dump line = do {
     (hms, r1) \<leftarrow> scan_hms line;
     r2 \<leftarrow> scan_lit ''.'' r1;
     r3 \<leftarrow> scan_digits r2;
     hex \<leftarrow> re_search_last match_hex r3;
     Some (hms @ ''.'' @ takeWhile is_digit r2, hex) }"

text \<open>
  The blob of a message that is a snapshot; what is no object, and \<open>Data\<close> that is no base64 text,
  raise.
\<close>

definition b64_arg :: "json \<Rightarrow> bytes res" where
  "b64_arg v = (case v of JStr s \<Rightarrow> res_of_option ValueError (b64decode s) | _ \<Rightarrow> Inl TypeError)"

definition has_key :: "str \<Rightarrow> json \<Rightarrow> bool" where
  "has_key k v = (case v of JObj d \<Rightarrow> dict_get d k \<noteq> None | _ \<Rightarrow> False)"

definition pump_blob :: "json \<Rightarrow> bytes option res" where
  "pump_blob msg =
     rbind (json_get msg ''Body'' (JObj [])) (\<lambda>body.
     rbind (json_get body ''Data'' JNull) (\<lambda>data.
       if \<not> truthy data then Inr None
       else rbind (json_get body ''Format'' JNull) (\<lambda>fmt.
         if fmt \<noteq> JStr ''B64'' \<or> has_key ''Cmd'' body then Inr None
         else rbind (b64_arg data) (\<lambda>blob. Inr (Some blob)))))"

definition mondata_len :: nat where
  [const_defs]: "mondata_len = 28"

type_synonym frames = "(str \<times> str) list \<times> nat"

definition add_blob :: "str \<Rightarrow> bytes option \<Rightarrow> frames \<Rightarrow> frames" where
  "add_blob ts blob acc = (case (blob, acc) of
      (None, _) \<Rightarrow> acc
    | (Some b, (frames, skipped)) \<Rightarrow>
        if length b \<noteq> mondata_len then (frames, Suc skipped) else (frames @ [(ts, to_hex b)], skipped))"

text \<open>The frames of a line; what does not parse ends the line.\<close>

function walk_frames :: "str \<Rightarrow> bytes \<Rightarrow> frames \<Rightarrow> frames res" where
  "walk_frames ts raw acc =
     (if length raw < 4 then Inr acc
      else let n = be_int (take 4 raw) in
        if length raw < 4 + n then Inr acc
        else case loads_bytes (take n (drop 4 raw)) of
            None \<Rightarrow> Inr acc
          | Some msg \<Rightarrow> rbind (pump_blob msg) (\<lambda>blob. walk_frames ts (drop (4 + n) raw) (add_blob ts blob acc)))"
  by pat_completeness auto
termination by (relation "measure (\<lambda>(ts, raw, acc). length raw)") auto

declare walk_frames.simps [simp del]

definition door_line :: "str \<Rightarrow> frames \<Rightarrow> frames res" where
  "door_line line acc = (case match_dump line of
      None \<Rightarrow> Inr acc
    | Some (ts, hex) \<Rightarrow>
        if \<not> sublist ''C->U'' line then Inr acc else rbind (unhex hex) (\<lambda>raw. walk_frames ts raw acc))"

fun door_lines :: "str list \<Rightarrow> frames \<Rightarrow> frames res" where
  "door_lines [] acc = Inr acc"
| "door_lines (l # ls) acc = rbind (door_line l acc) (door_lines ls)"

text \<open>Each distinct value with its first and its last time and how often it came.\<close>

record window =
  first_seen :: str
  last_seen :: str
  seen :: nat

type_synonym windows = "(str, window) dict"

definition add_frame :: "str \<times> str \<Rightarrow> windows \<Rightarrow> windows" where
  "add_frame f g = (case f of (ts, v) \<Rightarrow>
     dict_set g v (case dict_get g v of
         None \<Rightarrow> \<lparr>first_seen = ts, last_seen = ts, seen = 1\<rparr>
       | Some w \<Rightarrow> w\<lparr>last_seen := ts, seen := Suc (seen w)\<rparr>))"

definition tally :: "(str \<times> str) list \<Rightarrow> windows" where
  "tally frames = fold add_frame frames []"

definition window_text :: "nat \<Rightarrow> str \<times> window \<Rightarrow> str" where
  "window_text i x = (case x of (v, w) \<Rightarrow> nat_str i @ ''. '' @ first_seen w @ '' -> '' @ last_seen w @ ''  (x'' @
     nat_str (seen w) @ '')  '' @ v)"

definition door_report :: "frames \<Rightarrow> str list" where
  "door_report acc = (case acc of (frames, skipped) \<Rightarrow>
     if frames = [] then [''no pump frames in the log'']
     else [''total frames: '' @ nat_str (length frames) @ '' | distinct 28-byte values: '' @ nat_str (length (tally frames))] @
       (if skipped = 0 then []
        else [''skipped '' @ nat_str skipped @ '' B64 records with non-'' @ nat_str mondata_len @ ''-byte payloads'']) @
       map (\<lambda>(i, x). window_text i x) (List.enumerate 1 (tally frames)))"

definition door_check :: "str list \<Rightarrow> str list res" where
  "door_check lines = rbind (door_lines lines ([], 0)) (\<lambda>acc. Inr (door_report acc))"

section \<open>The windows\<close>

text \<open>When a value came, in order, and the values in the order of their first time.\<close>

definition times_of :: "str \<Rightarrow> (str \<times> str) list \<Rightarrow> str list" where
  "times_of v frames = map fst (filter (\<lambda>f. snd f = v) frames)"

definition in_order :: "'a list \<Rightarrow> 'a list" where
  "in_order xs = rev (remdups (rev xs))"

lemma in_order_snoc: "in_order (xs @ [x]) = (if x \<in> set xs then in_order xs else in_order xs @ [x])"
  by (simp add: in_order_def)

lemma times_of_Nil: "times_of v frames = [] \<longleftrightarrow> v \<notin> snd ` set frames"
  by (auto simp: times_of_def filter_empty_conv)

lemma times_of_snoc: "times_of v (frames @ [(ts, v')]) = times_of v frames @ (if v' = v then [ts] else [])"
  by (simp add: times_of_def)

lemma tally_snoc: "tally (frames @ [f]) = add_frame f (tally frames)"
  by (simp add: tally_def)

lemma tally_lookup:
  "dict_get (tally frames) v = (if v \<in> snd ` set frames
     then Some \<lparr>first_seen = hd (times_of v frames), last_seen = last (times_of v frames), seen = length (times_of v frames)\<rparr>
     else None)"
proof (induction frames rule: rev_induct)
  case (snoc f frames)
  obtain ts v' where f: "f = (ts, v')" by (cases f)
  have new: "dict_get (tally (frames @ [f])) v = (if v' = v then Some (case dict_get (tally frames) v of
      None \<Rightarrow> \<lparr>first_seen = ts, last_seen = ts, seen = 1\<rparr>
    | Some w \<Rightarrow> w\<lparr>last_seen := ts, seen := Suc (seen w)\<rparr>) else dict_get (tally frames) v)"
    by (simp add: f tally_snoc add_frame_def update_conv')
  show ?case
  proof (cases "v' = v \<and> v \<in> snd ` set frames")
    case True
    then have "times_of v frames \<noteq> []" using times_of_Nil [of v frames] by simp
    then show ?thesis using True snoc new by (simp add: f times_of_snoc)
  next
    case False
    then show ?thesis using snoc new times_of_Nil [of v frames] by (auto simp: f times_of_snoc)
  qed
qed (simp add: tally_def)

lemma tally_keys: "map fst (tally frames) = in_order (map snd frames)"
proof (induction frames rule: rev_induct)
  case (snoc f frames)
  then have "set (map fst (tally frames)) = snd ` set frames" by (simp add: in_order_def)
  then show ?case using snoc
    by (cases f) (simp add: tally_snoc add_frame_def update_keys in_order_snoc)
qed (simp add: tally_def in_order_def)

lemma seen_update:
  "distinct (map fst g) \<Longrightarrow> sum_list (map (seen \<circ> snd) (dict_set g v w)) + (case dict_get g v of None \<Rightarrow> 0 | Some u \<Rightarrow> seen u) =
     sum_list (map (seen \<circ> snd) g) + seen w"
  by (induction g) (auto split: option.splits dest: map_of_SomeD)

lemma tally_total: "sum_list (map (seen \<circ> snd) (tally frames)) = length frames"
proof (induction frames rule: rev_induct)
  case (snoc f frames)
  obtain ts v where f: "f = (ts, v)" by (cases f)
  have "distinct (map fst (tally frames))" by (simp add: tally_keys in_order_def)
  note u = seen_update [OF this, of v]
  show ?case
  proof (cases "dict_get (tally frames) v")
    case None
    then show ?thesis using u [of "\<lparr>first_seen = ts, last_seen = ts, seen = 1\<rparr>"] snoc
      by (simp add: f tally_snoc add_frame_def o_def)
  next
    case (Some w)
    then show ?thesis using u [of "w\<lparr>last_seen := ts, seen := Suc (seen w)\<rparr>"] snoc
      by (simp add: f tally_snoc add_frame_def o_def)
  qed
qed (simp add: tally_def)

text \<open>
  The report groups the frames exactly: it lists each value that came once, in the order of
  its first frame, with the times of its first and its last frame and the number of its frames,
  and these numbers add up to the number of frames.
\<close>
lemma windows_exact:
  "tally frames = map (\<lambda>v. (v, \<lparr>first_seen = hd (times_of v frames), last_seen = last (times_of v frames),
       seen = length (times_of v frames)\<rparr>)) (in_order (map snd frames)) \<and>
   sum_list (map (seen \<circ> snd) (tally frames)) = length frames"
proof -
  have d: "distinct (map fst (tally frames))" by (simp add: tally_keys in_order_def)
  have "x = (fst x, the (dict_get (tally frames) (fst x)))" if "x \<in> set (tally frames)" for x
    using d that by (cases x) (simp add: map_of_is_SomeI)
  then have "tally frames = map (\<lambda>v. (v, the (dict_get (tally frames) v))) (map fst (tally frames))"
    by (simp add: map_idI)
  also have "\<dots> = map (\<lambda>v. (v, \<lparr>first_seen = hd (times_of v frames), last_seen = last (times_of v frames),
       seen = length (times_of v frames)\<rparr>)) (in_order (map snd frames))"
    unfolding tally_keys by (rule map_cong) (auto simp: tally_lookup in_order_def)
  finally show ?thesis using tally_total [of frames] by blast
qed

section \<open>Reading the relay's lines\<close>

definition stamp_of :: "nat \<times> nat \<Rightarrow> str" where
  "stamp_of t = relay_ts (fst t) (snd t)"

definition hms_of :: "nat \<times> nat \<Rightarrow> str" where
  "hms_of t = take 8 (stamp_of t)"

lemma stamp_scanned:
  obtains ms where "scan_hms (stamp_of t @ r) = Some (hms_of t, ''.'' @ ms @ r)" "list_all is_digit ms" "ms \<noteq> []"
    "stamp_of t = hms_of t @ ''.'' @ ms"
proof -
  let ?ms = "hex_nibble (snd t div 100 mod 10) # two_digits (snd t)"
  have "scan_hms (stamp_of t @ r) = Some (hms_of t, ''.'' @ ?ms @ r)" "list_all is_digit ?ms"
    "stamp_of t = hms_of t @ ''.'' @ ?ms"
    by (auto simp: stamp_of_def hms_of_def relay_ts_def two_digits_def scan_hms_def is_digit_hex_nibble)
  then show ?thesis using that [of ?ms] by blast
qed

lemma chunk_line_stamp: "chunk_line t s b = stamp_of t @ '' '' @ label_of s @ dump_of b"
  by (simp add: chunk_line_parts stamp_of_def)

lemma stamp_skipped:
  assumes "list_all is_digit ms" "ms \<noteq> []"
  shows "scan_digits (ms @ '' '' @ r) = Some ('' '' @ r)" "takeWhile is_digit (ms @ '' '' @ r) = ms"
  using scan_digits_then [OF assms, of r] takeWhile_then [OF assms(1), of "CHR '' ''" r] by (simp_all add: is_digit_def)

lemma match_event_chunk:
  assumes "b \<noteq> []"
  shows "match_event (chunk_line t s b) = Some (hms_of t, label_of s, to_hex b)"
proof -
  let ?r = "label_of s @ dump_of b"
  obtain ms where ms: "scan_hms (stamp_of t @ '' '' @ ?r) = Some (hms_of t, ''.'' @ ms @ '' '' @ ?r)" "list_all is_digit ms" "ms \<noteq> []"
    using stamp_scanned [of t "'' '' @ ?r"] by metis
  have lit: "scan_lit ''.'' (''.'' @ r) = Some r" "scan_lit '' '' ('' '' @ r) = Some r" for r
    by (rule scan_lit_append)+
  have "match_either ?r = Some ((label_of s, to_hex b), length ?r - 1)"
    using dump_scanned [OF assms, of Client] dump_scanned [OF assms, of Upstream]
    by (cases s) (auto simp: match_either_def label_of_def match_chunk_def scan_lit_def startswith_def split: if_splits)
  then have "re_search match_either ?r = Some (label_of s, to_hex b)" by (rule re_search_here)
  then show ?thesis using ms(1) stamp_skipped [OF ms(2,3), of ?r] lit
    by (simp add: match_event_def chunk_line_stamp)
qed

text \<open>What there is to see in the traffic itself, each chunk with the time of its line.\<close>

definition traffic_event :: "str \<Rightarrow> (nat \<times> nat) \<times> side \<times> bytes \<Rightarrow> event option" where
  "traffic_event since x = (case x of (t, s, b) \<Rightarrow>
     if str_less (hms_of t) since then None else event_of (hms_of t) s (utf8_replace b))"

definition timed :: "(nat \<Rightarrow> nat \<times> nat) \<Rightarrow> nat \<Rightarrow> 'a list \<Rightarrow> ((nat \<times> nat) \<times> 'a) list" where
  "timed clock n xs = map (\<lambda>(i, x). (clock i, x)) (List.enumerate n xs)"

lemma timed_simps [simp]:
  "timed clock n [] = []" "timed clock n (x # xs) = (clock n, x) # timed clock (Suc n) xs"
  by (simp_all add: timed_def)

lemma timeline_line_chunk:
  assumes "b \<noteq> []"
  shows "timeline_line since (chunk_line t s b) = traffic_event since (t, s, b)"
  using match_event_chunk [OF assms, of t s]
  by (cases s) (simp_all add: timeline_line_def traffic_event_def label_of_def)

lemma timeline_logged:
  "[] \<notin> snd ` set shown \<Longrightarrow>
     List.map_filter (timeline_line since) (logged clock n shown) = List.map_filter (traffic_event since) (timed clock n shown)"
proof (induction shown arbitrary: n)
  case (Cons x shown)
  obtain s b where x: "x = (s, b)" by (cases x)
  then have "b \<noteq> []" using Cons.prems by auto
  then show ?case using Cons by (simp add: x timeline_line_chunk map_filter_simps split: option.split)
qed simp

text \<open>
  The timeline of a relay's log is that of its traffic: in order, a request for every chunk of
  an appliance with a POST, named after the end of its path and the model its body names, and the
  status for every chunk of the cloud with a status line, from the given time of day on; by
  default the last thirty.
\<close>
lemma timeline_of_traffic:
  assumes "[] \<notin> snd ` set shown"
    and "es = List.map_filter (traffic_event (zfill 8 (case from of None \<Rightarrow> ''00:00:00'' | Some t \<Rightarrow> t))) (timed clock n shown)"
  shows "timeline from None (logged clock n shown) = Inr (drop (length es - 30) es)"
  using timeline_logged [OF assms(1)] by (simp add: timeline_def py_tail_def assms(2))

section \<open>The snapshots of a log\<close>

lemma search_last_none:
  assumes "\<And>s x. m s = Some x \<Longrightarrow> s \<noteq> [] \<and> hd s = c" "c \<notin> set p"
  shows "re_search_last m p = None"
  using assms(2)
proof (induction p)
  case Nil
  show ?case using assms(1) [of "[]"] by (cases "m []") auto
next
  case (Cons a p)
  then have "m (a # p) = None" using assms(1) [of "a # p"] by (cases "m (a # p)") auto
  then show ?case using Cons by simp
qed

lemma search_last_later: "re_search_last m r = Some x \<Longrightarrow> re_search_last m (p @ r) = Some x"
  by (induction p) simp_all

lemma match_dump_chunk:
  assumes "b \<noteq> []"
  shows "match_dump (chunk_line t s b) = Some (stamp_of t, to_hex b)"
proof -
  let ?r = "label_of s @ dump_of b" and ?h = "to_hex b @ [CHR 10]"
  obtain ms where ms: "scan_hms (stamp_of t @ '' '' @ ?r) = Some (hms_of t, ''.'' @ ms @ '' '' @ ?r)" "list_all is_digit ms" "ms \<noteq> []"
    "stamp_of t = hms_of t @ ''.'' @ ms"
    using stamp_scanned [of t "'' '' @ ?r"] by metis
  have lit: "scan_lit ''.'' (''.'' @ r) = Some r" "scan_lit ''hex='' (''hex='' @ r) = Some r" for r
    by (rule scan_lit_append)+
  have "\<not> is_low_hex (CHR 10)" by (simp add: is_low_hex_def is_digit_def)
  then have tw: "takeWhile is_low_hex ?h = to_hex b" using takeWhile_then [OF to_hex_low, of "CHR 10" b "[]"] by simp
  have head: "match_hex s = Some x \<Longrightarrow> s \<noteq> [] \<and> hd s = CHR ''h''" for s x
    by (auto simp: match_hex_def scan_lit_def startswith_iff_prefix prefix_def split: if_splits Option.bind_splits)
  have "CHR ''h'' \<notin> set (''ex='' @ ?h)" using to_hex_low [of b] by (auto simp: list_all_iff is_low_hex_def is_digit_def)
  then have "re_search_last match_hex (''ex='' @ ?h) = None" by (rule search_last_none [rotated]) (rule head)
  moreover have "match_hex (''hex='' @ ?h) = Some (to_hex b, 4 + length (to_hex b))"
    using lit(2) [of ?h] to_hex_nonempty [OF assms] by (simp add: match_hex_def tw Let_def)
  ultimately have "re_search_last match_hex (''hex='' @ ?h) = Some (to_hex b)" by simp
  from search_last_later [OF this, of "'' '' @ label_of s @ '' len='' @ nat_str (length b) @ '' ''"]
  have "re_search_last match_hex ('' '' @ ?r) = Some (to_hex b)" by (simp add: dump_of_def)
  then show ?thesis using ms stamp_skipped [OF ms(2,3), of ?r] lit(1)
    by (simp add: match_dump_def chunk_line_stamp)
qed

lemma client_in_line:
  "sublist ''C->U'' (chunk_line t s b) \<longleftrightarrow> s = Client"
proof (cases s)
  case Client
  then have "chunk_line t s b = (stamp_of t @ '' '') @ ''C->U'' @ dump_of b" by (simp add: chunk_line_stamp label_of_def)
  then show ?thesis using Client by (metis sublist_appendI)
next
  case Upstream
  let ?p = "stamp_of t @ '' '' @ ''U->''"
  have "CHR ''C'' \<notin> set ?p" "CHR ''C'' \<notin> set (dump_of b)"
    using relay_ts_chars [of "fst t" "snd t"] dump_chars [of b] not_stamp by (auto simp: stamp_of_def)
  moreover have "chunk_line t s b = ?p @ CHR ''C'' # dump_of b" using Upstream by (simp add: chunk_line_stamp label_of_def)
  ultimately have "ss = dump_of b" if "chunk_line t s b = ps @ CHR ''C'' # ss" for ps ss
    using that by (metis append_Cons_eq_iff)
  then have "\<not> sublist ''C->U'' (chunk_line t s b)" by (fastforce simp: sublist_def dump_of_def)
  then show ?thesis using Upstream by simp
qed

definition blob_of :: "message \<Rightarrow> bytes option" where
  "blob_of m = (case pump_blob (JObj m) of Inr r \<Rightarrow> r | Inl _ \<Rightarrow> None)"

definition readable :: "message \<Rightarrow> bool" where
  "readable m \<longleftrightarrow> json_ok (JObj m) \<and> \<not> isl (pump_blob (JObj m))"

lemma walk_frames_encoded:
  assumes "list_all2 (\<lambda>m w. encode_message_len4 m = Inr w) ms ws" "list_all readable ms"
  shows "walk_frames ts (concat ws) acc = Inr (fold (add_blob ts) (map blob_of ms) acc)"
  using assms
proof (induction arbitrary: acc rule: list_all2_induct)
  case (Cons m ms w ws)
  let ?p = "dumps_compact (JObj m)"
  have w: "w = be32 (length ?p) @ ?p" "length ?p < 4294967296"
    using Cons.hyps(1) by (auto simp: encode_message_len4_def Let_def split: if_splits)
  obtain r where r: "pump_blob (JObj m) = Inr r" "blob_of m = r" "json_ok (JObj m)"
    using Cons.prems by (cases "pump_blob (JObj m)") (auto simp: readable_def blob_of_def)
  then have "loads_bytes ?p = Some (JObj m)" by simp
  then show ?case using Cons w r by (subst walk_frames.simps) (simp add: Let_def)
qed (simp add: walk_frames.simps)

text \<open>A chunk that is a row of messages, and what the cloud sends in between.\<close>

definition packs :: "side \<times> bytes \<Rightarrow> message list \<Rightarrow> bool" where
  "packs x ms \<longleftrightarrow> snd x \<noteq> [] \<and>
     (if fst x = Client then list_all readable ms \<and>
        (\<exists>ws. list_all2 (\<lambda>m w. encode_message_len4 m = Inr w) ms ws \<and> snd x = concat ws)
      else ms = [])"

lemma door_line_chunk:
  assumes "packs (s, b) ms"
  shows "door_line (chunk_line t s b) acc = Inr (fold (add_blob (stamp_of t)) (map blob_of ms) acc)"
proof -
  have d: "match_dump (chunk_line t s b) = Some (stamp_of t, to_hex b)" using assms by (simp add: packs_def match_dump_chunk)
  show ?thesis
  proof (cases "s = Client")
    case True
    then obtain ws where "list_all2 (\<lambda>m w. encode_message_len4 m = Inr w) ms ws" "b = concat ws" "list_all readable ms"
      using assms by (auto simp: packs_def)
    then show ?thesis using d True by (simp add: door_line_def client_in_line unhex_def res_of_option_def walk_frames_encoded)
  qed (use assms d in \<open>simp add: door_line_def client_in_line packs_def\<close>)
qed

text \<open>The snapshots of the messages, each with the stamp of its line.\<close>

definition stamped_blobs :: "(nat \<times> nat) \<times> message list \<Rightarrow> (str \<times> bytes) list" where
  "stamped_blobs x = map (Pair (stamp_of (fst x))) (List.map_filter blob_of (snd x))"

definition count_blobs :: "(str \<times> bytes) list \<Rightarrow> frames \<Rightarrow> frames" where
  "count_blobs bs acc = (case acc of (frames, skipped) \<Rightarrow>
     (frames @ map (\<lambda>(ts, b). (ts, to_hex b)) (filter (\<lambda>x. length (snd x) = mondata_len) bs),
      skipped + length (filter (\<lambda>x. length (snd x) \<noteq> mondata_len) bs)))"

lemma count_blobs_append: "count_blobs (xs @ ys) acc = count_blobs ys (count_blobs xs acc)"
  by (simp add: count_blobs_def split: prod.splits)

lemma fold_add_blob:
  "fold (add_blob ts) (map blob_of ms) acc = count_blobs (map (Pair ts) (List.map_filter blob_of ms)) acc"
proof (induction ms arbitrary: acc)
  case (Cons m ms)
  then show ?case
    by (cases "blob_of m"; cases acc) (simp_all add: map_filter_simps add_blob_def count_blobs_def)
qed (simp add: map_filter_simps count_blobs_def split: prod.splits)

lemma door_lines_logged:
  assumes "list_all2 packs shown mss"
  shows "door_lines (logged clock n shown) acc = Inr (count_blobs (concat (map stamped_blobs (timed clock n mss))) acc)"
  using assms
proof (induction arbitrary: n acc rule: list_all2_induct)
  case (Cons x shown ms mss)
  obtain s b where x: "x = (s, b)" by (cases x)
  have "door_line (chunk_line (clock n) s b) acc = Inr (count_blobs (stamped_blobs (clock n, ms)) acc)"
    using door_line_chunk [OF Cons.hyps(1) [unfolded x], of "clock n" acc] by (simp add: fold_add_blob stamped_blobs_def)
  then show ?case using Cons.IH [of "Suc n"] by (simp add: x count_blobs_append)
qed (simp add: count_blobs_def split: prod.splits)

text \<open>
  The door check of a log is exact: when every chunk of the appliance is a row of whole
  messages, it lists each value of a 28-byte snapshot that was sent, once, in the order of first
  appearance, with the times of its first and its last line and how often it was sent; the numbers
  add up to the snapshots sent, and those of another length are counted apart.
\<close>
lemma door_check_exact:
  assumes "list_all2 packs shown mss"
    and "bs = concat (map stamped_blobs (timed clock n mss))"
    and "fs = map (\<lambda>(ts, b). (ts, to_hex b)) (filter (\<lambda>x. length (snd x) = mondata_len) bs)"
  shows "door_lines (logged clock n shown) ([], 0) = Inr (fs, length bs - length fs) \<and>
    tally fs = map (\<lambda>v. (v, \<lparr>first_seen = hd (times_of v fs), last_seen = last (times_of v fs),
       seen = length (times_of v fs)\<rparr>)) (in_order (map snd fs)) \<and>
    sum_list (map (seen \<circ> snd) (tally fs)) = length fs"
proof -
  have "length (filter (\<lambda>x. length (snd x) \<noteq> mondata_len) bs) = length bs - length fs"
    using sum_length_filter_compl [of "\<lambda>x. length (snd x) = mondata_len" bs] by (simp add: assms(3))
  then have "door_lines (logged clock n shown) ([], 0) = Inr (fs, length bs - length fs)"
    using door_lines_logged [OF assms(1), of clock n "([], 0)"] assms(2,3) by (simp add: count_blobs_def)
  with windows_exact show ?thesis by blast
qed

text \<open>
  A line the relay is still writing, cut within a byte, ends the door check with an exception; the
  timeline passes over it.
\<close>

lemma torn_line_ends_check:
  "door_line ''01:01:01.007 C->U len=2 hex=616'' acc = Inl ValueError"
  "timeline_line since ''01:01:01.007 C->U len=2 hex=616'' = None"
proof -
  have "match_dump ''01:01:01.007 C->U len=2 hex=616'' = Some (''01:01:01.007'', ''616'')" "unhex ''616'' = Inl ValueError"
    "sublist ''C->U'' ''01:01:01.007 C->U len=2 hex=616''"
    "match_event ''01:01:01.007 C->U len=2 hex=616'' = Some (''01:01:01'', ''C->U'', ''616'')" "from_hex ''616'' = None"
    by code_simp+
  then show "door_line ''01:01:01.007 C->U len=2 hex=616'' acc = Inl ValueError"
    "timeline_line since ''01:01:01.007 C->U len=2 hex=616'' = None"
    by (simp_all add: door_line_def timeline_line_def)
qed

section \<open>Two logs\<close>

definition sample_shown :: "(side \<times> bytes) list" where
  "sample_shown = [(Client, ''POST /lgehadm/api/TimeSvc HTTP/1.1 <modelName>WTWN3</modelName>''),
     (Client, ''more''), (Upstream, ''HTTP/1.1 200 OK'')]"

lemma timeline_of_traffic_witness:
  "timeline None None (logged (\<lambda>n. (n, 0)) 0 sample_shown) =
     Inr [(''00:00:00'', ''APPLIANCE->LG'', ''TimeSvc [WTWN3]''), (''00:00:02'', ''LG->APPLIANCE'', ''200'')]"
proof -
  have es: "[(''00:00:00'', ''APPLIANCE->LG'', ''TimeSvc [WTWN3]''), (''00:00:02'', ''LG->APPLIANCE'', ''200'')] =
      List.map_filter (traffic_event (zfill 8 (case None of None \<Rightarrow> ''00:00:00'' | Some t \<Rightarrow> t))) (timed (\<lambda>n. (n, 0)) 0 sample_shown)"
    by code_simp
  have "[] \<notin> snd ` set sample_shown" by (simp add: sample_shown_def)
  from timeline_of_traffic [OF this es] show ?thesis by simp
qed

definition sample_door_pump :: message where
  "sample_door_pump = [(''Body'', JObj [(''ReturnCode'', JStr ''0000''), (''Format'', JStr ''B64''),
     (''Data'', JStr ''AwMDAwMDAwMDAwMDAwMDAwMDAwMDAwMDAwMDAw=='')])]"

lemma sample_door_pump_facts:
  "blob_of sample_door_pump = Some (replicate 28 (byte_of 3))" "readable sample_door_pump"
  "length (dumps_compact (JObj sample_door_pump)) < 4294967296"
proof -
  have b: "b64decode ''AwMDAwMDAwMDAwMDAwMDAwMDAwMDAwMDAwMDAw=='' = Some (replicate 28 (byte_of 3))" by code_simp
  then have "pump_blob (JObj sample_door_pump) = Inr (Some (replicate 28 (byte_of 3)))"
    by (simp add: pump_blob_def sample_door_pump_def json_get_JObj get_or_def has_key_def b64_arg_def res_of_option_def del: json_get.simps replicate.simps)
  then show "blob_of sample_door_pump = Some (replicate 28 (byte_of 3))" "readable sample_door_pump"
    by (simp_all add: blob_of_def readable_def sample_door_pump_def)
qed (simp add: sample_door_pump_def dumps_length)

lemma door_check_exact_witness:
  "\<exists>w. encode_message_len4 sample_door_pump = Inr w \<and>
     door_lines (logged (\<lambda>n. (n, 0)) 0 [(Client, w @ w), (Upstream, ''ok'')]) ([], 0) =
       Inr ([(''00:00:00.000'', to_hex (replicate 28 (byte_of 3))), (''00:00:00.000'', to_hex (replicate 28 (byte_of 3)))], 0)"
proof -
  obtain w where w: "encode_message_len4 sample_door_pump = Inr w" "w \<noteq> []"
    using sample_door_pump_facts(3) by (auto simp: encode_message_len4_def be32_def Let_def)
  have "list_all2 (\<lambda>m w. encode_message_len4 m = Inr w) [sample_door_pump, sample_door_pump] [w, w]" "w @ w = concat [w, w]"
    using w by simp_all
  then have p: "list_all2 packs [(Client, w @ w), (Upstream, ''ok'')] [[sample_door_pump, sample_door_pump], []]"
    using w sample_door_pump_facts(2) by (fastforce simp: packs_def)
  have "stamp_of (0, 0) = ''00:00:00.000''" by code_simp
  with door_check_exact [OF p refl refl, of "\<lambda>n. (n, 0)" 0] w(1) show ?thesis
    by (simp add: stamped_blobs_def sample_door_pump_facts(1) map_filter_simps const_defs del: replicate.simps door_lines.simps logged.simps)
qed

end
