(* ===== verification/StandaloneRelay.thy ===== *)
theory StandaloneRelay
  imports RelayLog
begin

text \<open>
  \<open>deploy/wm_relay.py\<close>, which runs on its own on the appliance's way to the cloud. Its engine is a
  copy of \<open>server/wm_bridge.py\<close> that has gone its own way: its endpoints are like those of
  \<open>RelayEngine\<close> and so are, as is shown first, its operations on one, but it writes its log itself, reports a failed handshake with a stamp, counts a
  chunk as a sign of life only once it is written, and gives up after a fixed time. Times are
  milliseconds; the clock says what the n-th line of the log is stamped with.
\<close>

section \<open>Its endpoints\<close>

definition wm_end :: "'t \<Rightarrow> 't tls_end" where
  "wm_end t = \<lparr>tls = t, pending = [], handshaken = False, dead = False, got = [], put = [], drained = [], wire = []\<rparr>"

text \<open>\<open>True\<close> when the endpoint is alive: everything is sent, or the socket takes no more for now.\<close>

fun wm_flush :: "send_result list \<Rightarrow> 't tls_end \<Rightarrow> bool \<times> 't tls_end" where
  "wm_flush [] e = (True, e)"
| "wm_flush (r # rs) e =
     (if pending e = [] then (True, e)
      else case r of
          Accepts n \<Rightarrow> wm_flush rs (e\<lparr>pending := drop n (pending e), wire := wire e @ take n (pending e)\<rparr>)
        | WouldBlock \<Rightarrow> (True, e)
        | SendFails \<Rightarrow> (False, e))"

definition wm_drain :: "'t tls_lib \<Rightarrow> 't tls_end \<Rightarrow> bool \<times> 't tls_end" where
  "wm_drain lib e = (case bio_take lib (tls e) of (data, t) \<Rightarrow>
     if data \<noteq> [] then (True, e\<lparr>tls := t, pending := pending e @ data, drained := drained e @ data\<rparr>)
     else (False, e\<lparr>tls := t\<rparr>))"

text \<open>One decryption step; an error marks the endpoint dead and looks like the end of the stream.\<close>

definition wm_read_plain :: "'t tls_lib \<Rightarrow> 't tls_end \<Rightarrow> bytes option \<times> 't tls_end" where
  "wm_read_plain lib e = (case tls_read lib (tls e) of (res, t) \<Rightarrow>
     let e' = e\<lparr>tls := t\<rparr> in
     (case res of
        Plain b \<Rightarrow> (Some b, e')
      | WantRead \<Rightarrow> (None, e')
      | ZeroReturn \<Rightarrow> (Some [], e')
      | ReadError \<Rightarrow> (Some [], e'\<lparr>dead := True\<rparr>)))"

definition wm_feed_socket :: "'t tls_lib \<Rightarrow> recv_result \<Rightarrow> 't tls_end \<Rightarrow> bool \<times> 't tls_end" where
  "wm_feed_socket lib r e = (case r of
      RecvBlocks \<Rightarrow> (True, e)
    | RecvFails \<Rightarrow> (False, e)
    | Received b \<Rightarrow> (True, e\<lparr>tls := (if b = [] then bio_eof lib else bio_feed lib b) (tls e)\<rparr>))"

text \<open>The writing part of a pass for one endpoint: whether it made progress.\<close>

definition wm_flush_end :: "'t tls_lib \<Rightarrow> send_result list \<Rightarrow> 't tls_end \<Rightarrow> bool \<times> 't tls_end" where
  "wm_flush_end lib sends e = (case wm_drain lib e of (produced, e1) \<Rightarrow>
     (case wm_flush sends e1 of (alive, e2) \<Rightarrow>
        if \<not> alive then (produced, e2\<lparr>dead := True\<rparr>)
        else (produced \<or> length (pending e2) < length (pending e1), e2)))"

text \<open>What is reported of an endpoint whose socket is ready.\<close>

fun wm_ready :: "'t tls_lib \<Rightarrow> ready \<Rightarrow> ('t, 'o) relay \<Rightarrow> ('t, 'o) relay" where
  "wm_ready lib (Writable s sends) r = on_side s (wm_flush sends) r"
| "wm_ready lib (Readable s rv) r = on_side s (wm_feed_socket lib rv) r"

text \<open>The copies do what the originals do.\<close>

lemma fork_end [simp]: "wm_end t = new_end t"
  by (simp add: wm_end_def new_end_def)

lemma fork_flush [simp]: "wm_flush rs e = flush rs e"
  by (induction rs e rule: wm_flush.induct) (auto split: send_result.splits)

lemma fork_drain [simp]: "wm_drain lib e = drain lib e"
  by (cases "bio_take lib (tls e)") (simp add: wm_drain_def drain_def)

lemma fork_read_plain [simp]: "wm_read_plain lib e = read_plain lib e"
  by (auto simp: wm_read_plain_def read_plain_def Let_def split: prod.splits read_result.splits)

lemma fork_feed_socket [simp]: "wm_feed_socket lib r e = feed_socket lib r e"
  by (auto simp: wm_feed_socket_def feed_socket_def split: recv_result.splits)

lemma fork_flush_end [simp]: "wm_flush_end lib sends e = flush_end lib sends e"
  by (simp add: wm_flush_end_def flush_end_def split: prod.splits)

lemma fork_ready [simp]: "wm_ready lib = on_ready lib"
proof (intro ext)
  fix ev and r :: "('a, 'b) relay"
  have "wm_flush sends = (flush sends :: 'a tls_end \<Rightarrow> _)" "wm_feed_socket lib rv = feed_socket lib rv" for sends rv
    by (simp_all add: fun_eq_iff)
  then show "wm_ready lib ev r = on_ready lib ev r" by (cases ev) simp_all
qed

section \<open>Its loop\<close>

record relay_io =
  stamps :: "nat \<Rightarrow> nat \<times> nat"
  alert :: "side \<Rightarrow> str"

definition stamped_line :: "nat \<times> nat \<Rightarrow> str \<Rightarrow> str" where
  "stamped_line t text = (case t of (secs, ms) \<Rightarrow> relay_ts secs ms) @ '' '' @ text @ [CHR 10]"

definition log_line :: "relay_io \<Rightarrow> str \<Rightarrow> str list \<Rightarrow> str list" where
  "log_line io text log = log @ [stamped_line (stamps io (length log)) text]"

definition idle_timeout :: int where
  [const_defs]: "idle_timeout = 300000"

definition end_name :: "side \<Rightarrow> str" where
  "end_name s = (case s of Client \<Rightarrow> ''C'' | Upstream \<Rightarrow> ''U'')"

definition failure_text :: "relay_io \<Rightarrow> side \<Rightarrow> str" where
  "failure_text io s = end_name s @ '' handshake failed ('' @ alert io s @ '')''"

definition wm_handshake ::
  "'t tls_lib \<Rightarrow> relay_io \<Rightarrow> side \<Rightarrow> 't tls_end \<Rightarrow> str list \<Rightarrow> bool \<times> 't tls_end \<times> str list" where
  "wm_handshake lib io s e log =
     (if handshaken e \<or> dead e then (False, e, log)
      else case do_handshake lib (tls e) of
          (HsDone, t) \<Rightarrow> (True, e\<lparr>tls := t, handshaken := True\<rparr>, log)
        | (HsWant, t) \<Rightarrow> (False, e\<lparr>tls := t\<rparr>, log)
        | (HsFail, t) \<Rightarrow> (False, e\<lparr>tls := t, dead := True\<rparr>,
             log_line io (failure_text io s) log))"

text \<open>One direction, at the time \<open>tm\<close>; the result is \<open>None\<close> when the fuel does not suffice.\<close>

fun wm_pump ::
  "'t tls_lib \<Rightarrow> relay_io \<Rightarrow> side \<Rightarrow> int \<Rightarrow> nat \<Rightarrow> 't tls_end \<Rightarrow> 't tls_end \<Rightarrow> str list \<Rightarrow> int \<Rightarrow> bool \<Rightarrow>
   ('t tls_end \<times> 't tls_end \<times> str list \<times> int \<times> bool) option" where
  "wm_pump lib io s tm 0 src dst log alive progressed = None"
| "wm_pump lib io s tm (Suc n) src dst log alive progressed =
     (if dead src \<or> dead dst then Some (src, dst, log, alive, progressed)
      else case wm_read_plain lib src of
          (None, src1) \<Rightarrow> Some (src1, dst, log, alive, progressed)
        | (Some [], src1) \<Rightarrow> Some (src1\<lparr>dead := True\<rparr>, dst, log, alive, progressed)
        | (Some (c # cs), src1) \<Rightarrow>
            let src2 = src1\<lparr>got := got src1 @ [c # cs]\<rparr>;
                log' = log @ [chunk_line (stamps io (length log)) s (c # cs)] in
            (case tls_write lib (c # cs) (tls dst) of
               (False, t) \<Rightarrow> Some (src2, dst\<lparr>tls := t, dead := True\<rparr>, log', alive, progressed)
             | (True, t) \<Rightarrow> wm_pump lib io s tm n src2 (dst\<lparr>tls := t, put := put dst @ [c # cs]\<rparr>) log' tm True))"

text \<open>
  A pass of the loop: what the sockets accept, what \<open>select\<close> reports, and the times at the pass's
  last chunk and after the \<open>select\<close>. The flag says whether the loop goes on.
\<close>

record wm_pass =
  c_sends :: "send_result list"
  u_sends :: "send_result list"
  events :: "ready list"
  chunk_time :: int
  check_time :: int

type_synonym 't wm_state = "('t, str list) relay \<times> int"

definition wm_pump_both ::
  "'t tls_lib \<Rightarrow> relay_io \<Rightarrow> nat \<Rightarrow> int \<Rightarrow> 't wm_state \<Rightarrow> bool \<Rightarrow> ('t wm_state \<times> bool) option" where
  "wm_pump_both lib io fuel tm r progressed = (case r of ((c, u, log), alive) \<Rightarrow>
     if \<not> (handshaken c \<and> handshaken u) then Some (r, progressed)
     else do {
       (c1, u1, log1, alive1, p1) \<leftarrow> wm_pump lib io Client tm fuel c u log alive progressed;
       (u2, c2, log2, alive2, p2) \<leftarrow> wm_pump lib io Upstream tm fuel u1 c1 log1 alive1 p1;
       Some (((c2, u2, log2), alive2), p2) })"

definition wm_turn ::
  "'t tls_lib \<Rightarrow> relay_io \<Rightarrow> nat \<Rightarrow> wm_pass \<Rightarrow> 't wm_state \<Rightarrow> ('t wm_state \<times> bool) option" where
  "wm_turn lib io fuel ps r = (case r of ((c, u, log), alive) \<Rightarrow>
     if dead c \<or> dead u then Some (r, False)
     else
       let (p1, c1, log1) = wm_handshake lib io Client c log;
           (p2, u1, log2) = wm_handshake lib io Upstream u log1 in
       (case wm_pump_both lib io fuel (chunk_time ps) ((c1, u1, log2), alive) (p1 \<or> p2) of
          None \<Rightarrow> None
        | Some (((c2, u2, log3), alive'), p3) \<Rightarrow>
            let (p4, c3) = wm_flush_end lib (c_sends ps) c2; (p5, u3) = wm_flush_end lib (u_sends ps) u2 in
            if dead c3 \<or> dead u3 then Some (((c3, u3, log3), alive'), False)
            else if p3 \<or> p4 \<or> p5 then Some (((c3, u3, log3), alive'), True)
            else if events ps = [] then Some (((c3, u3, log3), alive'), \<not> idle_timeout < check_time ps - alive')
            else Some ((fold (wm_ready lib) (events ps) (c3, u3, log3), alive'), True)))"

text \<open>The flag of the result says that the loop still runs when the passes are over.\<close>

fun wm_loop ::
  "'t tls_lib \<Rightarrow> relay_io \<Rightarrow> nat \<Rightarrow> wm_pass list \<Rightarrow> 't wm_state \<Rightarrow> ('t wm_state \<times> bool) option" where
  "wm_loop lib io fuel [] r = Some (r, True)"
| "wm_loop lib io fuel (ps # pss) r =
     (case wm_turn lib io fuel ps r of
        None \<Rightarrow> None
      | Some (r', go) \<Rightarrow> if go then wm_loop lib io fuel pss r' else Some (r', False))"

definition wm_bridge ::
  "'t tls_lib \<Rightarrow> relay_io \<Rightarrow> nat \<Rightarrow> wm_pass list \<Rightarrow> str \<Rightarrow> int \<Rightarrow> ('t, str list) relay \<Rightarrow>
   ('t, str list) relay option" where
  "wm_bridge lib io fuel pss peer start r =
     map_option (\<lambda>(((c, u, log), alive), running).
         (c, u, if running then log else log_line io (peer @ '' relay closed'') log))
       (wm_loop lib io fuel pss (r, start))"

text \<open>The connection of one appliance: the upstream is connected to first.\<close>

definition arrow :: str where
  [const_defs]: "arrow = [CHR 0xE2, CHR 0x86, CHR 0x92]"

definition open_text :: "str \<Rightarrow> str \<times> int \<Rightarrow> str" where
  "open_text peer dst = peer @ '' relay open '' @ arrow @ '' '' @ fst dst @ '':'' @ int_str (snd dst)"

definition wm_connection ::
  "'t tls_lib \<Rightarrow> relay_io \<Rightarrow> nat \<Rightarrow> wm_pass list \<Rightarrow> str \<Rightarrow> str \<times> int \<Rightarrow> int \<Rightarrow> str option \<Rightarrow> 't \<Rightarrow> 't \<Rightarrow> str list \<Rightarrow>
   (('t tls_end \<times> 't tls_end) option \<times> str list) option" where
  "wm_connection lib io fuel pss peer dst start refused tc tu log =
     (case refused of
        Some e \<Rightarrow> Some (None, log_line io (peer @ '' upstream connect failed ('' @ e @ ''); closing'') log)
      | None \<Rightarrow> map_option (\<lambda>(c, u, log'). (Some (c, u), log'))
          (wm_bridge lib io fuel pss peer start (wm_end tc, wm_end tu, log_line io (open_text peer dst) log)))"

section \<open>It is the shared engine\<close>

text \<open>Without the time of the last chunk, a direction is the engine's, observed by the log.\<close>

lemma wm_pump_engine:
  "map_option (\<lambda>(src, dst, log, alive, p). (src, dst, log, p)) (wm_pump lib io s tm n src dst log alive p) =
   pump lib (log_chunk (stamps io) s) n src dst log p"
proof (induction n arbitrary: src dst log alive p)
  case (Suc n)
  show ?case
    by (auto simp: Suc.IH Let_def log_chunk_def split: option.splits list.splits prod.splits bool.splits)
qed simp

lemma wm_pump_both_engine:
  assumes "wm_pump_both lib io fuel tm (r, alive) p = Some ((r', alive'), p')"
  shows "pump_both lib (log_chunk (stamps io)) fuel r p = Some (r', p')"
proof -
  obtain c u log where r: "r = (c, u, log)" by (cases r)
  have engine: "pump lib (log_chunk (stamps io) s) fuel src dst l q = Some (src', dst', l', q')"
    if "wm_pump lib io s tm fuel src dst l al q = Some (src', dst', l', al', q')" for s src dst l al q src' dst' l' al' q'
    using wm_pump_engine [of lib io s tm fuel src dst l al q] that by simp
  show ?thesis
    using assms by (auto simp: r wm_pump_both_def pump_both_def dest!: engine split: if_splits Option.bind_splits)
qed

text \<open>A pass of it is a turn of the engine, with the idle limit reached or not.\<close>

definition as_turn :: "wm_pass \<Rightarrow> bool \<Rightarrow> turn" where
  "as_turn ps i = \<lparr>client_sends = c_sends ps, up_sends = u_sends ps, selected = events ps, idle = i\<rparr>"

lemma wm_handshake_engine:
  "wm_handshake lib io s e log = (p, e', log') \<Longrightarrow> drive_handshake lib e = (p, e')"
  by (auto simp: wm_handshake_def drive_handshake_def split: if_splits prod.splits hs_result.splits)

text \<open>Only a handshake that fails writes, and it has neither finished before nor does so now.\<close>

definition hs_line :: "relay_io \<Rightarrow> str \<Rightarrow> bool" where
  "hs_line io l \<longleftrightarrow> (\<exists>t s. l = stamped_line t (failure_text io s))"

lemma hs_lineI [simp]: "hs_line io (stamped_line t (failure_text io s))"
  unfolding hs_line_def by blast

lemma wm_handshake_log:
  "wm_handshake lib io s e log = (p, e', log') \<Longrightarrow>
     \<exists>ls. log' = log @ ls \<and> list_all (hs_line io) ls \<and> (ls \<noteq> [] \<longrightarrow> dead e' \<and> \<not> handshaken e')"
  by (auto simp: wm_handshake_def log_line_def split: if_splits prod.splits hs_result.splits)

lemma wm_turn_engine:
  assumes "wm_turn lib io fuel ps ((c, u, log), alive) = Some (((c', u', log'), alive'), go)"
  shows "\<exists>i log1 fails. relay_turn lib (log_chunk (stamps io)) fuel (as_turn ps i) (c, u, log) = Some ((c', u', log1), go) \<and>
    log' = log1 @ fails \<and> list_all (hs_line io) fails \<and> (fails \<noteq> [] \<longrightarrow> log1 = log \<and> \<not> go)"
proof (cases "dead c \<or> dead u")
  case False
  obtain p1 c1 log1 where h1: "wm_handshake lib io Client c log = (p1, c1, log1)" by (metis prod_cases3)
  obtain p2 u1 log2 where h2: "wm_handshake lib io Upstream u log1 = (p2, u1, log2)" by (metis prod_cases3)
  note hs = wm_handshake_engine [OF h1] wm_handshake_engine [OF h2]
  obtain c2 u2 log3 al p3 where b: "wm_pump_both lib io fuel (chunk_time ps) ((c1, u1, log2), alive) (p1 \<or> p2) = Some (((c2, u2, log3), al), p3)"
    using assms False h1 h2 by (auto simp: wm_turn_def split: option.splits)
  obtain p4 c3 where f1: "flush_end lib (c_sends ps) c2 = (p4, c3)" by fastforce
  obtain p5 u3 where f2: "flush_end lib (u_sends ps) u2 = (p5, u3)" by fastforce
  show ?thesis
  proof (cases "log2 = log")
    case True
    then have "pump_both lib (log_chunk (stamps io)) fuel (c1, u1, log) (p1 \<or> p2) = Some ((c2, u2, log3), p3)"
      using wm_pump_both_engine [OF b] by simp
    then have "relay_turn lib (log_chunk (stamps io)) fuel (as_turn ps (idle_timeout < check_time ps - al)) (c, u, log) =
        Some ((c', u', log'), go)"
      using assms False h1 h2 hs b f1 f2 by (auto simp: wm_turn_def relay_turn_def as_turn_def split: if_splits)
    then show ?thesis by (intro exI [of _ "idle_timeout < check_time ps - al"] exI [of _ log'] exI [of _ "[]"]) simp
  next
    case failed: False
    obtain l1 l2 where ls: "log1 = log @ l1" "list_all (hs_line io) l1" "l1 \<noteq> [] \<longrightarrow> dead c1 \<and> \<not> handshaken c1"
      "log2 = log1 @ l2" "list_all (hs_line io) l2" "l2 \<noteq> [] \<longrightarrow> dead u1 \<and> \<not> handshaken u1"
      using wm_handshake_log [OF h1] wm_handshake_log [OF h2] by blast
    then have l: "log2 = log @ l1 @ l2" "list_all (hs_line io) (l1 @ l2)"
      "dead c1 \<and> \<not> handshaken c1 \<or> dead u1 \<and> \<not> handshaken u1" using failed by auto
    then have b': "(c2, u2, log3) = (c1, u1, log2)" "al = alive" "p3 = (p1 \<or> p2)"
      using b by (auto simp: wm_pump_both_def)
    have "dead c3 \<or> dead u3"
      using flush_end_traffic [of c2 lib "c_sends ps"] flush_end_traffic [of u2 lib "u_sends ps"] l(3) b'(1) f1 f2
      by (auto simp: same_traffic_def)
    moreover have "pump_both lib (log_chunk (stamps io)) fuel (c1, u1, log) (p1 \<or> p2) = Some ((c1, u1, log), p1 \<or> p2)"
      using l(3) by (auto simp: pump_both_def)
    ultimately have "relay_turn lib (log_chunk (stamps io)) fuel (as_turn ps False) (c, u, log) = Some ((c', u', log), go)"
      "log' = log @ l1 @ l2" "\<not> go"
      using assms False h1 h2 hs b b' f1 f2 l(1) by (auto simp: wm_turn_def relay_turn_def as_turn_def)
    then show ?thesis using l(2) by (intro exI [of _ False] exI [of _ log] exI [of _ "l1 @ l2"]) simp
  qed
qed (use assms in \<open>auto simp: wm_turn_def relay_turn_def\<close>)

definition as_turns :: "wm_pass list \<Rightarrow> turn list \<Rightarrow> bool" where
  "as_turns pss tns \<longleftrightarrow> list_all2 (\<lambda>ps tn. \<exists>i. tn = as_turn ps i) pss tns"

lemma as_turns_simps [simp]:
  "as_turns [] []" "as_turns (ps # pss) (tn # tns) \<longleftrightarrow> (\<exists>i. tn = as_turn ps i) \<and> as_turns pss tns"
  by (simp_all add: as_turns_def)

lemma as_turns_some: "as_turns pss (map (\<lambda>ps. as_turn ps False) pss)"
  by (induction pss) auto

lemma wm_loop_engine:
  assumes "wm_loop lib io fuel pss ((c, u, log), alive) = Some (((c', u', log'), alive'), running)"
  shows "\<exists>tns log1 fails. as_turns pss tns \<and> relay_run lib (log_chunk (stamps io)) fuel tns (c, u, log) = Some (c', u', log1) \<and>
    log' = log1 @ fails \<and> list_all (hs_line io) fails"
  using assms
proof (induction pss arbitrary: c u log alive)
  case (Cons ps pss)
  obtain c1 u1 l1 a1 go where t: "wm_turn lib io fuel ps ((c, u, log), alive) = Some (((c1, u1, l1), a1), go)"
    using Cons.prems by (auto split: option.splits)
  obtain i l0 fails where e: "relay_turn lib (log_chunk (stamps io)) fuel (as_turn ps i) (c, u, log) = Some ((c1, u1, l0), go)"
    "l1 = l0 @ fails" "list_all (hs_line io) fails" "fails \<noteq> [] \<longrightarrow> l0 = log \<and> \<not> go"
    using wm_turn_engine [OF t] by blast
  show ?case
  proof (cases go)
    case True
    then have "wm_loop lib io fuel pss ((c1, u1, l0), a1) = Some (((c', u', log'), alive'), running)"
      using Cons.prems t e(2,4) by simp
    from Cons.IH [OF this] obtain tns log1 fs where "as_turns pss tns"
      "relay_run lib (log_chunk (stamps io)) fuel tns (c1, u1, l0) = Some (c', u', log1)" "log' = log1 @ fs" "list_all (hs_line io) fs"
      by blast
    then show ?thesis using e(1) True
      by (intro exI [of _ "as_turn ps i # tns"] exI [of _ log1] exI [of _ fs]) auto
  next
    case False
    then show ?thesis using Cons.prems t e as_turns_some [of pss]
      by (intro exI [of _ "as_turn ps i # map (\<lambda>ps. as_turn ps False) pss"] exI [of _ l0] exI [of _ fails]) auto
  qed
next
  case Nil
  then have "relay_run lib (log_chunk (stamps io)) fuel [] (c, u, log) = Some (c', u', log')" by simp
  moreover have "log' = log' @ []" "list_all (hs_line io) []" by simp_all
  ultimately show ?case using as_turns_simps(1) by blast
qed

lemma fork_is_engine_run:
  assumes "wm_connection lib io fuel pss peer dst start None tc tu log = Some (Some (c, u), log')"
  shows "\<exists>tns log1 fails closing. as_turns pss tns \<and>
    relay_run lib (log_chunk (stamps io)) fuel tns
      (new_end tc, new_end tu, log @ [stamped_line (stamps io (length log)) (open_text peer dst)]) = Some (c, u, log1) \<and>
    log' = log1 @ fails @ closing \<and> list_all (hs_line io) fails \<and>
    (closing = [] \<or> closing = [stamped_line (stamps io (length (log1 @ fails))) (peer @ '' relay closed'')])"
proof -
  obtain log2 alive running where l: "wm_loop lib io fuel pss ((new_end tc, new_end tu, log_line io (open_text peer dst) log), start) =
      Some (((c, u, log2), alive), running)"
    and log': "log' = (if running then log2 else log_line io (peer @ '' relay closed'') log2)"
    using assms by (auto simp: wm_connection_def wm_bridge_def)
  obtain tns log1 fails where "as_turns pss tns" "log2 = log1 @ fails" "list_all (hs_line io) fails"
    "relay_run lib (log_chunk (stamps io)) fuel tns (new_end tc, new_end tu, log_line io (open_text peer dst) log) = Some (c, u, log1)"
    using wm_loop_engine [OF l] by blast
  then show ?thesis using log'
    by (intro exI [of _ tns] exI [of _ log1] exI [of _ fails]
          exI [of _ "if running then [] else [stamped_line (stamps io (length (log1 @ fails))) (peer @ '' relay closed'')]"])
      (simp add: log_line_def)
qed

text \<open>
  C19. The deployed relay is the shared engine: whatever the sockets, the TLS library and the clock
  do, its two endpoints end as those of a run of \<open>server/wm_bridge.py\<close> on the same events, observed
  by the log; and its log is that observer's, between the line of the opening and the lines of
  failed handshakes and of the closing.
\<close>
theorem fork_is_engine:
  assumes "wm_connection lib io fuel pss peer dst start None tc tu log = Some (Some (c, u), log')"
  shows "\<exists>tns log1 fails closing. as_turns pss tns \<and>
    relay_run lib (log_chunk (stamps io)) fuel tns
      (new_end tc, new_end tu, log @ [stamped_line (stamps io (length log)) (open_text peer dst)]) = Some (c, u, log1) \<and>
    log' = log1 @ fails @ closing \<and> list_all (hs_line io) fails \<and>
    (closing = [] \<or> closing = [stamped_line (stamps io (length (log1 @ fails))) (peer @ '' relay closed'')])"
  using assms by (rule fork_is_engine_run)

section \<open>Its log is the traffic\<close>

lemma map_filter_append: "List.map_filter f (xs @ ys) = List.map_filter f xs @ List.map_filter f ys"
  by (simp add: List.map_filter_def)

lemma stamped_line_unread:
  assumes "text \<noteq> []" "scan_label (text @ [CHR 10]) = None"
  shows "match_line (stamped_line t text) = None"
  using assms(2) match_line_stamp [of "fst t" "snd t" "text @ [CHR 10]"]
  by (simp add: stamped_line_def case_prod_unfold)

lemma unread_chunks: "list_all (\<lambda>l. match_line l = None) ls \<Longrightarrow> List.map_filter (chunk_read label) ls = []"
  by (induction ls) (auto simp: map_filter_simps chunk_read_def)

lemma scan_label_other:
  "x \<notin> {CHR ''C'', CHR ''U''} \<Longrightarrow> scan_label (x # r) = None"
  by (auto simp: scan_label_def scan_lit_def startswith_def)

lemma failure_unread: "match_line (stamped_line t (failure_text io s)) = None"
  by (rule stamped_line_unread)
    (cases s; simp add: failure_text_def end_name_def scan_label_def scan_lit_def startswith_def)+

lemma hs_lines_unread: "list_all (hs_line io) ls \<Longrightarrow> list_all (\<lambda>l. match_line l = None) ls"
  by (induction ls) (auto simp: hs_line_def failure_unread)

lemma peer_line_unread:
  assumes "peer \<noteq> []" "is_digit (hd peer)"
  shows "match_line (stamped_line t (peer @ rest)) = None"
proof -
  obtain x xs where x: "peer = x # xs" "is_digit x" using assms by (cases peer) auto
  then have "x \<notin> {CHR ''C'', CHR ''U''}" by (auto simp: is_digit_def)
  then show ?thesis using x scan_label_other [of x] by (intro stamped_line_unread) simp_all
qed

text \<open>What the loop adds to the log: the lines of its chunks, then those of failed handshakes.\<close>

lemma wm_loop_lines:
  assumes "wm_loop lib io fuel pss ((new_end tc, new_end tu, log), start) = Some (((c, u, log'), alive), running)"
  obtains shown fails where "log' = log @ logged (stamps io) (length log) shown @ fails" "list_all (\<lambda>l. match_line l = None) fails"
    "chunks_of Client shown = got c" "chunks_of Upstream shown = got u" "[] \<notin> snd ` set shown" "faithful c u" "faithful u c" "fifo c" "fifo u"
proof -
  obtain tns log1 fails where r: "relay_run lib (log_chunk (stamps io)) fuel tns (new_end tc, new_end tu, log) = Some (c, u, log1)"
    and log': "log' = log1 @ fails" "list_all (hs_line io) fails"
    using wm_loop_engine [OF assms] by blast
  obtain shown where "relay_ok (log_chunk (stamps io)) log shown (c, u, log1)"
    using relay_run_transparent [OF r] by blast
  with log' hs_lines_unread that show thesis by (auto simp: relay_ok_def fold_log_chunk)
qed

text \<open>A connection adds them between the lines of its opening and closing.\<close>

lemma relay_log_lines:
  assumes "wm_connection lib io fuel pss peer dst start None tc tu log = Some (Some (c, u), log')"
    and "peer \<noteq> []" "is_digit (hd peer)"
  obtains pre shown post n where "log' = log @ pre @ logged (stamps io) n shown @ post" "list_all (\<lambda>l. match_line l = None) (pre @ post)"
    "chunks_of Client shown = got c" "chunks_of Upstream shown = got u" "[] \<notin> snd ` set shown" "faithful c u" "faithful u c" "fifo c" "fifo u"
proof -
  let ?pre = "[stamped_line (stamps io (length log)) (open_text peer dst)]"
  obtain log2 alive running where l: "wm_loop lib io fuel pss ((new_end tc, new_end tu, log @ ?pre), start) = Some (((c, u, log2), alive), running)"
    and log': "log' = (if running then log2 else log_line io (peer @ '' relay closed'') log2)"
    using assms(1) by (auto simp: wm_connection_def wm_bridge_def log_line_def)
  obtain shown fails where w: "log2 = (log @ ?pre) @ logged (stamps io) (length (log @ ?pre)) shown @ fails"
    "list_all (\<lambda>l. match_line l = None) fails" "chunks_of Client shown = got c" "chunks_of Upstream shown = got u"
    "[] \<notin> snd ` set shown" "faithful c u" "faithful u c" "fifo c" "fifo u"
    by (rule wm_loop_lines [OF l])
  obtain post where "log' = log2 @ post" "list_all (\<lambda>l. match_line l = None) post"
    using log' peer_line_unread [OF assms(2,3)] by (cases running) (auto simp: log_line_def)
  then show thesis
    using w peer_line_unread [OF assms(2,3)]
    by (intro that [of ?pre "length (log @ ?pre)" shown "fails @ post"]) (simp_all add: open_text_def)
qed

text \<open>
  C20. The deployed relay loses, repeats, reorders and makes up nothing, and its log is the
  traffic: read line by line with the bridge's own regular expression and hex decoder, what it
  added to the log gives back exactly the chunks the appliance sent, in order, and likewise those
  of the cloud, whatever the connection did and whenever the lines were stamped.
\<close>
theorem relay_log_complete:
  assumes "wm_connection lib io fuel pss peer dst start None tc tu log = Some (Some (c, u), log')"
    and "peer \<noteq> []" "is_digit (hd peer)"
  shows "List.map_filter (chunk_read ''C->U'') log' = List.map_filter (chunk_read ''C->U'') log @ got c \<and>
    List.map_filter (chunk_read ''U->C'') log' = List.map_filter (chunk_read ''U->C'') log @ got u \<and>
    (got c = put u \<or> dead u \<and> (\<exists>b. got c = put u @ [b])) \<and>
    (got u = put c \<or> dead c \<and> (\<exists>b. got u = put c @ [b])) \<and>
    drained c = wire c @ pending c \<and> drained u = wire u @ pending u"
proof -
  obtain pre shown post n where l: "log' = log @ pre @ logged (stamps io) n shown @ post" "list_all (\<lambda>l. match_line l = None) (pre @ post)"
      "chunks_of Client shown = got c" "chunks_of Upstream shown = got u" "[] \<notin> snd ` set shown" "faithful c u" "faithful u c" "fifo c" "fifo u"
    using relay_log_lines [OF assms] by metis
  have "List.map_filter (chunk_read (label_of s)) log' = List.map_filter (chunk_read (label_of s)) log @ chunks_of s shown" for s
    using unread_chunks [of pre] unread_chunks [of post] l(1,2) logged_chunks [OF l(5)] by (simp add: map_filter_append)
  from this [of Client] this [of Upstream] l(3,4,6-9) show ?thesis
    by (simp add: faithful_def fifo_def label_of_def)
qed

section \<open>A run\<close>

definition sample_io :: relay_io where
  "sample_io = \<lparr>stamps = (\<lambda>n. (3661 + n, 7)), alert = (\<lambda>s. ''SSLError()'')\<rparr>"

text \<open>The last two passes find nothing to do; after the second the silence has lasted too long.\<close>

definition sample_passes :: "wm_pass list" where
  "sample_passes =
     [\<lparr>c_sends = [], u_sends = [], events = [], chunk_time = 0, check_time = 0\<rparr>,
      \<lparr>c_sends = [], u_sends = [], events = [Readable Client (Received ''ab'')], chunk_time = 0, check_time = 5\<rparr>,
      \<lparr>c_sends = [], u_sends = [Accepts 2], events = [], chunk_time = 10, check_time = 10\<rparr>,
      \<lparr>c_sends = [], u_sends = [], events = [], chunk_time = 10, check_time = 300010\<rparr>,
      \<lparr>c_sends = [], u_sends = [], events = [], chunk_time = 10, check_time = 300011\<rparr>]"

definition sample_connection where
  "sample_connection = wm_connection clear_lib sample_io 5 sample_passes ''10.0.0.2'' (''10.0.0.9'', 47878) 0 None ([], []) ([], []) []"

lemmas wm_eval = sample_connection_def sample_io_def sample_passes_def wm_connection_def wm_bridge_def wm_turn_def
  wm_pump_both_def wm_handshake_def clear_lib_def new_end_def flush_end_def drain_def read_plain_def on_side_def
  feed_socket_def log_line_def const_defs Let_def

lemma sample_connection_logs:
  "\<exists>c u l1 l3. sample_connection = Some (Some (c, u), [l1, chunk_line (3662, 7) Client ''ab'', l3]) \<and> wire u = ''ab'' \<and> got c = [''ab''] \<and>
     l3 = stamped_line (3663, 7) (''10.0.0.2'' @ '' relay closed'')"
proof -
  have "(5::nat) = Suc (Suc (Suc (Suc (Suc 0))))" by simp
  then show ?thesis unfolding sample_connection_def by (simp only:) (simp add: wm_eval)
qed

theorem relay_log_complete_witness:
  "\<exists>c u log'. sample_connection = Some (Some (c, u), log') \<and> List.map_filter (chunk_read ''C->U'') log' = [''ab''] \<and>
     (got c = put u \<or> dead u \<and> (\<exists>b. got c = put u @ [b]))"
proof -
  obtain c u log' where r: "sample_connection = Some (Some (c, u), log')" "got c = [''ab'']"
    using sample_connection_logs by blast
  from relay_log_complete [OF r(1) [unfolded sample_connection_def]]
  have "List.map_filter (chunk_read ''C->U'') log' = got c" "got c = put u \<or> dead u \<and> (\<exists>b. got c = put u @ [b])"
    by (simp_all add: is_digit_def map_filter_simps)
  with r show ?thesis by metis
qed

theorem fork_is_engine_witness:
  "\<exists>c u log' tns log1. sample_connection = Some (Some (c, u), log') \<and> wire u = ''ab'' \<and>
     relay_run clear_lib (log_chunk (stamps sample_io)) 5 tns (new_end ([], []), new_end ([], []),
       [stamped_line (3661, 7) (open_text ''10.0.0.2'' (''10.0.0.9'', 47878))]) = Some (c, u, log1)"
proof -
  obtain c u log' where r: "sample_connection = Some (Some (c, u), log')" "wire u = ''ab''"
    using sample_connection_logs by blast
  have "stamps sample_io 0 = (3661, 7)" by (simp add: sample_io_def)
  with fork_is_engine [OF r(1) [unfolded sample_connection_def]] obtain tns log1 where
    "relay_run clear_lib (log_chunk (stamps sample_io)) 5 tns (new_end ([], []), new_end ([], []),
       [stamped_line (3661, 7) (open_text ''10.0.0.2'' (''10.0.0.9'', 47878))]) = Some (c, u, log1)"
    by auto
  with r show ?thesis by blast
qed

section \<open>Silence\<close>

text \<open>What a pass does to the time of the last chunk, and why the loop stops.\<close>

lemma wm_pump_alive:
  "wm_pump lib io s tm n src dst log alive p = Some (src', dst', log', alive', p') \<Longrightarrow>
     alive' = alive \<or> alive' = tm"
proof (induction n arbitrary: src dst log alive p)
  case (Suc n)
  then show ?case
    by (auto simp: Let_def split: if_splits option.splits list.splits prod.splits bool.splits)
qed simp

lemma wm_pump_both_alive:
  "wm_pump_both lib io fuel tm (r, alive) p = Some ((r', alive'), p') \<Longrightarrow> alive' = alive \<or> alive' = tm"
  by (cases r) (auto simp: wm_pump_both_def dest!: wm_pump_alive split: if_splits Option.bind_splits)

lemma wm_turn_alive:
  assumes "wm_turn lib io fuel ps ((c, u, log), alive) = Some (((c', u', log'), alive'), go)"
  shows "alive' = alive \<or> alive' = chunk_time ps"
    and "\<not> go \<Longrightarrow> dead c' \<or> dead u' \<or> events ps = [] \<and> idle_timeout < check_time ps - alive'"
  using assms
  by (auto simp: wm_turn_def Let_def dest!: wm_pump_both_alive split: if_splits prod.splits option.splits)

text \<open>
  The relay ends a connection whose ends are both alive only at a \<open>select\<close> that times out more than
  five minutes after the last chunk it wrote, or after its start.
\<close>

lemma gives_up_after_silence:
  assumes "wm_loop lib io fuel pss ((c, u, log), start) = Some (((c', u', log'), alive), False)"
    and "\<not> dead c'" "\<not> dead u'"
  shows "alive \<in> insert start (chunk_time ` set pss) \<and> (\<exists>ps \<in> set pss. events ps = [] \<and> idle_timeout < check_time ps - alive)"
  using assms(1)
proof (induction pss arbitrary: c u log start)
  case (Cons ps pss)
  obtain c1 u1 l1 a1 go where t: "wm_turn lib io fuel ps ((c, u, log), start) = Some (((c1, u1, l1), a1), go)"
    using Cons.prems by (auto split: option.splits)
  show ?case
  proof (cases go)
    case True
    then have "wm_loop lib io fuel pss ((c1, u1, l1), a1) = Some (((c', u', log'), alive), False)" using Cons.prems t by simp
    from Cons.IH [OF this] wm_turn_alive(1) [OF t] show ?thesis by auto
  next
    case False
    then show ?thesis using Cons.prems t wm_turn_alive [OF t] assms(2,3) by auto
  qed
qed simp

section \<open>The listening loop\<close>

text \<open>The destination a redirected connection had: two bytes of family, the port, the address.\<close>

definition original_dst :: "bytes \<Rightarrow> (str \<times> int) res" where
  "original_dst raw =
     (if length raw < 8 then Inl StructError
      else Inr (nat_str (code (raw ! 4)) @ ''.'' @ nat_str (code (raw ! 5)) @ ''.'' @ nat_str (code (raw ! 6)) @ ''.'' @
                nat_str (code (raw ! 7)),
                int (be_int (take 2 (drop 2 raw)))))"

text \<open>
  An accepted connection: what the socket option and \<open>getpeername\<close> give, and how the exception of the
  former prints. It is relayed in a thread of its own; what is not redirected is closed.
\<close>

record accepted =
  sock_dst :: "bytes res"
  sock_peer :: "str option"
  dst_error :: str

type_synonym started = "(accepted \<times> str \<times> int) list"

definition destination :: "(str \<times> int) option \<Rightarrow> accepted \<Rightarrow> (str \<times> int) res" where
  "destination upstream a = (case upstream of Some d \<Rightarrow> Inr d | None \<Rightarrow> rbind (sock_dst a) original_dst)"

definition ignored_text :: "accepted \<Rightarrow> str" where
  "ignored_text a = (case sock_peer a of None \<Rightarrow> ''unknown'' | Some p \<Rightarrow> p) @
     '' not redirect-derived, no original dst ('' @ dst_error a @ ''); ignoring''"

fun accept_loop ::
  "relay_io \<Rightarrow> (str \<times> int) option \<Rightarrow> accepted list \<Rightarrow> started \<times> str list \<Rightarrow> unit res \<times> started \<times> str list" where
  "accept_loop io upstream [] (st, log) = (Inr (), st, log)"
| "accept_loop io upstream (a # as) (st, log) =
     (case destination upstream a of
        Inr d \<Rightarrow> accept_loop io upstream as (st @ [(a, d)], log)
      | Inl e \<Rightarrow> if e = OSError then accept_loop io upstream as (st, log_line io (ignored_text a) log)
                else (Inl e, st, log))"

text \<open>\<open>host:port\<close>, split at the last colon.\<close>

definition host_port :: "str \<Rightarrow> (str \<times> int) res" where
  "host_port s =
     (if CHR '':'' \<notin> set s then Inl ValueError
      else let r = rev s; port = rev (takeWhile (\<lambda>c. c \<noteq> CHR '':'') r);
               host = rev (drop 1 (dropWhile (\<lambda>c. c \<noteq> CHR '':'') r)) in
        rbind (res_of_option ValueError (py_int port)) (\<lambda>n. Inr (host, n)))"

text \<open>The options: where to listen, and the fixed upstream unless it is empty.\<close>

definition relay_args :: "str \<Rightarrow> str \<Rightarrow> ((str \<times> int) \<times> (str \<times> int) option) res" where
  "relay_args listen upstream =
     (if CHR '':'' \<notin> set listen then Inl ValueError
      else rbind (if upstream = [] then Inr None else rbind (host_port upstream) (\<lambda>d. Inr (Some d))) (\<lambda>up.
           rbind (host_port listen) (\<lambda>l. Inr (l, up))))"

definition listening_text :: "str \<times> int \<Rightarrow> (str \<times> int) option \<Rightarrow> str" where
  "listening_text l upstream = ''listening on '' @ fst l @ '':'' @ int_str (snd l) @ '' (upstream='' @
     (case upstream of None \<Rightarrow> ''SO_ORIGINAL_DST'' | Some d \<Rightarrow> fst d @ '':'' @ int_str (snd d)) @ '')''"

definition wm_main :: "relay_io \<Rightarrow> str \<Rightarrow> str \<Rightarrow> accepted list \<Rightarrow> str list \<Rightarrow> unit res \<times> started \<times> str list" where
  "wm_main io listen upstream as log = (case relay_args listen upstream of
      Inl e \<Rightarrow> (Inl e, [], log)
    | Inr (l, up) \<Rightarrow> accept_loop io up as ([], log_line io (listening_text l up) log))"

lemma host_port_pair: "host_port (h @ '':'' @ nat_str n) = Inr (h, int n)"
proof -
  have d: "list_all (\<lambda>c. c \<noteq> CHR '':'') (rev (nat_str n))"
    using nat_str_digits [of "CHR '':''" n] by (auto simp: list_all_iff is_digit_def)
  have "takeWhile (\<lambda>c. c \<noteq> CHR '':'') (rev (nat_str n) @ CHR '':'' # rev h) = rev (nat_str n)"
    "dropWhile (\<lambda>c. c \<noteq> CHR '':'') (rev (nat_str n) @ CHR '':'' # rev h) = CHR '':'' # rev h"
    using takeWhile_then [OF d, of "CHR '':''" "rev h"] dropWhile_then [OF d, of "CHR '':''" "rev h"] by auto
  moreover have "py_int (nat_str n) = Some (int n)" using py_int_int_str [of "int n"] by (simp add: int_str_def)
  ultimately show ?thesis by (simp add: host_port_def Let_def res_of_option_def)
qed

lemma relay_args_explicit:
  "relay_args (h @ '':'' @ nat_str p) (uh @ '':'' @ nat_str up) = Inr ((h, int p), Some (uh, int up))"
  using host_port_pair [of h p] host_port_pair [of uh up] by (simp add: relay_args_def)

text \<open>What the redirect gives: a whole socket address, or an error when there was none.\<close>

definition redirect_ok :: "accepted \<Rightarrow> bool" where
  "redirect_ok a \<longleftrightarrow> (case sock_dst a of Inl e \<Rightarrow> e = OSError | Inr raw \<Rightarrow> 8 \<le> length raw)"

definition redirected :: "accepted \<Rightarrow> (accepted \<times> str \<times> int) option" where
  "redirected a = (case rbind (sock_dst a) original_dst of Inl _ \<Rightarrow> None | Inr d \<Rightarrow> Some (a, d))"

text \<open>
  The loop serves the redirected connections, in order; one that was not redirected costs a line.
\<close>

lemma accept_loop_serves:
  assumes "list_all redirect_ok as"
  shows "\<exists>lines. accept_loop io None as (st, log) = (Inr (), st @ List.map_filter redirected as, log @ lines) \<and>
    length lines = length (filter (\<lambda>a. sock_dst a = Inl OSError) as)"
  using assms
proof (induction as arbitrary: st log)
  case (Cons a as)
  show ?case
  proof (cases "sock_dst a")
    case (Inl e)
    then have "e = OSError" "redirected a = None" using Cons.prems by (simp_all add: redirect_ok_def redirected_def)
    moreover obtain lines where "accept_loop io None as (st, log_line io (ignored_text a) log) =
        (Inr (), st @ List.map_filter redirected as, log_line io (ignored_text a) log @ lines)"
      "length lines = length (filter (\<lambda>a. sock_dst a = Inl OSError) as)"
      using Cons.IH [of st "log_line io (ignored_text a) log"] Cons.prems by auto
    ultimately show ?thesis using Inl by (simp add: destination_def log_line_def map_filter_simps)
  next
    case (Inr raw)
    then obtain d where "original_dst raw = Inr d" using Cons.prems by (simp add: redirect_ok_def original_dst_def)
    moreover from this have "redirected a = Some (a, d)" using Inr by (simp add: redirected_def)
    ultimately show ?thesis using Inr Cons.IH [of "st @ [(a, d)]" log] Cons.prems
      by (auto simp: destination_def map_filter_simps)
  qed
qed (simp add: map_filter_simps)

text \<open>
  C21. Started without a fixed upstream, the relay serves every redirected connection, in order and
  with the destination it had, and nothing else: a connection that was not redirected costs a line
  of the log and never ends the loop, whatever else fails on its socket.
\<close>
theorem redirects_served:
  assumes "list_all redirect_ok as"
  shows "\<exists>lines. wm_main io (h @ '':'' @ nat_str p) [] as log = (Inr (), List.map_filter redirected as, log @ lines) \<and>
    length lines = Suc (length (filter (\<lambda>a. sock_dst a = Inl OSError) as))"
proof -
  have "relay_args (h @ '':'' @ nat_str p) [] = Inr ((h, int p), None)"
    using host_port_pair [of h p] by (simp add: relay_args_def)
  then show ?thesis
    using accept_loop_serves [OF assms, of io "[]" "log_line io (listening_text (h, int p) None) log"]
    by (auto simp: wm_main_def log_line_def simp del: accept_loop.simps)
qed

definition sample_probe :: accepted where
  "sample_probe = \<lparr>sock_dst = Inl OSError, sock_peer = None, dst_error = ''OSError()''\<rparr>"

definition sample_accepted :: accepted where
  "sample_accepted = \<lparr>sock_dst = Inr (map byte_of [0, 2, 1, 187, 10, 0, 0, 9]), sock_peer = None, dst_error = []\<rparr>"

lemma sample_accepted_facts:
  "redirect_ok sample_probe" "redirected sample_probe = None" "sock_dst sample_probe = Inl OSError"
  "redirect_ok sample_accepted" "redirected sample_accepted = Some (sample_accepted, ''10.0.0.9'', 443)"
  "sock_dst sample_accepted \<noteq> Inl OSError"
proof -
  have "original_dst (map byte_of [0, 2, 1, 187, 10, 0, 0, 9]) = Inr (''10.0.0.9'', 443)" by code_simp
  moreover have "sock_dst sample_accepted = Inr (map byte_of [0, 2, 1, 187, 10, 0, 0, 9])"
    by (simp add: sample_accepted_def)
  ultimately show "redirected sample_accepted = Some (sample_accepted, ''10.0.0.9'', 443)"
    by (simp add: redirected_def del: list.map)
qed (simp_all add: redirect_ok_def sample_probe_def sample_accepted_def redirected_def)

theorem redirects_served_witness:
  "\<exists>lines. wm_main sample_io ''0.0.0.0:8'' [] [sample_probe, sample_accepted] [] =
     (Inr (), [(sample_accepted, ''10.0.0.9'', 443)], lines) \<and> length lines = 2"
proof -
  let ?as = "[sample_probe, sample_accepted]"
  note f = sample_accepted_facts
  have "list_all redirect_ok ?as" "nat_str 8 = ''8''" using f by (simp_all, code_simp)
  with redirects_served [of ?as sample_io "''0.0.0.0''" 8 "[]"] obtain lines where
    "wm_main sample_io ''0.0.0.0:8'' [] ?as [] = (Inr (), List.map_filter redirected ?as, lines)"
    "length lines = Suc (length (filter (\<lambda>a. sock_dst a = Inl OSError) ?as))" by auto
  moreover have "List.map_filter redirected ?as = [(sample_accepted, ''10.0.0.9'', 443)]"
    using f by (simp add: map_filter_simps)
  moreover have "length (filter (\<lambda>a. sock_dst a = Inl OSError) ?as) = 1" using f by simp
  ultimately show ?thesis by (metis Suc_1 One_nat_def)
qed

end
