(* ===== verification/LocalBridge.thy ===== *)
theory LocalBridge
  imports RelayLog LogCap
begin

text \<open>
  The rest of \<open>server/wm_local_bridge.py\<close> around its decoder and follower: how it reads a log that grows
  and is truncated under it, what it sends to Home Assistant's REST interface and to the broker,
  and the options it takes. A pass of the loop sees the log's bytes as they are then.
\<close>

section \<open>Reading the log\<close>

text \<open>
  \<open>readline\<close>: up to and with the next newline, or what there is. The relay writes no carriage
  returns, so newlines alone end the lines.
\<close>

definition next_line :: "bytes \<Rightarrow> str" where
  "next_line s = takeWhile (\<lambda>c. c \<noteq> CHR 10) s @ take 1 (dropWhile (\<lambda>c. c \<noteq> CHR 10) s)"

fun file_lines :: "nat \<Rightarrow> bytes \<Rightarrow> str list" where
  "file_lines 0 s = []"
| "file_lines (Suc n) s = (if s = [] then [] else next_line s # file_lines n (drop (length (next_line s)) s))"

definition readlines :: "bytes \<Rightarrow> str list" where
  "readlines s = file_lines (length s) s"

text \<open>When there is nothing more to read, a log that has become shorter is read from its start.\<close>

definition reader_step :: "bytes \<Rightarrow> nat \<Rightarrow> bytes \<times> nat" where
  "reader_step content pos =
     (let l = next_line (drop pos content) in
      if l = [] then ([], if length content < pos then 0 else pos) else (l, pos + length l))"

definition as_tick :: "bytes \<Rightarrow> tick" where
  "as_tick l = (if l = [] then NoLine else GotLine (utf8_replace l))"

fun read_log :: "bytes list \<Rightarrow> nat \<Rightarrow> bytes list \<times> nat" where
  "read_log [] pos = ([], pos)"
| "read_log (content # cs) pos = (case reader_step content pos of (l, pos') \<Rightarrow> apfst (Cons l) (read_log cs pos'))"

definition read_ticks :: "(int \<times> bytes) list \<Rightarrow> nat \<Rightarrow> (int \<times> tick) list" where
  "read_ticks passes pos = zip (map fst passes) (map as_tick (fst (read_log (map snd passes) pos)))"

text \<open>\<open>main\<close>: the log as first read, as opened to follow, and as each pass finds it.\<close>

definition bridge_main :: "json \<Rightarrow> str \<Rightarrow> int \<Rightarrow> bytes \<Rightarrow> bytes \<Rightarrow> (int \<times> bytes) list \<Rightarrow> follower res" where
  "bridge_main mj device start found opened passes =
     rbind (start_follower mj device (map utf8_replace (readlines found)) start)
       (follow mj device (read_ticks passes (length opened)))"

section \<open>What goes out\<close>

function remove_text :: "str \<Rightarrow> str \<Rightarrow> str" where
  "remove_text p s = (case s of [] \<Rightarrow> [] | c # cs \<Rightarrow>
     if startswith s p then remove_text p (drop (length p - 1) cs) else c # remove_text p cs)"
  by pat_completeness auto
termination by (relation "measure (length \<circ> snd)") auto

declare remove_text.simps [simp del]

record rest_request =
  r_url :: str
  r_auth :: str
  r_body :: json

text \<open>
  The push to Home Assistant, given the content of the file with its address and token, if there is
  one; whatever goes wrong is printed and dropped.
\<close>

definition rest_body :: "jdict \<Rightarrow> json" where
  "rest_body p = JObj
     [(''state'', JStr (remove_text ''WM_STATE_'' (py_str (get_or p ''State'' (JStr ''unknown''))))),
      (''attributes'', JObj (dict_set p ''friendly_name'' (JStr ''Lavatrice Stato Locale'')))]"

definition rest_push :: "json option \<Rightarrow> jdict \<Rightarrow> rest_request option" where
  "rest_push auth p = (case auth of
      None \<Rightarrow> None
    | Some cfg \<Rightarrow>
        (case rbind (json_item cfg ''token'') (\<lambda>t. rbind (json_item cfg ''url'') (\<lambda>u. Inr (t, u))) of
           Inl _ \<Rightarrow> None
         | Inr (t, u) \<Rightarrow> Some
             \<lparr>r_url = py_str u @ ''/api/states/sensor.lavatrice_stato_locale'', r_auth = ''Bearer '' @ py_str t,
              r_body = rest_body p\<rparr>))"

text \<open>The credentials for the broker: the options file's unless a password was given.\<close>

definition broker_login :: "str \<Rightarrow> str \<Rightarrow> json option \<Rightarrow> (json \<times> json) option res" where
  "broker_login user password opts =
     rbind (case opts of
         Some o' \<Rightarrow> if password \<noteq> [] then Inr (JStr user, JStr password)
                   else rbind (json_get o' ''mqtt_user'' (JStr user)) (\<lambda>u.
                        rbind (json_get o' ''mqtt_password'' (JStr [])) (\<lambda>p. Inr (u, p)))
       | None \<Rightarrow> Inr (JStr user, JStr password))
       (\<lambda>(u, p). Inr (if truthy u then Some (u, p) else None))"

text \<open>
  The announcement of the washer's sensor, retained: its topic, its text and its quality of service. The
  module defines it and never calls it; the sensor appears by the push above.
\<close>

definition washer_dev :: str where
  "washer_dev = ''82c2ebc0-0e9f-11f5-82b4-0051eda91d3d''"

definition washer_topic :: str where
  "washer_topic = ''lgthinq/local/washer''"

definition state_template :: str where
  "state_template = (let q = [CHR 0x27] in
     ''{{ value_json.State | replace('' @ q @ ''WM_STATE_'' @ q @ '', '' @ q @ q @ '') }}'')"

definition washer_discovery :: "str \<times> str \<times> bool \<times> nat" where
  "washer_discovery = (''homeassistant/sensor/lavatrice_stato_locale/config'',
     dumps (JObj
       [(''name'', JStr ''Lavatrice Stato Locale''),
        (''unique_id'', JStr ''lavatrice_stato_locale''),
        (''state_topic'', JStr washer_topic),
        (''value_template'', JStr state_template),
        (''json_attributes_topic'', JStr washer_topic),
        (''device'', JObj
          [(''identifiers'', JArr [JStr washer_dev]),
           (''name'', JStr ''Lavatrice (locale)''),
           (''manufacturer'', JStr ''LG''),
           (''model'', JStr ''WTWN3'')])]),
     True, 0)"

section \<open>A growing log is read once\<close>

lemma next_line_prefix: "prefix (next_line s) s"
proof -
  have "s = takeWhile (\<lambda>c. c \<noteq> CHR 10) s @ take 1 (dropWhile (\<lambda>c. c \<noteq> CHR 10) s) @ drop 1 (dropWhile (\<lambda>c. c \<noteq> CHR 10) s)"
    by (metis append_take_drop_id takeWhile_dropWhile_id)
  then show ?thesis unfolding next_line_def prefix_def by (metis append.assoc)
qed

lemma next_line_Nil [simp]: "next_line s = [] \<longleftrightarrow> s = []"
  by (cases s) (auto simp: next_line_def)

lemma reader_step_reads:
  assumes "pos \<le> length content" "reader_step content pos = (l, pos')"
  shows "pos' = pos + length l" "pos' \<le> length content" "l = take (length l) (drop pos content)"
proof -
  let ?l = "next_line (drop pos content)"
  obtain r where r: "drop pos content = ?l @ r" using next_line_prefix [of "drop pos content"] by (auto simp: prefix_def)
  then have "take (length ?l) (drop pos content) = ?l" by (metis append_eq_conv_conj)
  moreover have "length ?l \<le> length content - pos" by (metis r length_append length_drop le_add1)
  ultimately show "pos' = pos + length l" "pos' \<le> length content" "l = take (length l) (drop pos content)"
    using assms by (auto simp: reader_step_def Let_def split: if_splits)
qed

text \<open>
  A log that only grows is read once: what the passes have read, in order, is exactly what the
  log holds from where it was opened up to where the reader stands, however it grew meanwhile.
\<close>
lemma log_read_once:
  assumes "sorted_wrt prefix (c # cs)" "pos \<le> length c" "read_log (c # cs) pos = (ls, pos')"
  shows "pos' \<le> length (last (c # cs)) \<and> drop pos (last (c # cs)) = concat ls @ drop pos' (last (c # cs))"
  using assms
proof (induction cs arbitrary: c pos ls)
  case Nil
  obtain l q where r: "reader_step c pos = (l, q)" by fastforce
  note rd = reader_step_reads [OF Nil.prems(2) r]
  have "drop pos c = l @ drop (length l) (drop pos c)" by (metis append_take_drop_id rd(3))
  then show ?case using Nil.prems(3) r rd(1,2) by (auto simp: add.commute)
next
  case (Cons d cs)
  obtain l q where r: "reader_step c pos = (l, q)" by fastforce
  note rd = reader_step_reads [OF Cons.prems(2) r]
  obtain ls' p where p: "read_log (d # cs) q = (ls', p)" by fastforce
  have "read_log (c # d # cs) pos = apfst (Cons l) (read_log (d # cs) q)"
    by (simp only: read_log.simps(2) [of c] r prod.case)
  then have ls': "read_log (d # cs) q = (ls', pos')" "ls = l # ls'" using Cons.prems(3) p by simp_all
  have pre: "prefix c d" "sorted_wrt prefix (d # cs)" "prefix c (last (d # cs))"
    using Cons.prems(1) last_in_set [of "d # cs"] by auto
  then have "q \<le> length d" using rd(2) prefix_length_le by fastforce
  from Cons.IH [OF pre(2) this ls'(1)]
  have ih: "pos' \<le> length (last (d # cs))" "drop q (last (d # cs)) = concat ls' @ drop pos' (last (d # cs))" by simp_all
  obtain r where "last (d # cs) = c @ r" using pre(3) by (auto simp: prefix_def)
  then have "take (length l) (drop pos (last (d # cs))) = l" using rd Cons.prems(2) by simp
  then have "drop pos (last (d # cs)) = l @ drop q (last (d # cs))"
    by (metis append_take_drop_id drop_drop rd(1) add.commute)
  then show ?case using ih ls'(2) by simp
qed

section \<open>What a truncation does\<close>

text \<open>A log cut behind the reader is read again from its start.\<close>

lemma truncation_rewinds:
  assumes "length kept < pos"
  shows "read_log (kept # cs) pos = apfst (Cons []) (read_log cs 0)"
  using assms by (simp add: reader_step_def Let_def)

text \<open>
  So the snapshots of the tail that is kept are published a second time, the older ones over the
  newer: with two different ones in it, the older is the published state again until the reader
  has caught up.
\<close>

lemma truncation_republishes:
  assumes "washer_snapshot (utf8_replace l1) mj device = Inr (Some a)" "washer_snapshot (utf8_replace l2) mj device = Inr (Some b)"
    and "usable a" "usable b" "\<not> py_eq (JObj a) (JObj b)" "\<not> py_eq (JObj b) (JObj a)"
    and "l1 = next_line (l1 @ l2)" "l2 = next_line l2" "l1 \<noteq> []" "l2 \<noteq> []"
    and "last_known s = b" "t - last_beat s \<le> 300" "length (l1 @ l2) < pos"
  shows "\<exists>s'. follow mj device (read_ticks [(t, l1 @ l2), (t, l1 @ l2), (t, l1 @ l2)] pos) s = Inr s' \<and>
    outbox s' = outbox s @ [a, b]"
proof -
  have "reader_step (l1 @ l2) pos = ([], 0)" "reader_step (l1 @ l2) 0 = (l1, length l1)"
    "reader_step (l1 @ l2) (length l1) = (l2, length l1 + length l2)"
    using assms(7-10,13) by (simp_all add: reader_step_def Let_def)
  then have ticks: "read_ticks [(t, l1 @ l2), (t, l1 @ l2), (t, l1 @ l2)] pos =
      [(t, NoLine), (t, GotLine (utf8_replace l1)), (t, GotLine (utf8_replace l2))]"
    using assms(9,10) by (simp add: read_ticks_def as_tick_def del: append_assoc)
  have quiet: "outbox (no_line t s) = outbox s" "last_known (no_line t s) = b"
    using assms(11,12) by (auto simp: no_line_def post_def Let_def)
  obtain s2 where "got_line mj device (utf8_replace l1) t (no_line t s) = Inr s2" "outbox s2 = outbox s @ [a]" "last_known s2 = a"
    using assms(1,3,5) quiet by (simp add: got_line_def post_def Let_def)
  moreover from this obtain s3 where "got_line mj device (utf8_replace l2) t s2 = Inr s3" "outbox s3 = outbox s @ [a, b]"
    using assms(2,4,6) by (simp add: got_line_def post_def Let_def)
  ultimately show ?thesis by (simp add: ticks)
qed

end
