(* ===== verification/RelayPublish.thy ===== *)
theory RelayPublish
  imports StandaloneRelay LocalBridge
begin

text \<open>
  The relay, its log and the local bridge together: from what an appliance sends through the
  deployed relay (\<open>deploy/wm_relay.py\<close>) to the states the local bridge (\<open>server/wm_local_bridge.py\<close>)
  publishes.
\<close>

section \<open>What a chunk announces\<close>








section \<open>What the follower makes of it\<close>

text \<open>
  What is published beside the news: heartbeats, each of which repeats what was shown last.
\<close>

fun with_beats :: "jdict \<Rightarrow> jdict list \<Rightarrow> jdict list \<Rightarrow> bool" where
  "with_beats shown [] posted = (set posted \<subseteq> {shown})"
| "with_beats shown (d # ds) posted = (\<exists>n rest. posted = replicate n shown @ d # rest \<and> with_beats d ds rest)"


lemma with_beats_refl: "with_beats shown ds ds"
  by (induction ds arbitrary: shown) (auto intro!: exI [of _ 0])

definition lines_in :: "(int \<times> tick) list \<Rightarrow> str list" where
  "lines_in evs = List.map_filter (\<lambda>(t, k). case k of GotLine l \<Rightarrow> Some l | NoLine \<Rightarrow> None) evs"

lemma lines_in_simps [simp]:
  "lines_in [] = []" "lines_in ((t, GotLine l) # evs) = l # lines_in evs" "lines_in ((t, NoLine) # evs) = lines_in evs"
  by (simp_all add: lines_in_def map_filter_simps)








section \<open>A run\<close>




text \<open>
  A frame that arrives in two reads is lost: neither line of the log holds a whole record, and
  the bridge, unlike the control channel, keeps nothing between lines.
\<close>

lemma torn_frame_lost:
  assumes "encode_message_len4 m = Inr w" "json_ok (JObj m)" "4 \<le> k" "k < length w" "length w < 16777216"
  shows "split_records (take k w) = []" and "split_records (drop k w) = []"
proof -
  let ?p = "dumps_compact (JObj m)"
  have w: "w = be32 (length ?p) @ ?p" "length ?p < 4294967296"
    using assms(1) by (auto simp: encode_message_len4_def Let_def split: if_splits)
  have "be_int (take 4 (take k w)) = length ?p" using w assms(3) by (simp add: min_def)
  then show "split_records (take k w) = []"
    using assms(3,4) w by (subst split_records.simps) (auto simp: Let_def)
  let ?d = "drop k w"
  show "split_records ?d = []"
  proof (cases "length ?d < 4")
    case False
    have d: "?d = drop (k - 4) ?p" using w(1) assms(3) by simp
    obtain a x y z r where parts: "?d = a # x # y # z # r"
      using False by (cases ?d; cases "tl ?d"; cases "tl (tl ?d)"; cases "tl (tl (tl ?d))") auto
    then have "a \<in> set ?p" using d by (metis in_set_dropD list.set_intros(1))
    then have "0 < (code a :: nat)" using plain_dumps_compact [OF assms(2)] by (simp add: plain_def)
    then have "16777216 \<le> be_int (take 4 ?d)" using parts by (simp add: be_int_4)
    then show ?thesis using assms(5) by (subst split_records.simps) (simp add: Let_def)
  qed (rule split_records_nil)
qed

end
