(* ===== verification/RelayRig.thy ===== *)
theory RelayRig
  imports StandaloneRelay
begin

text \<open>
  \<open>tools/wm47878_tls_relay.py\<close>: the front end that runs the shared engine (\<open>server/wm_bridge.py\<close>) with
  the log of both sides. Its endpoints, its listening loop and its options are those of the deployed
  relay; the lines of opening and closing are the engine's.
\<close>

definition idle_text :: "str \<Rightarrow> str" where
  "idle_text peer = peer @ '' passthrough idle 300.0s: closing''"

text \<open>A loop that ends with both sides alive has been silent for too long.\<close>

definition engine_close :: "relay_io \<Rightarrow> str \<Rightarrow> ('t, str list) relay \<Rightarrow> str list" where
  "engine_close io peer r = (case r of (c, u, log) \<Rightarrow>
     log_line io (peer @ '' passthrough closed'')
       (if dead c \<or> dead u then log else log_line io (idle_text peer) log))"

definition engine_bridge ::
  "'t tls_lib \<Rightarrow> relay_io \<Rightarrow> nat \<Rightarrow> wm_pass list \<Rightarrow> str \<Rightarrow> int \<Rightarrow> ('t, str list) relay \<Rightarrow> ('t, str list) relay option" where
  "engine_bridge lib io fuel pss peer start r = (case r of (c0, u0, log0) \<Rightarrow>
     map_option (\<lambda>(((c, u, log), alive), running). (c, u, if running then log else engine_close io peer (c, u, log)))
       (wm_loop lib io fuel pss ((c0, u0, log_line io (peer @ '' passthrough open'') log0), start)))"

definition rig_connection ::
  "'t tls_lib \<Rightarrow> relay_io \<Rightarrow> nat \<Rightarrow> wm_pass list \<Rightarrow> str \<Rightarrow> str \<times> int \<Rightarrow> int \<Rightarrow> str option \<Rightarrow> 't \<Rightarrow> 't \<Rightarrow> str list \<Rightarrow>
   (('t tls_end \<times> 't tls_end) option \<times> str list) option" where
  "rig_connection lib io fuel pss peer dst start refused tc tu log =
     (case refused of
        Some e \<Rightarrow> Some (None, log_line io (peer @ '' upstream connect failed ('' @ e @ ''); closing'') log)
      | None \<Rightarrow> map_option (\<lambda>(c, u, log'). (Some (c, u), log'))
          (engine_bridge lib io fuel pss peer start (new_end tc, new_end tu, log_line io (open_text peer dst) log)))"

definition rig_run :: "relay_io \<Rightarrow> str \<times> int \<Rightarrow> (str \<times> int) option \<Rightarrow> accepted list \<Rightarrow> str list \<Rightarrow> unit res \<times> started \<times> str list" where
  "rig_run io l upstream as log = accept_loop io upstream as ([], log_line io (listening_text l upstream) log)"

definition rig_main :: "relay_io \<Rightarrow> str \<Rightarrow> str \<Rightarrow> accepted list \<Rightarrow> str list \<Rightarrow> unit res \<times> started \<times> str list" where
  "rig_main io listen upstream as log = (case relay_args listen upstream of
      Inl e \<Rightarrow> (Inl e, [], log)
    | Inr (l, up) \<Rightarrow> rig_run io l up as log)"

section \<open>Its log is the traffic, too\<close>

lemma rig_serves_as_relay: "rig_main = wm_main"
  by (intro ext) (simp add: rig_main_def rig_run_def wm_main_def split: sum.split)

text \<open>On the same events both connections end alike, but for the lines of the log.\<close>

lemma rig_log_complete:
  assumes "rig_connection lib io fuel pss peer dst start None tc tu log = Some (Some (c, u), log')"
    and "peer \<noteq> []" "is_digit (hd peer)"
  shows "List.map_filter (chunk_read (label_of s)) log' =
     List.map_filter (chunk_read (label_of s)) log @ (case s of Client \<Rightarrow> got c | Upstream \<Rightarrow> got u)"
    and "faithful c u" "faithful u c"
proof -
  let ?pre = "[stamped_line (stamps io (length log)) (open_text peer dst),
    stamped_line (stamps io (Suc (length log))) (peer @ '' passthrough open'')]"
  obtain log2 alive running where l: "wm_loop lib io fuel pss ((new_end tc, new_end tu, log @ ?pre), start) = Some (((c, u, log2), alive), running)"
    and log': "log' = (if running then log2 else engine_close io peer (c, u, log2))"
    using assms(1) by (auto simp: rig_connection_def engine_bridge_def log_line_def)
  obtain shown fails where w: "log2 = (log @ ?pre) @ logged (stamps io) (length (log @ ?pre)) shown @ fails"
    "list_all (\<lambda>l. match_line l = None) fails" "chunks_of Client shown = got c" "chunks_of Upstream shown = got u"
    "[] \<notin> snd ` set shown" "faithful c u" "faithful u c"
    by (rule wm_loop_lines [OF l])
  obtain post where post: "log' = log2 @ post" "list_all (\<lambda>l. match_line l = None) post"
    using log' peer_line_unread [OF assms(2,3)]
    by (cases running; cases "dead c \<or> dead u") (auto simp: engine_close_def idle_text_def log_line_def)
  obtain pre where pre: "pre = ?pre" "list_all (\<lambda>l. match_line l = None) pre"
    using peer_line_unread [OF assms(2,3)] by (simp add: open_text_def)
  show "List.map_filter (chunk_read (label_of s)) log' =
     List.map_filter (chunk_read (label_of s)) log @ (case s of Client \<Rightarrow> got c | Upstream \<Rightarrow> got u)"
    using unread_chunks [OF pre(2)] unread_chunks [OF w(2)] unread_chunks [OF post(2)] w(1,3,4) post(1) logged_chunks [OF w(5)]
    unfolding pre(1) [symmetric] by (cases s) (simp_all add: map_filter_append)
  from w(6,7) show "faithful c u" "faithful u c" .
qed

end
