(* ===== verification/ThinqEvents.thy ===== *)
theory ThinqEvents
  imports App
begin

text \<open>
  \<open>server/thinq_events.py\<close>: the push events of the official API are matched to a device and handed to
  the cloud event handler. The SDK delivers the device list and the messages; a device has its
  id and, in its \<open>deviceInfo\<close>, perhaps an alias and a model name, all strings.
\<close>

section \<open>Matching an event to a device\<close>

record thinq_device =
  device_id :: str
  alias_of :: "str option"
  model_of :: "str option"

fun find_map :: "('a \<Rightarrow> 'b option) \<Rightarrow> 'a list \<Rightarrow> 'b option" where
  "find_map f [] = None"
| "find_map f (x # xs) = (case f x of Some y \<Rightarrow> Some y | None \<Rightarrow> find_map f xs)"

text \<open>
  \<open>_find_device_id\<close> looks at the payload and three levels below; \<open>n\<close> counts the levels that are
  left (\<open>depth = 4 - n\<close>).
\<close>

fun find_id :: "nat \<Rightarrow> json \<Rightarrow> str option" where
  "find_id 0 v = None"
| "find_id (Suc n) v = (case v of
      JObj ps \<Rightarrow>
        (case dict_get ps ''deviceId'' of
           Some (JStr (c # s)) \<Rightarrow> Some (c # s)
         | _ \<Rightarrow> find_map (\<lambda>w. find_id n w) (map snd ps))
    | _ \<Rightarrow> None)"

definition find_device_id :: "json \<Rightarrow> str option" where
  "find_device_id v = find_id 4 v"

datatype thinq_payload = Raw bytes | Parsed json

definition event_payload :: "thinq_payload \<Rightarrow> jdict option" where
  "event_payload p =
     (case (case p of Raw b \<Rightarrow> loads (utf8_replace b) | Parsed v \<Rightarrow> Some v) of
        Some (JObj m) \<Rightarrow> Some m
      | _ \<Rightarrow> None)"

record cloud_event =
  ev_alias :: str
  ev_model :: str
  ev_device :: str
  ev_payload :: json

definition event_for :: "thinq_device \<Rightarrow> jdict \<Rightarrow> cloud_event" where
  "event_for d m = \<lparr>ev_alias = (case alias_of d of None \<Rightarrow> ''unknown'' | Some a \<Rightarrow> a),
     ev_model = (case model_of d of None \<Rightarrow> [] | Some n \<Rightarrow> n), ev_device = device_id d, ev_payload = JObj m\<rparr>"

text \<open>The event the callback is called with, if it is called.\<close>

definition thinq_dispatch :: "thinq_device list \<Rightarrow> str \<Rightarrow> thinq_payload \<Rightarrow> cloud_event option" where
  "thinq_dispatch devs topic payload = (case event_payload payload of
      None \<Rightarrow> None
    | Some m \<Rightarrow>
        (case find (\<lambda>d. sublist (device_id d) topic) devs of
           Some d \<Rightarrow> Some (event_for d m)
         | None \<Rightarrow>
             (case find_device_id (JObj m) of
                None \<Rightarrow> None
              | Some i \<Rightarrow> map_option (\<lambda>d. event_for d m) (find (\<lambda>d. device_id d = i) devs))))"

text \<open>The callback of \<open>main\<close>; what it raises is logged and dropped.\<close>

definition on_thinq_message ::
  "'s state_env \<Rightarrow> thinq_device list \<Rightarrow> str \<Rightarrow> thinq_payload \<Rightarrow> 's store \<Rightarrow> 's store" where
  "on_thinq_message env devs topic payload st = (case thinq_dispatch devs topic payload of
      None \<Rightarrow> st
    | Some e \<Rightarrow> snd (on_cloud_event env (ev_alias e) (ev_model e) (ev_device e) (ev_payload e) st))"

definition load_pat :: "str option \<Rightarrow> str option \<Rightarrow> (str \<Rightarrow> str option) \<Rightarrow> str" where
  "load_pat pat_var file_var read_file =
     (let pat = py_strip (case pat_var of None \<Rightarrow> [] | Some s \<Rightarrow> s) in
      if pat \<noteq> [] then pat
      else let path = py_strip (case file_var of None \<Rightarrow> [] | Some s \<Rightarrow> s) in
        if path = [] then []
        else case read_file path of None \<Rightarrow> [] | Some t \<Rightarrow> py_strip t)"

definition subscriber_starts :: "bool \<Rightarrow> str \<Rightarrow> bool" where
  "subscriber_starts sdk pat \<longleftrightarrow> sdk \<and> pat \<noteq> []"

section \<open>The subscriber's session\<close>

text \<open>
  What the SDK answers: the account's devices (\<open>None\<close> when the call raises), whether subscribing a
  device, the set-up and the connection succeed, and whether the broker can be prepared.
\<close>

record sdk =
  sdk_devices :: "thinq_device list option"
  sdk_subscribe :: "str \<Rightarrow> bool"
  sdk_init :: bool
  sdk_prepare :: "bool option"
  sdk_connect :: bool

fun subscribe_all :: "sdk \<Rightarrow> thinq_device list \<Rightarrow> str list \<times> bool" where
  "subscribe_all api [] = ([], True)"
| "subscribe_all api (d # ds) =
     (if sdk_subscribe api (device_id d) then apfst (Cons (device_id d)) (subscribe_all api ds) else ([], False))"

text \<open>
  How the thread fares: an exception ends it, a broker that cannot be prepared switches it off, or
  it listens; with the ids it has subscribed.
\<close>

datatype session = Ended "str list" | SwitchedOff "str list" | Listening "thinq_device list" "str list"

definition thinq_session :: "sdk \<Rightarrow> session" where
  "thinq_session api = (case sdk_devices api of
      None \<Rightarrow> Ended []
    | Some devs \<Rightarrow>
        (case subscribe_all api devs of
           (ids, False) \<Rightarrow> Ended ids
         | (ids, True) \<Rightarrow>
             if list_ex (\<lambda>d. alias_of d = None) devs then Ended ids
             else if \<not> sdk_init api then Ended ids
             else (case sdk_prepare api of
                 None \<Rightarrow> Ended ids
               | Some ready \<Rightarrow> if \<not> ready then SwitchedOff ids
                   else if sdk_connect api then Listening devs ids else Ended ids)))"

text \<open>The line for a message: at most 2000 characters of its \<open>repr\<close>.\<close>

definition cp_length :: "str \<Rightarrow> nat" where
  "cp_length s = length (filter (\<lambda>c. \<not> is_cont c) s)"

definition logged_body :: "str \<Rightarrow> str" where
  "logged_body body =
     (if 2000 < cp_length body
      then cp_take 2000 body @ ''...(+'' @ nat_str (cp_length body - 2000) @ '' chars)'' else body)"

text \<open>The messages of a session, each logged and dispatched.\<close>

definition thinq_messages :: "'s state_env \<Rightarrow> session \<Rightarrow> (str \<times> thinq_payload) list \<Rightarrow> 's store \<Rightarrow> 's store" where
  "thinq_messages env ses msgs st = (case ses of
      Listening devs ids \<Rightarrow> fold (\<lambda>(topic, payload). on_thinq_message env devs topic payload) msgs st
    | _ \<Rightarrow> st)"

section \<open>Lemmas\<close>

lemma subscribe_all_ids:
  "subscribe_all api devs = (ids, fin) \<Longrightarrow> prefix ids (map device_id devs) \<and> (fin \<longrightarrow> ids = map device_id devs)"
  by (induction devs arbitrary: ids) (auto simp: apfst_def map_prod_def split: if_splits prod.splits)

text \<open>A session that listens has subscribed every device of the account, in order.\<close>

lemma listening_subscribed:
  assumes "thinq_session api = Listening devs ids"
  shows "sdk_devices api = Some devs \<and> ids = map device_id devs \<and> (\<forall>d \<in> set devs. alias_of d \<noteq> None)"
  using assms subscribe_all_ids [of api devs]
  by (auto simp: thinq_session_def list_ex_iff split: option.splits prod.splits bool.splits if_splits)

text \<open>
  A device without an alias ends the session of the whole account, although the dispatch has a
  name for such a device.
\<close>

lemma unnamed_device_ends_session:
  assumes "sdk_devices api = Some devs" "d \<in> set devs" "alias_of d = None"
  shows "\<exists>ids. thinq_session api = Ended ids" and "ev_alias (event_for d m) = ''unknown''"
  using assms by (auto simp: thinq_session_def event_for_def list_ex_iff split: prod.splits bool.splits)

lemma cp_length_take: "cp_length (cp_take n s) \<le> n"
  by (induction n s rule: cp_take.induct) (auto simp: cp_length_def split: nat.splits)

text \<open>However big the payload is, its line stays short.\<close>

lemma logged_body_short: "cp_length (logged_body body) \<le> 2000 + 13 + length (nat_str (cp_length body - 2000))"
proof -
  have a: "cp_length (s @ r) = cp_length s + cp_length r" for s r by (simp add: cp_length_def)
  have "cp_length (nat_str (cp_length body - 2000)) \<le> length (nat_str (cp_length body - 2000))"
    unfolding cp_length_def by (rule length_filter_le)
  moreover have "cp_length ''...(+'' = 5" "cp_length '' chars)'' = 7" by (simp_all add: cp_length_def is_cont_def)
  ultimately show ?thesis
    using cp_length_take [of 2000 body] by (auto simp: logged_body_def a simp del: append_Cons append.simps)
qed

lemma find_map_Some: "find_map f xs = Some y \<Longrightarrow> \<exists>x \<in> set xs. f x = Some y"
  by (induction xs) (auto split: option.splits)

lemma find_id_nonempty: "find_id n v = Some s \<Longrightarrow> s \<noteq> []"
proof (induction n arbitrary: v)
  case (Suc n)
  then obtain ps where v: "v = JObj ps" by (cases v) auto
  show ?case
  proof (cases "\<exists>c t. dict_get ps ''deviceId'' = Some (JStr (c # t))")
    case True
    with Suc.prems v show ?thesis by auto
  next
    case False
    then have "find_map (\<lambda>w. find_id n w) (map snd ps) = Some s"
      using Suc.prems v by (auto split: option.splits json.splits list.splits)
    then show ?thesis using find_map_Some Suc.IH by metis
  qed
qed simp

text \<open>
  A push is attributed to a device of the account or to none: the event names a listed device
  whose id occurs in the topic, or, when no listed id does, the one the payload's envelope
  carries; and it carries the payload unchanged.
\<close>

lemma push_attributed:
  assumes "thinq_dispatch devs topic payload = Some e"
  shows "\<exists>d m. d \<in> set devs \<and> ev_device e = device_id d \<and> event_payload payload = Some m \<and>
    ev_payload e = JObj m \<and>
    (sublist (device_id d) topic \<or>
     (\<forall>d' \<in> set devs. \<not> sublist (device_id d') topic) \<and> find_device_id (JObj m) = Some (device_id d))"
proof -
  obtain m where m: "event_payload payload = Some m"
    using assms by (auto simp: thinq_dispatch_def split: option.splits)
  show ?thesis
  proof (cases "find (\<lambda>d. sublist (device_id d) topic) devs")
    case (Some d)
    with assms m have "e = event_for d m" by (simp add: thinq_dispatch_def)
    with find_SomeD [OF Some] m show ?thesis by (auto simp: event_for_def)
  next
    case None
    then obtain i d where "find_device_id (JObj m) = Some i" "find (\<lambda>d. device_id d = i) devs = Some d"
        "e = event_for d m"
      using assms m by (auto simp: thinq_dispatch_def split: option.splits)
    with find_SomeD [of "\<lambda>d. device_id d = i" devs d] None m show ?thesis
      by (intro exI [of _ d] exI [of _ m]) (auto simp: event_for_def find_None_iff)
  qed
qed

lemma push_attributed_witness:
  "\<exists>d. d \<in> set [\<lparr>device_id = ''a1'', alias_of = Some ''Fridge'', model_of = None\<rparr>] \<and>
     ev_device (event_for \<lparr>device_id = ''a1'', alias_of = Some ''Fridge'', model_of = None\<rparr> []) = device_id d"
proof -
  let ?d = "\<lparr>device_id = ''a1'', alias_of = Some ''Fridge'', model_of = None\<rparr>"
  have "thinq_dispatch [?d] ''app/a1/push'' (Parsed (JObj [])) = Some (event_for ?d [])" by code_simp
  from push_attributed [OF this] show ?thesis by blast
qed

end
