(* ===== verification/Startup.thy ===== *)
theory Startup
  imports ThinqEvents Passthrough
begin

text \<open>
  Starting up: the options \<open>server/control_channel.py\<close> reads when it is loaded, the health server of
  \<open>server/app.py\<close> and its \<open>main\<close>. What the environment gives (the outcomes of the binds, the
  certificate) is the argument; the result is the list of services in the order they start.
\<close>

section \<open>Options\<close>

text \<open>\<open>LGM_47878_UPSTREAM\<close>: a malformed value switches passthrough off.\<close>

definition passthrough_upstream :: "str \<Rightarrow> (str \<times> int) option" where
  "passthrough_upstream raw =
     (let s = py_strip raw; h = takeWhile (\<lambda>c. c \<noteq> CHR '':'') s; p = drop 1 (dropWhile (\<lambda>c. c \<noteq> CHR '':'') s) in
      if s = [] then None
      else map_option (Pair h) (if p = [] then Some 47878 else py_int p))"

definition control_flag :: "str option \<Rightarrow> bool" where
  "control_flag v \<longleftrightarrow> (case v of None \<Rightarrow> False | Some s \<Rightarrow> s \<noteq> [])"

text \<open>What it says about the passthrough when the listener is up.\<close>

definition passthrough_lines :: "(str \<times> int) option \<Rightarrow> bool \<Rightarrow> str list" where
  "passthrough_lines up control = (case up of
      None \<Rightarrow> []
    | Some (h, p) \<Rightarrow>
        (''[control] passthrough upstream: '' @ h @ '':'' @ int_str p @
         '' (WM family: intercept AND forward; local query/command paths are INERT in this mode)'') #
        (if control then [''[control] WARNING: allow_control is on but passthrough does not register WM connections: commands will silently no-op'']
         else []))"

section \<open>The health server\<close>

text \<open>A port counts as up when it accepts a connection and completes the handshake.\<close>

definition tls_connectable :: "(int \<Rightarrow> bool) \<Rightarrow> (int \<Rightarrow> bool) \<Rightarrow> int \<Rightarrow> bool" where
  "tls_connectable accepts completes port \<longleftrightarrow> accepts port \<and> completes port"

text \<open>The ports it probes, unless its own cannot be bound.\<close>

definition start_health_server :: "bool \<Rightarrow> nat \<Rightarrow> nat \<Rightarrow> nat list option \<Rightarrow> nat list option" where
  "start_health_server bound https_port control_port ports =
     (if bound then Some (case ports of None \<Rightarrow> [https_port, control_port] | Some ps \<Rightarrow> ps) else None)"

section \<open>The main program\<close>

datatype service = StoreWired | ControlListener | CloudEvents | Poller | LogCapper | Watcher | HttpsListener | HealthListener

datatype fate = Exits | Raises | Serves

record boot =
  has_cert :: bool
  has_key :: bool
  sdk_installed :: bool
  token :: str
  poll_every :: int
  cap_size :: int
  cert_loads :: bool
  https_binds :: "bool list"
  health_bound :: bool

text \<open>
  The control channel is wired to the store before it listens; when its port is held it is retried in
  the background, so it counts as started in either case.
\<close>

definition background :: "boot \<Rightarrow> service list" where
  "background b = [StoreWired, ControlListener] @ (if subscriber_starts (sdk_installed b) (token b) then [CloudEvents] else []) @
     (if 0 < poll_every b then [Poller] else []) @ (if 0 < cap_size b then [LogCapper] else []) @ [Watcher]"

definition main_program :: "boot \<Rightarrow> service list \<times> fate" where
  "main_program b =
     (if \<not> (has_cert b \<and> has_key b) then ([], Exits)
      else if \<not> cert_loads b then (background b, Raises)
      else if \<not> bind_https (https_binds b) then (background b, Exits)
      else (background b @ [HttpsListener] @ (if health_bound b then [HealthListener] else []), Serves))"

text \<open>The seconds it sleeps between its attempts to bind, in tenths: none after the last.\<close>

fun bind_sleep :: "nat \<Rightarrow> bool list \<Rightarrow> nat" where
  "bind_sleep 0 outs = 0"
| "bind_sleep (Suc n) [] = 0"
| "bind_sleep (Suc n) (up # outs) = (if up then 0 else (if n = 0 then 0 else 25) + bind_sleep n outs)"

section \<open>What starts, and when\<close>

lemma upstream_read:
  assumes "h \<noteq> []" "CHR '':'' \<notin> set h" "\<not> is_space (hd h)" "\<not> is_space (last h)"
  shows "passthrough_upstream (h @ '':'' @ nat_str p) = Some (h, int p)" and "passthrough_upstream h = Some (h, 47878)"
proof -
  have strip: "py_strip s = s" if "s \<noteq> []" "\<not> is_space (hd s)" "\<not> is_space (last s)" for s
    by (rule py_strip_id) (use that in simp)
  have "\<not> is_space (last (nat_str p))" by (simp add: digit_not_space)
  then have "py_strip (h @ '':'' @ nat_str p) = h @ '':'' @ nat_str p" by (intro strip) (use assms in auto)
  moreover have "list_all (\<lambda>c. c \<noteq> CHR '':'') h" using assms(2) by (auto simp: list_all_iff)
  moreover have "py_int (nat_str p) = Some (int p)" using py_int_int_str [of "int p"] by (simp add: int_str_def)
  ultimately show "passthrough_upstream (h @ '':'' @ nat_str p) = Some (h, int p)"
    using takeWhile_then [of _ h "CHR '':''" "nat_str p"] dropWhile_then [of _ h "CHR '':''" "nat_str p"]
    by (simp add: passthrough_upstream_def Let_def)
  have parts: "takeWhile (\<lambda>c. c \<noteq> CHR '':'') h = h" "dropWhile (\<lambda>c. c \<noteq> CHR '':'') h = []"
    using assms(2) by (auto simp: takeWhile_eq_all_conv)
  show "passthrough_upstream h = Some (h, 47878)"
    unfolding passthrough_upstream_def Let_def strip [OF assms(1,3,4)] parts using assms(1) by simp
qed

text \<open>
  Services start in one fixed order, and the process serves exactly when there is a certificate that
  loads and one of its first six attempts binds the HTTPS port; nothing starts without a
  certificate, and it never sleeps more than twelve and a half seconds over the binding.
\<close>

lemma bind_sleep_bound: "bind_sleep n outs \<le> 25 * (n - 1)"
  by (induction n outs rule: bind_sleep.induct) (auto simp: diff_Suc split: nat.splits)

lemma startup_order:
  "subseq (fst (main_program b)) [StoreWired, ControlListener, CloudEvents, Poller, LogCapper, Watcher, HttpsListener, HealthListener]"
  by (auto simp: main_program_def background_def)

lemma startup_serves:
  "snd (main_program b) = Serves \<longleftrightarrow> has_cert b \<and> has_key b \<and> cert_loads b \<and> True \<in> set (take 6 (https_binds b))"
  "HttpsListener \<in> set (fst (main_program b)) \<longleftrightarrow> snd (main_program b) = Serves"
  "ControlListener \<in> set (fst (main_program b)) \<longleftrightarrow> has_cert b \<and> has_key b"
  "bind_sleep 6 (https_binds b) \<le> 125"
  using bind_sleep_bound [of 6 "https_binds b"]
  by (auto simp: main_program_def background_def bind_https_def try_bind_spec)

end
