(* ===== verification/FakeAppliance.thy ===== *)
theory FakeAppliance
  imports ControlChannel
begin

text \<open>
  \<open>tools/fake_appliance.py\<close>: the scripted washer that climbs the ladder of the control channel
  against the server. The clock (milliseconds), what arrives and the fresh message ids are given;
  the bytes it writes are recorded.
\<close>

section \<open>The client\<close>

record appliance_cfg =
  ap_device :: str
  ladder :: "bytes list"
  pump_interval :: int
  alive_interval :: int
  fresh_id :: "nat \<Rightarrow> str"
  write_ok :: "bytes \<Rightarrow> bool"

record appliance =
  mon_started :: bool
  mon_wid :: json
  acks_sent :: nat
  pump_index :: nat
  ids_used :: nat
  last_alive :: int
  last_pump :: int
  in_buf :: bytes
  written :: "bytes list"

definition ladder_wtwn3 :: "str list" where
  [const_defs]: "ladder_wtwn3 =
     [''01032b032b0100030a0401000000004000000104002d006400000300'',
      ''0600360107070003070401000000004000000104002d006400000300'',
      ''0700230107070003070001000000004000000104002d006400000300'',
      ''0800080107070000070001000000004000000104002d006400000300'',
      ''0a00000106070000000000000000000000000108002d006400000300'',
      ''000000010607000000000000000000000000000a002d006400000300'']"

type_synonym appliance_action = "appliance \<Rightarrow> unit res \<times> appliance"

definition client_send :: "appliance_cfg \<Rightarrow> json \<Rightarrow> jdict \<Rightarrow> appliance_action" where
  "client_send cfg wid extra s =
     (let (i, s1) = (if truthy wid then (wid, s)
                     else (JStr (fresh_id cfg (ids_used s)), s\<lparr>ids_used := Suc (ids_used s)\<rparr>)) in
      case encode_message_len4 (make_message (JStr (ap_device cfg)) i extra) of
        Inl e \<Rightarrow> (Inl e, s1)
      | Inr b \<Rightarrow> if write_ok cfg b then (Inr (), s1\<lparr>written := written s1 @ [b]\<rparr>) else (Inl OSError, s1))"

definition rule_ver :: bytes where
  "rule_ver = ''RuleVer=1.33,FwVer=QC_Modem_1.2.80,regFail=N''"

definition devinfo_fields :: jdict where
  "devinfo_fields = [(''Cmd'', JStr ''DevInfo''), (''Format'', JStr ''B64''), (''Data'', JStr (b64encode rule_ver))]"

definition pump_fields :: "bytes \<Rightarrow> jdict" where
  "pump_fields blob = [(''ReturnCode'', JStr ''0000''), (''Format'', JStr ''B64''), (''Data'', JStr (b64encode blob))]"

definition client_start :: "appliance_cfg \<Rightarrow> unit res \<times> appliance" where
  "client_start cfg =
     client_send cfg JNull devinfo_fields
       \<lparr>mon_started = False, mon_wid = JNull, acks_sent = 0, pump_index = 0, ids_used = 0, last_alive = 0,
        last_pump = 0, in_buf = [], written = []\<rparr>"

text \<open>Both kinds of numbered message are acknowledged; only a \<open>Mon Start\<close> starts the pump.\<close>

definition client_ack :: "appliance_cfg \<Rightarrow> json \<Rightarrow> appliance_action" where
  "client_ack cfg wid s = (case client_send cfg wid [(''ReturnCode'', JStr ''0000'')] s of
      (Inl e, s1) \<Rightarrow> (Inl e, s1)
    | (Inr _, s1) \<Rightarrow> (Inr (), s1\<lparr>acks_sent := Suc (acks_sent s1)\<rparr>))"

definition client_message :: "appliance_cfg \<Rightarrow> message \<Rightarrow> appliance_action" where
  "client_message cfg m s = (case get_or m ''Body'' (JObj []) of
      JObj body \<Rightarrow>
        if get_or body ''Cmd'' JNull = JStr ''Mon'' \<and> get_or body ''CmdOpt'' JNull = JStr ''Start'' then
          client_ack cfg (get_or body ''CmdWId'' JNull) (s\<lparr>mon_started := True, mon_wid := get_or body ''CmdWId'' JNull\<rparr>)
        else (case dict_get body ''CmdWId'' of
           Some wid \<Rightarrow> if dict_get body ''ReturnCode'' = None then client_ack cfg wid s else (Inr (), s)
         | None \<Rightarrow> (Inr (), s))
    | _ \<Rightarrow> (Inl AttributeError, s))"

fun client_messages :: "appliance_cfg \<Rightarrow> message list \<Rightarrow> appliance_action" where
  "client_messages cfg [] s = (Inr (), s)"
| "client_messages cfg (m # ms) s = (case client_message cfg m s of
      (Inl e, s1) \<Rightarrow> (Inl e, s1)
    | (Inr _, s1) \<Rightarrow> client_messages cfg ms s1)"

definition client_alive :: "appliance_cfg \<Rightarrow> int \<Rightarrow> appliance_action" where
  "client_alive cfg t s =
     (if alive_interval cfg \<le> t - last_alive s then
        (case client_send cfg JNull [(''Cmd'', JStr ''Alive'')] s of
           (Inl e, s1) \<Rightarrow> (Inl e, s1)
         | (Inr _, s1) \<Rightarrow> (Inr (), s1\<lparr>last_alive := t\<rparr>))
      else (Inr (), s))"

definition client_pump :: "appliance_cfg \<Rightarrow> int \<Rightarrow> appliance_action" where
  "client_pump cfg t s =
     (if mon_started s \<and> pump_interval cfg \<le> t - last_pump s then
        (let blob = ladder cfg ! (pump_index s mod length (ladder cfg)); s1 = s\<lparr>pump_index := Suc (pump_index s)\<rparr> in
         case client_send cfg (mon_wid s1) (pump_fields blob) s1 of
           (Inl e, s2) \<Rightarrow> (Inl e, s2)
         | (Inr _, s2) \<Rightarrow> (Inr (), s2\<lparr>last_pump := t\<rparr>))
      else (Inr (), s))"

datatype arrival = Arrives bytes | TimedOut | Broken

definition client_receive :: "appliance_cfg \<Rightarrow> arrival \<Rightarrow> appliance \<Rightarrow> bool res \<times> appliance" where
  "client_receive cfg a s = (case a of
      TimedOut \<Rightarrow> (Inr True, s)
    | Broken \<Rightarrow> (Inl OSError, s)
    | Arrives chunk \<Rightarrow>
        if chunk = [] then (Inr False, s)
        else let (msgs, rest) = decode_messages_len4 (in_buf s @ chunk) in
          (case client_messages cfg msgs (s\<lparr>in_buf := rest\<rparr>) of
             (Inl e, s1) \<Rightarrow> (Inl e, s1)
           | (Inr _, s1) \<Rightarrow> (Inr True, s1)))"

text \<open>One pass of the loop; the flag says whether there is another.\<close>

definition client_turn :: "appliance_cfg \<Rightarrow> int \<times> arrival \<Rightarrow> appliance \<Rightarrow> bool res \<times> appliance" where
  "client_turn cfg ev s = (case client_alive cfg (fst ev) s of
      (Inl e, s1) \<Rightarrow> (Inl e, s1)
    | (Inr _, s1) \<Rightarrow> (case client_pump cfg (fst ev) s1 of
          (Inl e, s2) \<Rightarrow> (Inl e, s2)
        | (Inr _, s2) \<Rightarrow> client_receive cfg (snd ev) s2))"

fun client_run :: "appliance_cfg \<Rightarrow> (int \<times> arrival) list \<Rightarrow> appliance \<Rightarrow> unit res \<times> appliance" where
  "client_run cfg [] s = (Inr (), s)"
| "client_run cfg (ev # evs) s = (case client_turn cfg ev s of
      (Inl e, s1) \<Rightarrow> (Inl e, s1)
    | (Inr go, s1) \<Rightarrow> if go then client_run cfg evs s1 else (Inr (), s1))"


section \<open>Climbing the ladder\<close>

definition mon_id :: "str \<Rightarrow> str" where
  "mon_id d = ''n-'' @ cp_take 8 d @ ''-mon''"

text \<open>What the client ever sends, with which ids; nothing of it fails to be framed or written.\<close>

definition client_fields :: "appliance_cfg \<Rightarrow> jdict set" where
  "client_fields cfg = {devinfo_fields, [(''Cmd'', JStr ''Alive'')], [(''ReturnCode'', JStr ''0000'')]} \<union>
     pump_fields ` set (ladder cfg)"

definition can_climb :: "appliance_cfg \<Rightarrow> bool" where
  "can_climb cfg \<longleftrightarrow> ap_device cfg \<noteq> [] \<and> ladder cfg \<noteq> [] \<and> (\<forall>b. write_ok cfg b) \<and> (\<forall>n. fresh_id cfg n \<noteq> []) \<and>
     (\<forall>x \<in> client_fields cfg. \<forall>i \<in> insert (mon_id (ap_device cfg)) (range (fresh_id cfg)).
        length (dumps_compact (JObj (make_message (JStr (ap_device cfg)) (JStr i) x))) < 4294967296)"

text \<open>Two states that differ in what was sent and when, not in how far the client is.\<close>

definition same_stage :: "appliance \<Rightarrow> appliance \<Rightarrow> bool" where
  "same_stage s s' \<longleftrightarrow> mon_started s' = mon_started s \<and> mon_wid s' = mon_wid s \<and> acks_sent s' = acks_sent s \<and>
     in_buf s' = in_buf s"

lemma same_stage_trans: "same_stage s s' \<Longrightarrow> same_stage s' s'' \<Longrightarrow> same_stage s s''"
  by (simp add: same_stage_def)

lemma client_send_ok:
  assumes "can_climb cfg" "x \<in> client_fields cfg" "wid = JNull \<or> wid = JStr (mon_id (ap_device cfg))"
  shows "\<exists>b n i. client_send cfg wid x s = (Inr (), s\<lparr>ids_used := n, written := written s @ [b]\<rparr>) \<and>
    encode_message_len4 (make_message (JStr (ap_device cfg)) (JStr i) x) = Inr b \<and> i \<noteq> [] \<and>
    (wid \<noteq> JNull \<longrightarrow> i = mon_id (ap_device cfg))"
proof -
  define i where "i = (if wid = JNull then fresh_id cfg (ids_used s) else mon_id (ap_device cfg))"
  define n where "n = (if wid = JNull then Suc (ids_used s) else ids_used s)"
  have "mon_id (ap_device cfg) \<noteq> []" by (simp add: mon_id_def)
  then have i: "i \<noteq> []" using assms(1) by (simp add: i_def can_climb_def)
  have "length (dumps_compact (JObj (make_message (JStr (ap_device cfg)) (JStr i) x))) < 4294967296"
    using assms(1,2) by (simp add: can_climb_def i_def)
  then obtain b where b: "encode_message_len4 (make_message (JStr (ap_device cfg)) (JStr i) x) = Inr b"
    by (simp add: encode_message_len4_def Let_def)
  moreover have "client_send cfg wid x s = (Inr (), s\<lparr>ids_used := n, written := written s @ [b]\<rparr>)"
    using assms(1,3) b i by (auto simp: client_send_def can_climb_def i_def n_def mon_id_def)
  ultimately show ?thesis using i by (intro exI [of _ b] exI [of _ n] exI [of _ i]) (simp add: i_def)
qed

definition stage_ok :: "appliance_cfg \<Rightarrow> appliance \<Rightarrow> bool" where
  "stage_ok cfg s \<longleftrightarrow> mon_wid s = (if mon_started s then JStr (mon_id (ap_device cfg)) else JNull)"

lemma client_alive_ok:
  assumes "can_climb cfg"
  shows "\<exists>s'. client_alive cfg t s = (Inr (), s') \<and> same_stage s s'"
proof (cases "alive_interval cfg \<le> t - last_alive s")
  case True
  obtain b n where "client_send cfg JNull [(''Cmd'', JStr ''Alive'')] s = (Inr (), s\<lparr>ids_used := n, written := written s @ [b]\<rparr>)"
    using client_send_ok [OF assms, of "[(''Cmd'', JStr ''Alive'')]" JNull s] by (auto simp: client_fields_def)
  then show ?thesis using True by (simp add: client_alive_def same_stage_def)
qed (simp add: client_alive_def same_stage_def)

lemma client_pump_ok:
  assumes "can_climb cfg" "stage_ok cfg s"
  shows "\<exists>s'. client_pump cfg t s = (Inr (), s') \<and> same_stage s s' \<and>
    (mon_started s \<and> pump_interval cfg \<le> t - last_pump s \<longrightarrow>
       (\<exists>b. written s' = written s @ [b] \<and>
          encode_message_len4 (make_message (JStr (ap_device cfg)) (JStr (mon_id (ap_device cfg)))
            (pump_fields (ladder cfg ! (pump_index s mod length (ladder cfg))))) = Inr b))"
proof (cases "mon_started s \<and> pump_interval cfg \<le> t - last_pump s")
  case True
  let ?blob = "ladder cfg ! (pump_index s mod length (ladder cfg))" and ?s = "s\<lparr>pump_index := Suc (pump_index s)\<rparr>"
  have "?blob \<in> set (ladder cfg)" using assms(1) by (simp add: can_climb_def)
  then have "pump_fields ?blob \<in> client_fields cfg" by (simp add: client_fields_def)
  moreover have "mon_wid s = JStr (mon_id (ap_device cfg))" using True assms(2) by (simp add: stage_ok_def)
  ultimately obtain b n where "client_send cfg (mon_wid s) (pump_fields ?blob) ?s =
      (Inr (), ?s\<lparr>ids_used := n, written := written ?s @ [b]\<rparr>)"
    "encode_message_len4 (make_message (JStr (ap_device cfg)) (JStr (mon_id (ap_device cfg))) (pump_fields ?blob)) = Inr b"
    using client_send_ok [OF assms(1), of "pump_fields ?blob" "mon_wid s" ?s] by auto
  then show ?thesis using True by (simp add: client_pump_def same_stage_def Let_def)
qed (auto simp: client_pump_def same_stage_def)

text \<open>The server's two answers to \<open>DevInfo\<close>.\<close>

definition server_start :: "appliance_cfg \<Rightarrow> message" where
  "server_start cfg = mon_start_message (JStr (ap_device cfg)) (JStr (mon_id (ap_device cfg)))"

lemma client_on_ack: "client_message cfg (ack_message dev wid) s = (Inr (), s)"
  by (simp add: client_message_def ack_message_def make_message_def get_or_def)

lemma client_on_start:
  assumes "can_climb cfg"
  shows "\<exists>s'. client_message cfg (server_start cfg) s = (Inr (), s') \<and> mon_started s' \<and>
    mon_wid s' = JStr (mon_id (ap_device cfg)) \<and> acks_sent s' = Suc (acks_sent s) \<and> in_buf s' = in_buf s"
proof -
  let ?i = "JStr (mon_id (ap_device cfg))" and ?s = "s\<lparr>mon_started := True, mon_wid := JStr (mon_id (ap_device cfg))\<rparr>"
  have "[(''ReturnCode'', JStr ''0000'')] \<in> client_fields cfg" by (simp add: client_fields_def)
  then obtain b n where "client_send cfg ?i [(''ReturnCode'', JStr ''0000'')] ?s =
      (Inr (), ?s\<lparr>ids_used := n, written := written ?s @ [b]\<rparr>)"
    using client_send_ok [OF assms, of "[(''ReturnCode'', JStr ''0000'')]" ?i ?s] by auto
  then show ?thesis
    by (simp add: client_message_def server_start_def mon_start_message_def make_message_def get_or_def client_ack_def)
qed

lemma client_on_messages:
  assumes "can_climb cfg" "set ms \<subseteq> {ack_message dev wid, server_start cfg}" "stage_ok cfg s"
  shows "\<exists>s'. client_messages cfg ms s = (Inr (), s') \<and> stage_ok cfg s' \<and> in_buf s' = in_buf s \<and>
    mon_started s' = (mon_started s \<or> server_start cfg \<in> set ms) \<and>
    acks_sent s' = acks_sent s + count_list ms (server_start cfg)"
  using assms(2,3)
proof (induction ms arbitrary: s)
  case (Cons m ms)
  have ne: "ack_message dev wid \<noteq> server_start cfg"
    by (simp add: ack_message_def server_start_def mon_start_message_def make_message_def)
  show ?case
  proof (cases "m = server_start cfg")
    case True
    obtain s1 where s1: "client_message cfg m s = (Inr (), s1)" "mon_started s1" "stage_ok cfg s1"
      "acks_sent s1 = Suc (acks_sent s)" "in_buf s1 = in_buf s"
      using client_on_start [OF assms(1), of s] True by (auto simp: stage_ok_def)
    then show ?thesis using Cons.IH [of s1] Cons.prems(1) True by auto
  next
    case False
    then have "client_message cfg m s = (Inr (), s)" using Cons.prems(1) client_on_ack by auto
    then show ?thesis using Cons.IH [of s] Cons.prems False by auto
  qed
qed simp


lemma client_turn_quiet:
  assumes "can_climb cfg" "stage_ok cfg s"
  shows "\<exists>s'. client_turn cfg (t, a) s = client_receive cfg a s' \<and> same_stage s s' \<and>
    (mon_started s \<and> pump_interval cfg \<le> t - last_pump s \<longrightarrow>
       (\<exists>b blob. blob \<in> set (ladder cfg) \<and> last (written s') = b \<and>
          encode_message_len4 (make_message (JStr (ap_device cfg)) (JStr (mon_id (ap_device cfg))) (pump_fields blob)) = Inr b))"
proof -
  obtain s1 where s1: "client_alive cfg t s = (Inr (), s1)" "same_stage s s1" using client_alive_ok [OF assms(1)] by blast
  have lp: "last_pump s1 = last_pump s"
    using s1(1) by (auto simp: client_alive_def client_send_def Let_def split: if_splits sum.splits)
  have ok: "stage_ok cfg s1" using assms(2) s1(2) by (simp add: stage_ok_def same_stage_def)
  let ?blob = "ladder cfg ! (pump_index s1 mod length (ladder cfg))"
  obtain s2 where s2: "client_pump cfg t s1 = (Inr (), s2)" "same_stage s1 s2"
    "mon_started s1 \<and> pump_interval cfg \<le> t - last_pump s1 \<longrightarrow> (\<exists>b. written s2 = written s1 @ [b] \<and>
       encode_message_len4 (make_message (JStr (ap_device cfg)) (JStr (mon_id (ap_device cfg))) (pump_fields ?blob)) = Inr b)"
    using client_pump_ok [OF assms(1) ok, of t] by blast
  have mem: "?blob \<in> set (ladder cfg)" using assms(1) by (simp add: can_climb_def)
  have "client_turn cfg (t, a) s = client_receive cfg a s2" using s1 s2 by (simp add: client_turn_def)
  moreover have "same_stage s s2" using s1(2) s2(2) by (rule same_stage_trans)
  moreover have "\<exists>b blob. blob \<in> set (ladder cfg) \<and> last (written s2) = b \<and>
      encode_message_len4 (make_message (JStr (ap_device cfg)) (JStr (mon_id (ap_device cfg))) (pump_fields blob)) = Inr b"
    if "mon_started s \<and> pump_interval cfg \<le> t - last_pump s"
  proof -
    have "mon_started s1 \<and> pump_interval cfg \<le> t - last_pump s1" using that s1(2) lp by (simp add: same_stage_def)
    then obtain b where "written s2 = written s1 @ [b]"
      "encode_message_len4 (make_message (JStr (ap_device cfg)) (JStr (mon_id (ap_device cfg))) (pump_fields ?blob)) = Inr b"
      using s2(3) by blast
    with mem show ?thesis by auto
  qed
  ultimately show ?thesis by blast
qed

lemma client_run_chunks:
  assumes "can_climb cfg"
  shows "stage_ok cfg s \<Longrightarrow> map snd evs = map Arrives cs \<Longrightarrow> [] \<notin> set cs \<Longrightarrow>
    reassemble decode_messages_len4 (in_buf s) cs = (ms, rest) \<Longrightarrow> set ms \<subseteq> {ack_message dev wid, server_start cfg} \<Longrightarrow>
    \<exists>s'. client_run cfg evs s = (Inr (), s') \<and> stage_ok cfg s' \<and>
      mon_started s' = (mon_started s \<or> server_start cfg \<in> set ms) \<and>
      acks_sent s' = acks_sent s + count_list ms (server_start cfg)"
proof (induction cs arbitrary: evs s ms)
  case (Cons c cs)
  obtain t evs' where evs: "evs = (t, Arrives c) # evs'" "map snd evs' = map Arrives cs"
    using Cons.prems(2) by (cases evs) auto
  obtain ms1 r1 where d: "decode_messages_len4 (in_buf s @ c) = (ms1, r1)" by fastforce
  obtain ms2 where r: "reassemble decode_messages_len4 r1 cs = (ms2, rest)" "ms = ms1 @ ms2"
    using Cons.prems(4) d by (cases "reassemble decode_messages_len4 r1 cs") auto
  obtain s1 where s1: "client_turn cfg (t, Arrives c) s = client_receive cfg (Arrives c) s1" "same_stage s s1"
    using client_turn_quiet [OF assms Cons.prems(1)] by blast
  have ok1: "stage_ok cfg (s1\<lparr>in_buf := r1\<rparr>)" using s1(2) Cons.prems(1) by (simp add: stage_ok_def same_stage_def)
  have sub: "set ms1 \<subseteq> {ack_message dev wid, server_start cfg}" "set ms2 \<subseteq> {ack_message dev wid, server_start cfg}"
    using Cons.prems(5) r(2) by auto
  obtain s2 where s2: "client_messages cfg ms1 (s1\<lparr>in_buf := r1\<rparr>) = (Inr (), s2)" "stage_ok cfg s2" "in_buf s2 = r1"
    "mon_started s2 = (mon_started s1 \<or> server_start cfg \<in> set ms1)"
    "acks_sent s2 = acks_sent s1 + count_list ms1 (server_start cfg)"
    using client_on_messages [OF assms sub(1) ok1] by auto
  have "client_turn cfg (t, Arrives c) s = (Inr True, s2)"
    using s1 s2(1) d Cons.prems(3) by (auto simp: client_receive_def same_stage_def)
  moreover obtain s3 where "client_run cfg evs' s2 = (Inr (), s3)" "stage_ok cfg s3"
    "mon_started s3 = (mon_started s2 \<or> server_start cfg \<in> set ms2)"
    "acks_sent s3 = acks_sent s2 + count_list ms2 (server_start cfg)"
    using Cons.IH [OF s2(2) evs(2), of ms2] Cons.prems(3) r(1) s2(3) sub(2) by auto
  ultimately show ?case using evs(1) r(2) s1(2) s2(4,5) by (auto simp: same_stage_def)
qed simp

text \<open>What the server makes of a message of the pump: the device is known, and its state ingested.\<close>

lemma pump_message_ingested:
  "handle_message env sock Len4 dev (make_message (JStr d) (JStr i) (pump_fields blob)) w =
     (JStr d, ingest_blob env (JStr d) blob (w\<lparr>connections := dict_set (connections w) (JStr d) (sock, Len4)\<rparr>))"
proof -
  let ?m = "make_message (JStr d) (JStr i) (pump_fields blob)" and ?body = "(''CmdWId'', JStr i) # pump_fields blob"
  let ?w = "w\<lparr>connections := dict_set (connections w) (JStr d) (sock, Len4)\<rparr>"
  have b: "get_or ?m ''Body'' (JObj []) = JObj ?body" "is_pump_body ?body" "device_of ?m = Some d"
    "get_or ?body ''Data'' JNull = JStr (b64encode blob)" "get_or ?body ''Cmd'' JNull = JNull"
    by (simp_all add: make_message_def get_or_def is_pump_body_def pump_fields_def device_of_def)
  have snap: "ingest_snapshot env (JStr d) (JStr (b64encode blob)) ?w = ingest_blob env (JStr d) blob ?w"
    by (simp add: ingest_snapshot_def b64_of_def)
  obtain r w2 where i: "ingest_blob env (JStr d) blob ?w = (r, w2)" by fastforce
  show ?thesis
    using b i snap
    by (cases r) (simp_all add: handle_message_def device_of_get register_string handle_incoming_pump announce_def
        json_get_JObj del: json_get.simps)
qed


definition first_message :: "appliance_cfg \<Rightarrow> message" where
  "first_message cfg = make_message (JStr (ap_device cfg)) (JStr (fresh_id cfg 0)) devinfo_fields"

definition server_ack :: "appliance_cfg \<Rightarrow> message" where
  "server_ack cfg = ack_message (JStr (ap_device cfg)) (JStr (fresh_id cfg 0))"

text \<open>
  When its pump is due the client writes, last, a snapshot of its ladder, which the server ingests
  under the client's id.
\<close>

definition pushes :: "appliance_cfg \<Rightarrow> 's chan_env \<Rightarrow> nat \<Rightarrow> json \<Rightarrow> appliance \<Rightarrow> bool" where
  "pushes cfg env sock dev s \<longleftrightarrow> (\<forall>t. pump_interval cfg \<le> t - last_pump s \<longrightarrow>
     (\<exists>s2 m blob. client_turn cfg (t, TimedOut) s = (Inr True, s2) \<and> blob \<in> set (ladder cfg) \<and>
        encode_message_len4 m = Inr (last (written s2)) \<and>
        (\<forall>w. handle_message env sock Len4 dev m w = (JStr (ap_device cfg),
           ingest_blob env (JStr (ap_device cfg)) blob
             (w\<lparr>connections := dict_set (connections w) (JStr (ap_device cfg)) (sock, Len4)\<rparr>)))))"

lemma started_pushes:
  assumes "can_climb cfg" "stage_ok cfg s" "mon_started s"
  shows "pushes cfg env sock dev s"
  unfolding pushes_def
proof (intro allI impI)
  fix t assume t: "pump_interval cfg \<le> t - last_pump s"
  let ?d = "ap_device cfg"
  obtain s2 blob where "client_turn cfg (t, TimedOut) s = client_receive cfg TimedOut s2" "blob \<in> set (ladder cfg)"
    "encode_message_len4 (make_message (JStr ?d) (JStr (mon_id ?d)) (pump_fields blob)) = Inr (last (written s2))"
    using client_turn_quiet [OF assms(1,2), of t TimedOut] assms(3) t by auto
  then show "\<exists>s2 m blob. client_turn cfg (t, TimedOut) s = (Inr True, s2) \<and> blob \<in> set (ladder cfg) \<and>
      encode_message_len4 m = Inr (last (written s2)) \<and>
      (\<forall>w. handle_message env sock Len4 dev m w = (JStr ?d,
         ingest_blob env (JStr ?d) blob (w\<lparr>connections := dict_set (connections w) (JStr ?d) (sock, Len4)\<rparr>)))"
    by (intro exI [of _ s2] exI [of _ "make_message (JStr ?d) (JStr (mon_id ?d)) (pump_fields blob)"] exI [of _ blob]
        conjI allI pump_message_ingested) (simp_all add: client_receive_def)
qed

text \<open>
  C36. Client and server climb the ladder together: the appliance's first frame registers it and
  makes the server write exactly an acknowledgement and a \<open>Mon Start\<close>; however TCP cuts these two
  frames and whatever the times, the appliance then has started to push, having acknowledged once;
  from then on its next turn that is due writes a snapshot of its ladder as its last frame, and
  the server, given that message, ingests exactly that snapshot under the appliance's id.
\<close>
theorem ladder_climbed:
  assumes "can_climb cfg" "client_start cfg = (Inr (), s0)" "\<forall>b. send_ok env sock b"
    and "len4_message_ok (server_ack cfg)" "len4_message_ok (server_start cfg)"
  shows "\<exists>f a b w1. encode_message_len4 (first_message cfg) = Inr f \<and> written s0 = [f] \<and>
    encode_message_len4 (server_ack cfg) = Inr a \<and> encode_message_len4 (server_start cfg) = Inr b \<and>
    handle_messages env sock Len4 dev [first_message cfg] w = (JStr (ap_device cfg), Inr (), w1) \<and>
    sent w1 = sent w @ [(sock, a), (sock, b)] \<and> map_of (connections w1) (JStr (ap_device cfg)) = Some (sock, Len4) \<and>
    (\<forall>evs cs. map snd evs = map Arrives cs \<and> concat cs = a @ b \<and> [] \<notin> set cs \<longrightarrow>
      (\<exists>s1. client_run cfg evs s0 = (Inr (), s1) \<and> mon_started s1 \<and> acks_sent s1 = 1 \<and> pushes cfg env sock dev s1))"
proof -
  let ?d = "ap_device cfg"
  have fresh: "fresh_id cfg 0 \<noteq> []" using assms(1) by (simp add: can_climb_def)
  have "length (dumps_compact (JObj (first_message cfg))) < 4294967296"
    using assms(1) by (simp add: can_climb_def first_message_def client_fields_def)
  then obtain f where f: "encode_message_len4 (first_message cfg) = Inr f" by (simp add: encode_message_len4_def Let_def)
  then have s0: "written s0 = [f]" "stage_ok cfg s0" "in_buf s0 = []" "acks_sent s0 = 0" "\<not> mon_started s0"
    using assms(1,2) by (auto simp: client_start_def client_send_def first_message_def can_climb_def stage_ok_def)
  obtain a where a: "encode_message_len4 (server_ack cfg) = Inr a" using washer_wire.enc_ok [OF assms(4)] by blast
  obtain b where b: "encode_message_len4 (server_start cfg) = Inr b" using washer_wire.enc_ok [OF assms(5)] by blast
  have "a \<noteq> []" using a by (auto simp: encode_message_len4_def be32_def Let_def split: if_splits)
  let ?w1 = "w\<lparr>connections := dict_set (connections w) (JStr ?d) (sock, Len4), sent := sent w @ [(sock, a), (sock, b)]\<rparr>"
  have "handle_message env sock Len4 dev (first_message cfg) w = (JStr ?d, Inr (), ?w1)"
    by (rule devinfo_answer [where body = "(''CmdWId'', JStr (fresh_id cfg 0)) # devinfo_fields"])
      (use a b \<open>a \<noteq> []\<close> assms(3) in \<open>simp_all add: first_message_def make_message_def get_or_def devinfo_fields_def
        device_of_def server_ack_def server_start_def mon_id_def\<close>)
  then have h: "handle_messages env sock Len4 dev [first_message cfg] w = (JStr ?d, Inr (), ?w1)" by simp
  have climb: "\<exists>s1. client_run cfg evs s0 = (Inr (), s1) \<and> mon_started s1 \<and> acks_sent s1 = 1 \<and> pushes cfg env sock dev s1"
    if ev: "map snd evs = map Arrives cs" "concat cs = a @ b" "[] \<notin> set cs" for evs cs
  proof -
    have "reassemble decode_messages_len4 (in_buf s0) cs = ([server_ack cfg, server_start cfg], [])"
      using washer_wire.reassemble_stream [of "[server_ack cfg, server_start cfg]" "[a, b]" "[]" "[]" cs] assms(4,5) a b ev(2) s0(3)
      by simp
    from client_run_chunks [OF assms(1) s0(2) ev(1,3) this, of "JStr ?d" "JStr (fresh_id cfg 0)"]
    obtain s1 where "client_run cfg evs s0 = (Inr (), s1)" "mon_started s1" "acks_sent s1 = 1" "stage_ok cfg s1"
      using s0(4) by (auto simp: server_ack_def server_start_def ack_message_def mon_start_message_def make_message_def)
    then show ?thesis using started_pushes [OF assms(1)] by blast
  qed
  have "sent ?w1 = sent w @ [(sock, a), (sock, b)]" "map_of (connections ?w1) (JStr ?d) = Some (sock, Len4)" by simp_all
  then show ?thesis using f s0(1) a b h climb by blast
qed

definition sample_cfg :: appliance_cfg where
  "sample_cfg = \<lparr>ap_device = ''d2'', ladder = [[byte_of 6]], pump_interval = 100, alive_interval = 60000,
     fresh_id = (\<lambda>n. ''u-1''), write_ok = (\<lambda>b. True)\<rparr>"

lemma sample_cfg_lengths:
  assumes "x \<in> {devinfo_fields, [(''Cmd'', JStr ''Alive'')], [(''ReturnCode'', JStr ''0000'')], pump_fields [byte_of 6]}"
    and "i \<in> {''n-d2-mon'', ''u-1''}"
  shows "length (dumps_compact (JObj (make_message (JStr ''d2'') (JStr i) x))) < 4294967296"
proof -
  have "b64encode rule_ver = ''UnVsZVZlcj0xLjMzLEZ3VmVyPVFDX01vZGVtXzEuMi44MCxyZWdGYWlsPU4='' " "b64encode [byte_of 6] = ''Bg==''"
    by code_simp+
  then show ?thesis using assms
    by (auto simp: devinfo_fields_def pump_fields_def make_message_def dumps_length)
qed

lemma sample_cfg_climbs: "can_climb sample_cfg"
proof -
  have "mon_id ''d2'' = ''n-d2-mon''" by code_simp
  then show ?thesis using sample_cfg_lengths
    by (auto simp: can_climb_def sample_cfg_def client_fields_def)
qed

lemma sample_server_messages: "len4_message_ok (server_ack sample_cfg)" "len4_message_ok (server_start sample_cfg)"
proof -
  have "mon_id ''d2'' = ''n-d2-mon''" by code_simp
  then show "len4_message_ok (server_ack sample_cfg)" "len4_message_ok (server_start sample_cfg)"
    by (simp_all add: len4_message_ok_def const_defs dumps_length server_ack_def server_start_def ack_message_def
        mon_start_message_def make_message_def sample_cfg_def)
qed

theorem ladder_climbed_witness:
  "\<exists>s0 a b w1 s1. client_start sample_cfg = (Inr (), s0) \<and>
     handle_messages sample_chan_env 9 Len4 (JStr ''unknown'') [first_message sample_cfg] sample_world = (JStr ''d2'', Inr (), w1) \<and>
     sent w1 = [(9, a), (9, b)] \<and>
     client_run sample_cfg [(61000, Arrives (a @ [hd b])), (61001, Arrives (tl b))] s0 = (Inr (), s1) \<and> mon_started s1"
proof -
  obtain s0 where s0: "client_start sample_cfg = (Inr (), s0)"
    using client_send_ok [OF sample_cfg_climbs, of devinfo_fields JNull] by (auto simp: client_start_def client_fields_def)
  have send: "\<forall>b. send_ok sample_chan_env 9 b" by (simp add: sample_chan_env_def state_env.defs)
  have d: "ap_device sample_cfg = ''d2''" "sent sample_world = []" by (simp_all add: sample_cfg_def sample_world_def)
  obtain a b w1 where b: "encode_message_len4 (server_start sample_cfg) = Inr b"
    and h: "handle_messages sample_chan_env 9 Len4 (JStr ''unknown'') [first_message sample_cfg] sample_world = (JStr ''d2'', Inr (), w1)"
      "sent w1 = [(9, a), (9, b)]"
    and run: "\<forall>evs cs. map snd evs = map Arrives cs \<and> concat cs = a @ b \<and> [] \<notin> set cs \<longrightarrow>
      (\<exists>s1. client_run sample_cfg evs s0 = (Inr (), s1) \<and> mon_started s1 \<and> acks_sent s1 = 1 \<and>
        pushes sample_cfg sample_chan_env 9 (JStr ''unknown'') s1)"
    using ladder_climbed [OF sample_cfg_climbs s0 send sample_server_messages, of "JStr ''unknown''" sample_world]
    unfolding d append_Nil by blast
  have "4 < length b" using b dumps_compact_not_Nil [of "JObj (server_start sample_cfg)"] sample_server_messages(2)
    by (auto simp: encode_message_len4_def len4_message_ok_def Let_def split: if_splits)
  then have "concat [a @ [hd b], tl b] = a @ b" "[] \<notin> set [a @ [hd b], tl b]" by (cases b; auto)+
  then obtain s1 where "client_run sample_cfg [(61000, Arrives (a @ [hd b])), (61001, Arrives (tl b))] s0 = (Inr (), s1)" "mon_started s1"
    using run by (metis (no_types, lifting) list.simps(8,9) snd_conv)
  with s0 h show ?thesis by blast
qed

end
