(* ===== verification/FakeRig.thy ===== *)
theory FakeRig
  imports FakeAppliance App
begin

text \<open>
  The rest of \<open>tools/fake_appliance.py\<close>: the registration over HTTP, the time limit of the run and the
  command line. What the server answers is given; with the server of \<open>server/app.py\<close> in standalone
  mode the registration is decided here.
\<close>

section \<open>The registration\<close>

definition register_path :: str where
  [const_defs]: "register_path = ''/lgehadm/api/Device/TotalDeviceInfoSvc''"

definition register_body :: "str \<Rightarrow> bytes" where
  "register_body model = ''<lgedmRoot><countryCode>WW</countryCode><modelName>'' @ model @
     ''</modelName><itemList><item>THINQ_TIME_SYNC_URI</item></itemList></lgedmRoot>''"

definition lge_user :: str where
  "lge_user = ''lgehadmUser''"

definition lge_password :: str where
  "lge_password = ''bxLoLAZ+rp3oJDbEzRuIfAG4YumeqwWM9l6uUH6TupQ=''"

definition register_headers :: "str \<Rightarrow> int \<Rightarrow> (str, str) dict" where
  "register_headers device typ =
     [(''Accept'', ''text/xml''), (''Content-Type'', ''text/xml;charset=utf-8''), (''x-lgedm-userid'', lge_user),
      (''x-lgedm-password'', lge_password), (''x-lgedm-deviceid'', device), (''x-lgedm-devicetype'', int_str typ)]"

text \<open>A server gives a status, or the connection fails; any 2xx counts.\<close>

type_synonym http_server = "str \<Rightarrow> (str, str) dict \<Rightarrow> bytes \<Rightarrow> int res"

definition register_http :: "http_server \<Rightarrow> str \<Rightarrow> str \<Rightarrow> int \<Rightarrow> bool" where
  "register_http server device model typ =
     (case server register_path (register_headers device typ) (register_body model) of
        Inl _ \<Rightarrow> False
      | Inr status \<Rightarrow> 200 \<le> status \<and> status < 300)"

section \<open>The command line\<close>

text \<open>The passes of a run that has a time limit.\<close>

definition within :: "int option \<Rightarrow> int \<Rightarrow> (int \<times> arrival) list \<Rightarrow> (int \<times> arrival) list" where
  "within duration started evs = (case duration of
      None \<Rightarrow> evs
    | Some d \<Rightarrow> takeWhile (\<lambda>(t, _). t - started \<le> d) evs)"

definition timed_run :: "appliance_cfg \<Rightarrow> int option \<Rightarrow> int \<Rightarrow> (int \<times> arrival) list \<Rightarrow> unit res \<times> appliance" where
  "timed_run cfg duration started evs = (case client_start cfg of
      (Inl e, s) \<Rightarrow> (Inl e, s)
    | (Inr _, s) \<Rightarrow> client_run cfg (within duration started evs) s)"

text \<open>What it prints and its exit status; an exception ends only the thread that runs the client.\<close>

definition fake_main ::
  "http_server \<Rightarrow> bool \<Rightarrow> appliance_cfg \<Rightarrow> int \<Rightarrow> int \<Rightarrow> (int \<times> arrival) list \<Rightarrow> str list \<times> int" where
  "fake_main server skip_http cfg millis started evs =
     (let s = snd (timed_run cfg (Some millis) started evs) in
      ((if skip_http then []
        else [''registration: '' @ py_str (JBool (register_http server (ap_device cfg) ''WTWN3'' 201))]) @
       [''mon_start_received='' @ py_str (JBool (mon_started s)) @ '' acks_sent='' @ nat_str (acks_sent s)],
       if mon_started s then 0 else 1))"

section \<open>Against the server\<close>

definition status_of :: "response res \<Rightarrow> int res" where
  "status_of r = rbind r (\<lambda>(st, ct, b). Inr st)"

definition app_server :: "'s app_env \<Rightarrow> 's app \<Rightarrow> http_server" where
  "app_server env a path headers body =
     status_of (fst (do_post env path headers (Some (nat_str (length body))) body a))"

lemma registered_item:
  assumes "CHR ''<'' \<notin> set model"
  shows "parse_item (register_body model) = Some ''THINQ_TIME_SYNC_URI''"
proof -
  have first: "s \<noteq> [] \<and> hd s = CHR ''<''" if "match_item s = Some x" for s x
    using that by (cases s) (auto simp: match_item_def startswith_def split: if_splits)
  have "re_search match_item (register_body model) = re_search match_item
      (model @ ''</modelName><itemList><item>THINQ_TIME_SYNC_URI</item></itemList></lgedmRoot>'')"
    by (simp add: register_body_def match_item_def startswith_def)
  also have "\<dots> = re_search match_item ''</modelName><itemList><item>THINQ_TIME_SYNC_URI</item></itemList></lgedmRoot>''"
    using first assms by (rule search_skip)
  also have "\<dots> = Some ''THINQ_TIME_SYNC_URI''"
    by (simp add: match_item_def startswith_def)
  finally have "re_search match_item (register_body model) = Some ''THINQ_TIME_SYNC_URI''" .
  moreover have "utf8_replace ''THINQ_TIME_SYNC_URI'' = ''THINQ_TIME_SYNC_URI''"
    by (rule utf8_replace_ascii) (simp add: is_ascii_def)
  ultimately show ?thesis unfolding parse_item_def by (simp only: option.map)
qed

text \<open>
  In standalone mode the virtual appliance registers exactly when no capture of this item answers it,
  or one with a 2xx status: the made-up answer always counts.
\<close>

lemma standalone_registers:
  assumes "forwarder env = None" "CHR ''<'' \<notin> set model"
    and "replay_response (replaying env) register_path (Some ''THINQ_TIME_SYNC_URI'') (replayed a) = (Inr r, rs)"
  shows "register_http (app_server env a) device model typ \<longleftrightarrow>
    (case r of None \<Rightarrow> True | Some (st, ct, b) \<Rightarrow> 200 \<le> st \<and> st < 300)"
proof -
  have plain: "\<not> endswith register_path ''/report/diagmon''" "endswith register_path ''/api/Device/TotalDeviceInfoSvc''"
    "\<not> endswith (url_path register_path) ''/debug/state''" "\<not> endswith (url_path register_path) ''/debug/query''"
    by code_simp+
  have body: "read_body (Some (nat_str (length (register_body model)))) (register_body model) = Inr (register_body model)"
    using py_int_int_str [of "int (length (register_body model))"] by (simp add: read_body_def int_str_def)
  show ?thesis
    using assms plain body registered_item [OF assms(2)]
    by (auto simp: register_http_def app_server_def do_post_def dispatch_def Let_def observe_report_def standalone_def
        status_of_def synthetic_def split: option.splits)
qed

end
