(* ===== verification/ModelFetch.thy ===== *)
theory ModelFetch
  imports Registry JsonIndent
begin

text \<open>
  \<open>tools/fetch_model_json.py\<close>: fetching the modelJson of a device from LG and writing it where
  \<open>server/models/registry.py\<close> looks for it. The client library is a parameter. The file is indented
  JSON with its texts unescaped; reading it back gives what was fetched.
\<close>

section \<open>The tool\<close>

definition strip_text :: "json \<Rightarrow> str res" where
  "strip_text v = (case v of JStr s \<Rightarrow> Inr (py_strip s) | _ \<Rightarrow> Inl AttributeError)"

text \<open>The name stands at the top for some classes of devices, under \<open>Info\<close> for others.\<close>

definition fetched_name :: "json \<Rightarrow> str res" where
  "fetched_name data = rbind (json_get data ''modelName'' JNull) (\<lambda>a.
     if truthy a then strip_text a
     else rbind (json_get data ''Info'' JNull) (\<lambda>i.
       rbind (json_get (if truthy i then i else JObj []) ''modelName'' JNull) (\<lambda>b.
         strip_text (if truthy b then b else JStr []))))"

text \<open>The library, if it is installed: from the token, the country and the language, a device's modelJson.\<close>

type_synonym lg_client = "str \<Rightarrow> str \<Rightarrow> str \<Rightarrow> str \<Rightarrow> json option res"

datatype fetched = Usage | NotInstalled | NoDevice | NoName | Printed str | Wrote str str

definition fetch_main :: "'e reg_env_scheme \<Rightarrow> lg_client option \<Rightarrow> str option \<Rightarrow> str list \<Rightarrow> fetched res" where
  "fetch_main env lib token args =
     (let positional = filter (\<lambda>a. \<not> startswith a ''-'') args;
          arg = (\<lambda>i d. if i < length positional then positional ! i else d) in
      (case token of
        None \<Rightarrow> Inr Usage
      | Some t \<Rightarrow>
          if t = [] \<or> positional = [] then Inr Usage
          else (case lib of
              None \<Rightarrow> Inr NotInstalled
            | Some client \<Rightarrow>
                rbind (client t (arg 1 ''WW'') (arg 2 ''en-US'') (arg 0 [])) (\<lambda>found.
                  case found of
                    None \<Rightarrow> Inr NoDevice
                  | Some data \<Rightarrow>
                      rbind (fetched_name data) (\<lambda>name.
                        let payload = indented 2 quote_raw 0 data @ [CHR 10] in
                        Inr (if ''--stdout'' \<in> set args then Printed payload
                             else if name = [] then NoName
                             else Wrote (cache_path env name) payload))))))"

section \<open>What is fetched is what is loaded\<close>

text \<open>
  C16. A modelJson the tool writes is the one the server uses: with the file as it was written, a
  device that reports the model's name, in whatever spacing, and whatever its decoder, resolves to
  exactly what LG gave, as long as the name is one the server accepts.
\<close>

theorem fetched_model_loaded:
  assumes "fetch_main env (Some client) (Some token) args = Inr (Wrote path content)"
    and "\<And>t c l d data. client t c l d = Inr (Some data) \<Longrightarrow> json_ok data"
    and "read_text env path = Inr content"
  shows "\<exists>c l dev data name. client token c l dev = Inr (Some data) \<and> fetched_name data = Inr name \<and>
    (safe_name name \<longrightarrow> py_strip reported = name \<longrightarrow>
      load_model_json env [] reported dec = Inr (data, [(name, data)]))"
proof -
  obtain c l dev data name where d: "client token c l dev = Inr (Some data)" "fetched_name data = Inr name" "name \<noteq> []"
      "path = cache_path env name" "content = indented 2 quote_raw 0 data @ [CHR 10]"
    using assms(1) by (auto simp: fetch_main_def Let_def rbind_Inr_iff split: if_splits option.splits)
  have "data \<noteq> JNull" using d(2) by (auto simp: fetched_name_def)
  moreover have "loads content = Some data" using raw_text.loads_indented [where w=2 and r="[CHR 10]"] assms(2) [OF d(1)] d(5) by (simp add: is_json_space_def)
  ultimately have "safe_name name \<Longrightarrow> load_fresh env name dec = Inr data"
    using assms(3) d(3,4) by (simp add: load_fresh_def read_json_def split: option.splits)
  then have "safe_name name \<longrightarrow> py_strip reported = name \<longrightarrow> load_model_json env [] reported dec = Inr (data, [(name, data)])"
    by (simp add: load_model_json_def Let_def dict_set_new)
  with d(1,2) show ?thesis by blast
qed

definition fetched_sample :: json where
  "fetched_sample = JObj [(''Info'', JObj [(''modelName'', JStr '' FRIDGE_1 '')])]"

definition fetched_env :: reg_env where
  "fetched_env = \<lparr>parse_xml = (\<lambda>t. Inl ParseError), read_text = (\<lambda>p. if p = ''cache/FRIDGE_1.model.json''
     then Inr (indented 2 quote_raw 0 fetched_sample @ [CHR 10]) else Inl OSError), cache_dir = ''cache'', fixture_dir = ''fx''\<rparr>"

theorem fetched_model_loaded_witness:
  "fetch_main fetched_env (Some (\<lambda>t c l d. Inr (Some fetched_sample))) (Some ''t'') [''d1''] =
     Inr (Wrote ''cache/FRIDGE_1.model.json'' (indented 2 quote_raw 0 fetched_sample @ [CHR 10])) \<and>
   load_model_json fetched_env [] ''FRIDGE_1 '' (Some fridge_1reb1glpx1) = Inr (fetched_sample, [(''FRIDGE_1'', fetched_sample)])"
proof -
  have n: "fetched_name fetched_sample = Inr ''FRIDGE_1''" by code_simp
  have n2: "safe_name ''FRIDGE_1''" by code_simp
  have n3: "py_strip ''FRIDGE_1 '' = ''FRIDGE_1''" by code_simp
  have n4: "cache_path fetched_env ''FRIDGE_1'' = ''cache/FRIDGE_1.model.json''" by (simp add: cache_path_def fetched_env_def path_join_def startswith_def)
  have main: "fetch_main fetched_env (Some (\<lambda>t c l d. Inr (Some fetched_sample))) (Some ''t'') [''d1''] =
     Inr (Wrote ''cache/FRIDGE_1.model.json'' (indented 2 quote_raw 0 fetched_sample @ [CHR 10]))"
    by (simp add: fetch_main_def n n4 startswith_def del: indented.simps)
  have ok: "json_ok fetched_sample" by (simp add: fetched_sample_def)
  have "read_text fetched_env ''cache/FRIDGE_1.model.json'' = Inr (indented 2 quote_raw 0 fetched_sample @ [CHR 10])"
    by (simp add: fetched_env_def)
  then have "load_model_json fetched_env [] ''FRIDGE_1 '' (Some fridge_1reb1glpx1) = Inr (fetched_sample, [(''FRIDGE_1'', fetched_sample)])"
    using fetched_model_loaded [OF main, of "''FRIDGE_1 ''" "Some fridge_1reb1glpx1"] ok n n2 n3 by force
  with main show ?thesis by blast
qed

text \<open>
  The tool writes under any name, but the server looks only for names of a safe form: a model with
  any other character in its name is fetched and never found, with a slash it is written outside
  the cache.
\<close>

lemma unsafe_name_never_loaded:
  assumes "fetched_name data = Inr name" "name \<noteq> []" "\<not> safe_name name"
  shows "fetch_main env (Some (\<lambda>t c l d. Inr (Some data))) (Some ''t'') [''d''] = Inr (Wrote (cache_path env name) (indented 2 quote_raw 0 data @ [CHR 10]))"
    and "load_fresh env name None = Inr JNull"
  using assms by (simp_all add: fetch_main_def load_fresh_def startswith_def)

lemma name_with_slash_escapes: "cache_path env ''/etc/x'' = ''/etc/x.model.json''"
  by (simp add: cache_path_def path_join_def startswith_def)

end
