(* ===== verification/CaptureTools.thy ===== *)
theory CaptureTools
  imports App ReplayExtract
begin

text \<open>
  The two scripts around captures. \<open>lg_portfix.py\<close> is a hook of mitmproxy that sends what is meant for LG's
  servers to their real port. \<open>deploy/haos-addon/replay_flow.py\<close> posts a captured report to the running server
  and looks for it in \<open>/debug/state\<close>.
\<close>

section \<open>The proxy's upstream port\<close>

text \<open>The address mitmproxy is about to connect to, if it knows one.\<close>

definition server_connect :: "(str \<times> nat) option \<Rightarrow> (str \<times> nat) option" where
  "server_connect address = (case address of
      None \<Rightarrow> None
    | Some (host, port) \<Rightarrow>
        if (sublist ''lgthinq'' host \<or> sublist ''lgcloud'' host) \<and> port = 443 then Some (host, 46030)
        else Some (host, port))"

lemma server_connect_again [simp]: "server_connect (server_connect a) = server_connect a"
  by (auto simp: server_connect_def split: option.splits)

lemma server_connect_keeps_host: "map_option fst (server_connect a) = map_option fst a"
  by (auto simp: server_connect_def split: option.splits)

section \<open>A report of a capture\<close>

text \<open>\<open><Report>.*?</Report>\<close> with \<open>re.S\<close>: the first block, up to its first closing tag, over any lines.\<close>

definition match_report :: "str scanner" where
  "match_report s = do {
     r \<leftarrow> scan_lit ''<Report>'' s;
     (v, rest) \<leftarrow> split_first ''</Report>'' r;
     Some (''<Report>'' @ v @ ''</Report>'', length s - length rest) }"

definition first_report_block :: "bytes \<Rightarrow> str option" where
  "first_report_block log = map_option (filter (\<lambda>c. \<not> is_space c)) (re_search match_report (utf8_replace log))"

definition match_dev_id :: "str scanner" where
  "match_dev_id s = do {
     r \<leftarrow> scan_lit ''<devId>'' s;
     let v = takeWhile (\<lambda>c. c \<noteq> CHR ''<'') r;
     if v \<noteq> [] \<and> startswith (dropWhile (\<lambda>c. c \<noteq> CHR ''<'') r) ''</devId>'' then Some (v, 15 + length v) else None }"

section \<open>The live check\<close>

datatype verdict = Passed | NoReport | DirectEmpty | NoDevId | BadStatus | NotInState | NotDecoded | Raised py_exc

definition decoded_of :: "json \<Rightarrow> json res" where
  "decoded_of v = json_get v ''monData_decoded'' JNull"

definition diagmon_path :: str where
  [const_defs]: "diagmon_path = ''/lgehadm/report/diagmon''"

definition post_block :: "'s app_env \<Rightarrow> str \<Rightarrow> 's app \<Rightarrow> response res \<times> 's app" where
  "post_block env block = do_post env diagmon_path [(''Content-Type'', ''application/vnd.diagmonlge.dm+xml'')]
     (Some (nat_str (length block))) block"

definition look_up :: "json \<Rightarrow> str \<Rightarrow> verdict" where
  "look_up state dev_id = (case state of
      JObj es \<Rightarrow>
        (case dict_get es dev_id of
           None \<Rightarrow> NotInState
         | Some view \<Rightarrow> (case decoded_of view of Inl e \<Rightarrow> Raised e | Inr d \<Rightarrow> if truthy d then Passed else NotDecoded))
    | _ \<Rightarrow> Raised TypeError)"

text \<open>
  The report is decoded by the library directly, then by the server. \<open>urlopen\<close> raises for an error status, so
  every status but 200 ends the check.
\<close>

definition replay_check :: "'e reg_env_scheme \<Rightarrow> 's app_env \<Rightarrow> bytes \<Rightarrow> 's app \<Rightarrow> verdict" where
  "replay_check lib env log a =
     (case first_report_block log of
        None \<Rightarrow> NoReport
      | Some block \<Rightarrow>
          (case rbind (decode_report lib [] block None None) (\<lambda>(ps, cache).
                  case ps of [] \<Rightarrow> Inl IndexError | p # _ \<Rightarrow> decoded_of (JObj p)) of
             Inl e \<Rightarrow> Raised e
           | Inr direct \<Rightarrow>
               if \<not> truthy direct then DirectEmpty
               else case re_search match_dev_id block of
                   None \<Rightarrow> NoDevId
                 | Some dev_id \<Rightarrow>
                     (case post_block env block a of
                        (Inl e, a1) \<Rightarrow> Raised e
                      | (Inr (status, _, _), a1) \<Rightarrow>
                          if status \<noteq> 200 then BadStatus
                          else case fst (do_get env ''/debug/state'' [] a1) of
                              Inl e \<Rightarrow> Raised e
                            | Inr (_, _, body) \<Rightarrow>
                                (case loads body of None \<Rightarrow> Raised ValueError | Some state \<Rightarrow> look_up state dev_id))))"

section \<open>What the check shows\<close>

lemma block_tight: "first_report_block log = Some block \<Longrightarrow> \<forall>c \<in> set block. \<not> is_space c"
  by (auto simp: first_report_block_def)

lemma split_first_pieces: "split_first sep s = Some (v, rest) \<Longrightarrow> s = v @ sep @ rest"
  by (induction s arbitrary: v) (auto simp: startswith_iff_prefix prefix_def split: if_splits)

lemma split_first_here: "split_first sep (sep @ b) = Some ([], b)"
  by (cases "sep @ b") (auto simp: startswith_iff_prefix, auto simp: append_eq_Cons_conv)

lemma split_first_first: "split_first sep s = Some (v, rest) \<Longrightarrow> s = a @ sep @ b \<Longrightarrow> length v \<le> length a"
proof (induction s arbitrary: v a)
  case (Cons c cs)
  show ?case
  proof (cases a)
    case Nil
    then show ?thesis using Cons.prems split_first_here [of sep b] by simp
  next
    case (Cons d a')
    then show ?thesis using Cons.IH [of _ a'] Cons.prems by (auto split: if_splits)
  qed
qed (auto split: if_splits)

text \<open>The match is one block: it ends at its first closing tag.\<close>

lemma match_report_one:
  assumes "match_report s = Some (x, n)"
  shows "\<exists>v rest. s = x @ rest \<and> n = length x \<and> x = ''<Report>'' @ v @ ''</Report>'' \<and>
    (\<forall>a b. v @ ''</Report>'' = a @ ''</Report>'' @ b \<longrightarrow> b = [])"
proof -
  obtain r where r: "scan_lit ''<Report>'' s = Some r" using assms by (auto simp: match_report_def split: Option.bind_splits)
  then obtain v rest where v: "split_first ''</Report>'' r = Some (v, rest)" "x = ''<Report>'' @ v @ ''</Report>''" "n = length s - length rest"
    using assms by (auto simp: match_report_def split: Option.bind_splits)
  have s: "s = ''<Report>'' @ v @ ''</Report>'' @ rest" "r = v @ ''</Report>'' @ rest"
    using split_first_pieces [OF v(1)] scan_lit_Some [OF r] by simp_all
  have "b = []" if "v @ ''</Report>'' = a @ ''</Report>'' @ b" for a b
  proof -
    have "r = a @ ''</Report>'' @ b @ rest" using that s(2) by (metis append_assoc)
    then have "length v \<le> length a" using split_first_first [OF v(1), of a "b @ rest"] by simp
    moreover have "length v = length a + length b" using arg_cong [OF that, of length] by simp
    ultimately show ?thesis by simp
  qed
  moreover have "s = x @ rest" "n = length x" using s(1) v(2,3) by simp_all
  ultimately show ?thesis using v(2) by blast
qed

lemma posted_block:
  "post_block env block a = dispatch env \<lparr>r_method = ''POST'', r_path = diagmon_path,
     r_headers = [(''Content-Type'', ''application/vnd.diagmonlge.dm+xml'')], r_body = block\<rparr> a"
proof -
  have "py_int (nat_str (length block)) = Some (int (length block))"
    using py_int_int_str [of "int (length block)"] by (simp add: int_str_def)
  then show ?thesis by (simp add: post_block_def do_post_def read_body_def)
qed

lemma state_page: "do_get env ''/debug/state'' h a = (Inr (200, ''application/json'', dumps (state_json (latest (dev_store a)))), a)"
proof -
  have "endswith (url_path ''/debug/state'') ''/debug/state''" by code_simp
  then show ?thesis by (simp add: do_get_def dispatch_def)
qed

lemma posted_store: "dev_store (snd (post_block env block a)) = snd (ingest_report (core env) (RBytes block) (dev_store a))"
proof -
  have "\<not> endswith (url_path diagmon_path) ''/debug/state''" "\<not> endswith (url_path diagmon_path) ''/debug/query''"
    "endswith diagmon_path ''/report/diagmon''" by code_simp+
  then show ?thesis by (simp add: posted_block dispatch_store observe_report_def)
qed

lemma look_up_state:
  "look_up (state_json l) dev = (case dict_get l dev of
     None \<Rightarrow> NotInState | Some view \<Rightarrow> if truthy (get_or view ''monData_decoded'' JNull) then Passed else NotDecoded)"
proof -
  have "dict_get (map (\<lambda>(k, p). (k, JObj p)) l) dev = map_option JObj (dict_get l dev)" for l :: "(str, jdict) dict"
    by (induction l) auto
  then show ?thesis by (auto simp: look_up_def state_json_def decoded_of_def get_or_def split: option.splits)
qed

text \<open>
  With a store that is text, the check passes exactly when the block decodes directly, the server answers 200
  and what it then holds for the device is decoded.
\<close>

lemma replay_check_passed:
  assumes "first_report_block log = Some block" "re_search match_dev_id block = Some dev"
    and "decode_report lib [] block None None = Inr (p # ps, cache)" "truthy (get_or p ''monData_decoded'' JNull)"
    and "post_block env block a = (Inr (200, ct, answer), a1)" "json_ok (state_json (latest (dev_store a1)))"
  shows "replay_check lib env log a = (case dict_get (latest (snd (ingest_report (core env) (RBytes block) (dev_store a)))) dev of
     None \<Rightarrow> NotInState | Some view \<Rightarrow> if truthy (get_or view ''monData_decoded'' JNull) then Passed else NotDecoded)"
proof -
  have "dev_store a1 = snd (ingest_report (core env) (RBytes block) (dev_store a))"
    using posted_store [of env block a] assms(5) by simp
  then show ?thesis
    using assms by (simp add: replay_check_def state_page loads_dumps look_up_state decoded_of_def get_or_def)
qed

text \<open>
  Nothing ties what it holds to the report that was posted: where the server's decoder raises (its model files are
  not the library's), the answer is the same and a decoded view of an earlier report passes the check.
\<close>

lemma earlier_view_passes:
  assumes "first_report_block log = Some block" "re_search match_dev_id block = Some dev"
    and "decode_report lib [] block None None = Inr (p # ps, cache)" "truthy (get_or p ''monData_decoded'' JNull)"
    and "post_block env block a = (Inr (200, ct, answer), a1)" "json_ok (state_json (latest (dev_store a1)))"
    and "\<And>name t. decode_report (core env) (mem_cache (dev_store a)) (utf8_replace block) name t = Inl e"
    and "dict_get (latest (dev_store a)) dev = Some view" "truthy (get_or view ''monData_decoded'' JNull)"
  shows "replay_check lib env log a = Passed"
proof -
  have "latest (snd (ingest_report (core env) (RBytes block) (dev_store a))) = latest (dev_store a)"
    using assms(7) by (simp add: ingest_report_def report_text_def Let_def split: sum.splits)
  then show ?thesis using assms(8,9) by (simp add: replay_check_passed [OF assms(1-6)])
qed

end
