(* ===== verification/Spec2Isabelle.thy ===== *)
theory Spec2Isabelle
  imports System LogTools RelayPublish RelayRig Startup FakeRig ModelFetch CaptureTools
begin

text \<open>
  A model of the local replacement for the LG ThinQ cloud in this repository, and what is proved of
  it. Appliances talk to the server instead of to LG; the server decodes their reports, keeps the
  latest state of each, publishes it to Home Assistant over MQTT and, when that is enabled, sends
  commands back. A relay between appliance and LG logs the decrypted traffic; a bridge and a
  watcher follow the logs.

  \<^bold>\<open>The parts and how they meet.\<close>
  The HTTP surface (\<open>server/app.py\<close>) forwards a request to LG, replays a capture
  (\<open>server/replay.py\<close>) or makes up an answer (\<open>server/responses.py\<close>), and hands every diagnostic
  report to the store (\<open>server/state.py\<close>). The control channel (\<open>server/control_channel.py\<close>) accepts the
  appliances' permanent connections, decodes their two framings, keeps the table of connected
  devices, and hands their state blobs to the same store. The store asks the registry
  (\<open>server/models/registry.py\<close>) for a decoder, which reads the envelope
  (\<open>server/models/wm_envelope.py\<close>) and the blob by the appliance's model file
  (\<open>server/models/model_json.py\<close>); it logs each payload and calls its sink, the MQTT bridge
  (\<open>server/mqtt_bridge.py\<close>), which merges, deduplicates, announces (\<open>server/ha_mqtt.py\<close>) and
  publishes. The vocabulary of commands (\<open>server/models/control_vocab.py\<close>) is read from the model
  file; a command from Home Assistant is vetted against it and sent over the control channel. Push
  events of LG's public API (\<open>server/thinq_events.py\<close>) enter through the application's cloud
  event handler. The relay engine (\<open>server/wm_bridge.py\<close>) pumps between an appliance and LG: inside the
  control channel in passthrough mode, observed for snapshots; and on its own, as the deployed relay
  (\<open>deploy/wm_relay.py\<close>, a copy of the engine with a log) and the rig (\<open>tools/wm47878_tls_relay.py\<close>). The
  relays write logs that \<open>server/logcap.py\<close> truncates, \<open>server/wm_local_bridge.py\<close> publishes from,
  \<open>server/observability.py\<close> turns into ages, \<open>tools/extract_replay_store.py\<close> makes the store of captures
  from, and two log tools read. A scripted appliance (\<open>tools/fake_appliance.py\<close>) plays the other side of
  the control channel, and \<open>tools/fetch_model_json.py\<close> fetches the model files the registry reads.
  \<open>lg_portfix.py\<close> and \<open>deploy/haos-addon/replay_flow.py\<close> serve the capture proxy and check the add-on.

  \<^bold>\<open>The theories.\<close>
  \<^item> \<open>Prelude\<close>: exceptions as values, results, dictionaries, text functions of \<open>str\<close>, scanners for
    the regular expressions, the locale \<open>event_loop\<close>. \<open>Utf8\<close>, \<open>Utf8_Text\<close>, \<open>Json\<close>,
    \<open>Json_Roundtrip\<close>, \<open>JsonIndent\<close>, \<open>Codec\<close>, \<open>PyValue\<close>: what the program uses of Python's library (UTF-8 with
    replacement, \<open>json\<close> with and without indentation, \<open>base64\<close>, hex, \<open>struct\<close>, truth and equality of JSON
    values). The locale \<open>json_quoting\<close> states what a quoting of texts promises the scanner; it is interpreted
    for both quotings of \<open>json.dumps\<close> (\<open>ascii_text\<close>, \<open>raw_text\<close>).
  \<^item> \<open>Framing\<close>: the two wire formats and the receive buffers; the locale \<open>wire_codec\<close> states what a
    framing promises and is interpreted for both (\<open>fridge_wire\<close>, \<open>washer_wire\<close>).
  \<^item> \<open>ModelJson\<close>, \<open>WmEnvelope\<close>, \<open>Registry\<close>: the decoders, as above; the three device modules are in
    \<open>WmEnvelope\<close> and \<open>Registry\<close>.
  \<^item> \<open>State\<close>: the store as the record \<open>store\<close>, its operations as functions from a store to a result
    and a store; its invariant through \<open>store_loop\<close>.
  \<^item> \<open>ControlChannel\<close>: the table of connections, the handler, the passthrough observer, polling,
    binding; the record \<open>world\<close> holds the table, the store and the bytes written.
  \<^item> \<open>ControlVocab\<close>, \<open>HaMqtt\<close>, \<open>MqttBridge\<close>: command vocabulary, discovery messages, and the sink with
    its lazy connection (\<open>sink_loop\<close>, \<open>tidy_loop\<close>).
  \<^item> \<open>Replay\<close>, \<open>App\<close>: replayed and made-up answers, forwarding, dispatch, debug surface, health probe,
    cloud events. \<open>ThinqEvents\<close>: the session with the SDK, attributing a push to a device. \<open>Startup\<close>: the
    options and \<open>main\<close>, as the list of services in the order they start. \<open>System\<close>: the running server, the threads
    of \<open>main\<close> over the shared store, table and sink, and the relay engine inside it, as one state machine.
    A step is one message of a connection, one turn of a relay (\<open>tap_turn\<close>), one query of a polling round, one HTTP request (with the
    query of \<open>/debug/query\<close> apart from its waiting), one command of Home Assistant, one cloud event or one
    observability pass; \<open>sys_reach\<close> is what any order of them reaches from \<open>booted\<close>. The locale \<open>sink_keeper\<close>
    says what a step may do to the sink and is interpreted for the live one (\<open>live\<close>).
  \<^item> \<open>RelayEngine\<close>: the pump between two TLS endpoints, turn by turn. \<open>Passthrough\<close>: the engine with the
    channel's observer. \<open>StandaloneRelay\<close>: the deployed relay with its log and its listening loop.
    \<open>RelayRig\<close>: the rig.
  \<^item> \<open>RelayLog\<close>: the log line, its reader and the follower of the local bridge. \<open>LocalBridge\<close>: how that
    reads a growing log, and what it sends. \<open>RelayPublish\<close>: relay, log and bridge together. \<open>LogCap\<close>:
    the truncation and the rounds of its thread. \<open>Observability\<close>: the watcher, the ages and the rounds of its
    thread. \<open>ReplayExtract\<close>: from a log to the file of captures the server replays. \<open>LogTools\<close>: the timeline
    and the door check.
  \<^item> \<open>FakeAppliance\<close>, \<open>FakeRig\<close>: the scripted appliance, on the control channel and over HTTP.
    \<open>ModelFetch\<close>: the fetch tool. \<open>CaptureTools\<close>: the proxy hook and the live check.
  \<^item> This theory: what spans the store, the bridge, the vocabulary and the channel.

  \<^bold>\<open>How code is rendered.\<close>
  \<open>str\<close> and \<open>bytes\<close> are lists of characters, a text being its UTF-8, so a slice \<open>s[:n]\<close> counts code
  points; character classes are those of ASCII. A function that may raise returns an exception or a
  value, and a stateful one the state beside it, also when it raises; of an exception's text only
  the class is kept. A \<open>dict\<close> is an association list in insertion order. Numbers of Python are
  integers; a float literal keeps its text, and arithmetic on floats is left out. A regular
  expression is a scanner that gives the match at the head of a text. What is not under \<open>src/\<close> is a
  parameter: the XML parser, the file system (a function from paths to texts), the TLS library, the
  upstream (a function of attempt and request), the outcome of a write on a socket, of the connection
  to the broker, of \<open>select\<close>; clocks are arguments. Publishing over MQTT appends to a list, a sleep
  is recorded. A lock makes what it guards one step, and interleavings are lists of such steps.
  Messages on stderr are not modelled, but an exception raised while one is composed is.

  \<^bold>\<open>Bounds and fuel.\<close>
  The JSON scanner has fuel twice the length of its input and one (\<open>scan_fuel_enough\<close> shows that more
  changes nothing), the msgpack reader the length and one (\<open>mp_read_fuel_enough\<close>); the interpreter's
  recursion and digit limits are not modelled. The relay's pump has fuel for the reads of one turn;
  anything above what the two connections hold suffices (\<open>relay_turn_returns\<close>). The connection
  handler runs over the list of what \<open>recv\<close> returns.

  \<^bold>\<open>What is shown.\<close>
  Streams: any chunking of encoded messages is delivered exactly; what the decoders keep is bounded, and the
  length-prefixed one gets over garbage without zero bytes. Channel: without control nothing but acknowledgements and queries is written; the newest
  registration survives late cleanups; a closed connection is forgotten; a round polls everyone
  with a string for an id and drops whom it could not write to; passthrough forwards exactly what was sent, and of
  messages that are pump messages or have no snapshot it stores what terminating would; the scripted appliance
  and the server climb the whole ladder. Store and decoders: the invariant of the store,
  independence of the sink, confinement of file reads, the reference meaning of a binary layout, the
  types of what it decodes to; a fetched model with a safe name is the one loaded.
  Running server: in every state it can reach the store is well formed, the broker retains what the sink
  believes, the table has one entry per device, the buffers of both framings are bounded, every frame it ever
  wrote itself is an acknowledgement, a query or a vetted Set, and what it relays to an appliance is what LG
  sent; a connection left alone, terminated or relayed, does what its handler does.
  Home Assistant: a report, in every such state, and, from the bytes on the socket, a snapshot arrive there; the broker
  retains the merged state, every field is announced, a select accepts exactly its labels, only vetted Set commands reach the wire. HTTP: a registration is never
  acknowledged on LG's behalf, telemetry survives an outage, a replay is of exactly the requested
  item, what a log of complete, separate connections captured is what a server that reads the extracted file replays, the health endpoint is exact. Relay: nothing is lost,
  repeated or reordered, every turn ends, the deployed copy runs as the engine does, every redirected
  connection is served, the log read back is the traffic, the snapshots sent through the relay in whole
  frames are published in order and only when they change, but for heartbeats, no dropout frame is published, every line is processed
  once where the log grows by whole lines and none arrives between the size and the read, the ages are those of the newest evidence, the door
  check and the timeline list what was sent, the logs stay capped.

  \<^bold>\<open>What the proofs brought up\<close> is stated as lemmas beside the components: \<open>mp_reader_gaps\<close>,
  \<open>earlier_id_leaks\<close>, \<open>numeric_id_ends_round\<close>, \<open>course_sensors_collide\<close>,
  \<open>cycle_summary_never_published\<close>, \<open>query_string_hides_registration\<close>, \<open>blank_tail_published\<close>,
  \<open>torn_line_kills\<close>, \<open>torn_line_split\<close>, \<open>raced_line_twice\<close>, \<open>len4_zero_garbage_waits\<close>, \<open>truncation_rereads\<close>, \<open>bad_stamp_loses_poll\<close>, \<open>bad_stamp_ends_thread\<close>,
  \<open>truncation_republishes\<close>, \<open>torn_frame_lost\<close>, \<open>earlier_view_passes\<close>,
  \<open>unnamed_device_ends_session\<close>, \<open>interleaved_mispaired\<close>, \<open>split_request_loses_item\<close>,
  \<open>engine_close_ignored\<close>, \<open>torn_line_ends_check\<close>, \<open>unsafe_name_never_loaded\<close>.

  \<^bold>\<open>Not modelled.\<close>
  Threads below the steps of \<open>System\<close> (what is not under a lock could interleave more finely), the
  parsers of the command lines, the handshakes and record layer of TLS, the socket calls of the HTTP
  servers and the standard library's status line; messages on stderr; the logger of the SDK. The rig
  repeats \<open>original_dst\<close> and \<open>_ts\<close> of the deployed relay, which are modelled there. Of the live check the
  failures of the network and the skip marker of the test runner are left out.
\<close>

section \<open>From a report to Home Assistant\<close>

lemma single_report:
  assumes "ingest_report env r st = (Inr [p], st')" "\<not> is_unknown p"
  shows "\<exists>dev st2. st' = notify env dev p st2 \<and> sink_state st2 = sink_state st \<and>
    map_of (latest st2) dev = Some p \<and> map_of p ''devId'' = Some (JStr dev)"
proof -
  obtain root where root: "parse_xml env (report_text r) = Inr root"
    using assms(1) by (cases "parse_xml env (report_text r)") (auto simp: ingest_report_def)
  let ?dev = "stripped_text root ''devId''"
  obtain u c where c: "commit_all env ?dev [p] ((learn_model ?dev (stripped_text root ''modelName'') st)\<lparr>mem_cache := c\<rparr>) = (Inr u, st')"
    using ingest_report_commits [OF assms(1) root] by blast
  have "\<exists>q. p = stamp ?dev (stripped_text root ''modelName'') (now env) q"
    using assms(1) root by (auto simp: ingest_report_def Let_def split: sum.splits prod.splits)
  then have "map_of p ''devId'' = Some (JStr ?dev)" by (auto simp: stamp_def)
  moreover obtain st2 where "st' = notify env ?dev p st2" "sink_state st2 = sink_state st" "map_of (latest st2) ?dev = Some p"
    using c assms(2) by (auto simp: commit_def Let_def learn_model_def split: if_splits)
  ultimately show ?thesis by blast
qed

lemma single_pump:
  assumes "ingest_mondata env (JStr dev) blob st = (Inr (Some p), st')"
  shows "\<exists>st2. st' = notify env dev p st2 \<and> sink_state st2 = sink_state st \<and> map_of (latest st2) dev = Some p"
  using assms
  by (auto simp: ingest_mondata_def Let_def commit_def split: prod.splits sum.splits if_splits)

lemma pump_no_cmd: "is_pump_body body \<Longrightarrow> get_or body ''Cmd'' JNull = JNull"
  by (simp add: is_pump_body_def get_or_def map_of_eq_None_iff [THEN iffD2])

lemma handle_pump:
  assumes "device_of m = Some d" "get_or m ''Body'' (JObj []) = JObj body" "is_pump_body body"
  shows "handle_message env sock fam dev m w = (JStr d,
    ingest_snapshot env (JStr d) (get_or body ''Data'' JNull) (w\<lparr>connections := dict_set (connections w) (JStr d) (sock, fam)\<rparr>))"
  using assms pump_no_cmd [OF assms(3)]
  by (cases "ingest_snapshot env (JStr d) (get_or body ''Data'' JNull) (w\<lparr>connections := dict_set (connections w) (JStr d) (sock, fam)\<rparr>)")
    (auto simp: handle_message_def device_of_get register_string handle_incoming_pump announce_def json_get_JObj split: sum.splits simp del: json_get.simps)

text \<open>
  What Home Assistant sees of an appliance: the broker retains a state equal to the merged one, in
  which every field of the view has the view's value, and every field has been announced.
\<close>

definition ha_shows :: "lazy_sink store \<Rightarrow> str \<Rightarrow> jdict \<Rightarrow> bool" where
  "ha_shows st ha view \<longleftrightarrow> (\<exists>s merged m.
    the_sink (sink_state st) = Some s \<and> map_of (merged_view s) ha = Some merged \<and>
    (\<forall>f. f \<noteq> ''reserve_countdown'' \<longrightarrow> map_of view f \<noteq> None \<longrightarrow> map_of merged f = map_of view f) \<and>
    (m = merged \<or> py_eq (JObj m) (JObj merged)) \<and>
    retained_on (state_topic discovery_prefix ha) (published s) = Some (hd (publish_state discovery_prefix m ha)) \<and>
    (\<forall>f \<in> fst ` set merged. sensor_topic discovery_prefix ha f \<in> m_topic ` set (published s)))"

lemma notified_reaches_ha:
  assumes "reachable_broker control b" "sink_ok (bridge_of env control) (current_sink (sink_state st))"
    and "view_items [] p = Inr view" "view \<noteq> []" "truthy (get_or p ''modelName'' JNull)"
    and "fst (sink_call (bridge_of env control) dev p (current_sink (sink_state st))) = Inr ()"
  shows "ha_shows (notify (wired env control b) dev p st) (stable_key (py_str (get_or p ''modelName'' JNull))) view"
proof -
  let ?be = "bridge_of env control" and ?ha = "stable_key (py_str (get_or p ''modelName'' JNull))"
  obtain s where call: "sink_call ?be dev p (current_sink (sink_state st)) = (Inr (), s)"
    using assms(6) by (metis prod.collapse)
  have s: "the_sink (sink_state (notify (wired env control b) dev p st)) = Some s"
    using lazy_call_reachable [of ?be b dev p "sink_state st"] assms(1) call
    by (auto simp: notify_def wired_def bridge_of_def)
  let ?merged = "merge_view (case map_of (merged_view (current_sink (sink_state st))) ?ha of None \<Rightarrow> [] | Some m \<Rightarrow> m) view"
  have "dict_ok view" using dict_ok_view [OF assms(3)] by simp
  then have "\<forall>f. f \<noteq> ''reserve_countdown'' \<longrightarrow> map_of view f \<noteq> None \<longrightarrow> map_of ?merged f = map_of view f"
    by (auto simp: merge_view_lookup)
  then show ?thesis
    unfolding ha_shows_def using sink_call_current [OF assms(2) call assms(5,3,4) refl refl] s by blast
qed

lemma posted_report_store:
  assumes "endswith path ''/report/diagmon''" "url_path path = path" "read_body cl bs = Inr body"
  shows "sy_store (sys_step su mo (Posted path hs cl bs) s) = snd (ingest_report (live_env su mo) (RBytes body) (sy_store s))"
proof -
  have "\<not> endswith path ''/debug/state''" "\<not> endswith path ''/debug/query''"
    using endswith_last [OF assms(1)] endswith_last [of path "''/debug/state''"] endswith_last [of path "''/debug/query''"] by auto
  then show ?thesis
    using assms by (simp add: posted_def do_post_def with_app_def dispatch_store observe_report_def app_part_def case_prod_beta)
qed

text \<open>
  C2. End to end: in every state the running server can reach, a report that is posted to it and decodes
  to one payload, with the broker reachable, becomes its device's latest state and arrives at Home
  Assistant, whatever mode the server runs in and whatever LG answers.
\<close>

theorem report_reaches_ha:
  assumes "sys_reach su s" "su_mqtt su" "reachable_broker (su_control su) (mo_broker mo)"
    and "endswith path ''/report/diagmon''" "url_path path = path" "read_body cl bs = Inr body"
    and "ingest_report (live_env su mo) (RBytes body) (sy_store s) = (Inr [p], st')" "\<not> is_unknown p"
    and "view_items [] p = Inr view" "view \<noteq> []" "truthy (get_or p ''modelName'' JNull)"
    and "\<And>dev. fst (sink_call (live_bridge su) dev p (current_sink (sink_state (sy_store s)))) = Inr ()"
    and "s' = sys_step su mo (Posted path hs cl bs) s"
  shows "\<exists>dev. map_of p ''devId'' = Some (JStr dev) \<and> map_of (latest (sy_store s')) dev = Some p \<and>
    ha_shows (sy_store s') (stable_key (py_str (get_or p ''modelName'' JNull))) view"
proof -
  let ?env = "(su_base su)\<lparr>now := mo_clock mo, append_ok := mo_log_ok mo\<rparr>"
  note live = live_env_wired [OF assms(2), of mo]
  have s': "sy_store s' = st'" using posted_report_store [OF assms(4-6), of su mo hs s] assms(7,13) by simp
  obtain dev st2 where st: "st' = notify (wired ?env (su_control su) (mo_broker mo)) dev p st2" "sink_state st2 = sink_state (sy_store s)"
      "map_of (latest st2) dev = Some p" "map_of p ''devId'' = Some (JStr dev)"
    using single_report [OF assms(7,8)] unfolding live(1) by blast
  have "sink_ok (bridge_of ?env (su_control su)) (current_sink (sink_state st2))"
    using sys_reach_ok [OF assms(1)] by (simp only: live(2) st(2) sys_ok_def keeps_def sink_in_order_def)
  then have "ha_shows st' (stable_key (py_str (get_or p ''modelName'' JNull))) view"
    unfolding st(1)
    by (rule notified_reaches_ha [OF assms(3) _ assms(9-11)]) (simp_all only: st(2) live(2) assms(12))
  moreover from st have "map_of (latest st') dev = Some p" by (simp add: notify_def wired_def)
  ultimately show ?thesis using st(4) s' by simp
qed

text \<open>
  C3. End to end on the control channel: however TCP cuts a snapshot message of either family, the
  connection's handler stores the decoded state as the device's latest, and it arrives at Home
  Assistant; nothing is answered.
\<close>

theorem pump_reaches_ha:
  assumes "message_ok_by fam m" "encode_by fam m = Inr bs" "concat cs = bs" "[] \<notin> set cs"
    and "device_of m = Some dev" "get_or m ''Body'' (JObj []) = JObj body" "is_pump_body body"
    and "b64_of (get_or body ''Data'' JNull) = Some blob" "blob \<noteq> []" "store_wired cenv"
    and "ingest_mondata (wired env control b) (JStr dev) blob (device_store w) = (Inr (Some p), st')"
    and "base_env cenv = wired env control b" "reachable_broker control b"
    and "sink_ok (bridge_of env control) (current_sink (sink_state (device_store w)))"
    and "view_items [] p = Inr view" "view \<noteq> []" "truthy (get_or p ''modelName'' JNull)"
    and "fst (sink_call (bridge_of env control) dev p (current_sink (sink_state (device_store w)))) = Inr ()"
  shows "\<exists>w'. receive_loop cenv sock fam d0 [] (map Data cs) w = (JStr dev, Inr (), w') \<and> sent w' = sent w \<and>
    device_store w' = st' \<and> map_of (latest st') dev = Some p \<and>
    ha_shows st' (stable_key (py_str (get_or p ''modelName'' JNull))) view"
proof -
  let ?w = "w\<lparr>connections := dict_set (connections w) (JStr dev) (sock, fam)\<rparr>"
  have "receive_loop cenv sock fam d0 [] (map Data cs) w = handle_messages cenv sock fam d0 [m] w"
    using receive_loop_messages [OF assms(4), of cenv sock fam d0 "[]" w] reassemble_by [of fam "[m]" "[bs]" cs] assms(1-3)
    by simp
  moreover have "handle_message cenv sock fam d0 m w = (JStr dev, Inr (), ?w\<lparr>device_store := st'\<rparr>)"
    using handle_pump [OF assms(5-7), of cenv sock fam d0 w] assms(8-12) by (simp add: ingest_snapshot_def ingest_blob_def)
  moreover obtain st2 where st: "st' = notify (wired env control b) dev p st2"
      "sink_state st2 = sink_state (device_store w)" "map_of (latest st2) dev = Some p"
    using single_pump [OF assms(11)] by blast
  moreover from st have "map_of (latest st') dev = Some p" by (simp add: notify_def wired_def)
  moreover have "ha_shows st' (stable_key (py_str (get_or p ''modelName'' JNull))) view"
    using notified_reaches_ha [of control b env st2 p view dev] assms(13-18) st by simp
  ultimately show ?thesis by simp
qed

lemma sink_call_quiet_bridge:
  assumes "\<not> commands_on env" "view_items [] p = Inr view"
  shows "fst (sink_call env dev p s) = Inr ()"
  using assms
  by (auto simp: sink_call_def Let_def announce_fields_def publish_commands_def split: prod.splits sum.splits if_splits)

definition sample_idle :: "lazy_sink store" where
  "sample_idle = initial_store\<lparr>the_sink = None, logged_down = False\<rparr>
     \<lparr>mem_cache := [(''WTWN3'', sample_model)], model_by_devid := [(''d1'', ''WTWN3'')]\<rparr>"

abbreviation sample_wired :: "lazy_sink state_env" where
  "sample_wired \<equiv> wired sample_lazy_env False sample_broker"

definition shown_payload :: "jdict \<Rightarrow> bool" where
  "shown_payload p \<longleftrightarrow> \<not> is_unknown p \<and> (case view_items [] p of Inr v \<Rightarrow> v \<noteq> [] | Inl _ \<Rightarrow> False) \<and>
     truthy (get_or p ''modelName'' JNull)"

text \<open>With control off and the sample broker, what remains of the assumptions is on the payload.\<close>

lemma sample_wiring:
  "unsinked sample_wired = sample_lazy_env" "sample_idle\<lparr>sink_state := sink_state sample_idle\<rparr> = sample_idle"
  "reachable_broker False sample_broker"
  "sink_ok (bridge_of sample_lazy_env False) (current_sink (sink_state sample_idle))"
  "view_items [] p = Inr view \<Longrightarrow> fst (sink_call (bridge_of sample_lazy_env False) dev p s) = Inr ()"
  by (simp_all add: unsinked_def wired_def sample_lazy_env_def reachable_broker_def sample_broker_def sample_idle_def
      current_sink_def initial_store_def sink_ok_new sink_call_quiet_bridge bridge_of_def)

definition sample_file :: str where
  \<open>sample_file = ''{"Monitoring":{"type":"BINARY(BYTE)","protocol":[{"value":"Left","startByte":0,"length":1}]}}''\<close>

definition sample_base :: "lazy_sink state_env" where
  "sample_base = sample_lazy_env\<lparr>read_text := (\<lambda>p. if p = ''cache/WTWN3.model.json'' then Inr sample_file else Inl OSError)\<rparr>"

theorem report_reaches_ha_witness:
  "\<exists>p view. view_items [] p = Inr view \<and> view \<noteq> [] \<and>
     ha_shows (sy_store (sys_step (sample_deployment\<lparr>su_base := sample_base\<rparr>) sample_moment
        (Posted ''/report/diagmon'' [] (Some ''9'') ''<Report/>'') sample_boot))
       (stable_key (py_str (get_or p ''modelName'' JNull))) view"
proof -
  let ?su = "sample_deployment\<lparr>su_base := sample_base\<rparr>"
  let ?env = "live_env ?su sample_moment"
  have idle: "sy_store sample_boot = initial_store \<lparr>the_sink = None, logged_down = False\<rparr>"
    by (simp add: sample_boot_def booted_def)
  have "case fst (ingest_report sample_base (RBytes ''<Report/>'') (initial_store \<lparr>the_sink = None, logged_down = False\<rparr>)) of
      Inr [p] \<Rightarrow> shown_payload p | _ \<Rightarrow> False"
    by code_simp
  then obtain p st0 view where quiet: "ingest_report sample_base (RBytes ''<Report/>'') (sy_store sample_boot) = (Inr [p], st0)"
    and p: "\<not> is_unknown p" "view_items [] p = Inr view" "view \<noteq> []" "truthy (get_or p ''modelName'' JNull)"
    unfolding idle
    by (cases "ingest_report sample_base (RBytes ''<Report/>'') (initial_store \<lparr>the_sink = None, logged_down = False\<rparr>)")
      (auto simp: shown_payload_def split: sum.splits list.splits)
  have env: "unsinked ?env = sample_base"
    by (simp add: unsinked_def live_env_def sample_deployment_def sample_moment_def sample_base_def sample_lazy_env_def)
  obtain res st' where r: "ingest_report ?env (RBytes ''<Report/>'') (sy_store sample_boot) = (res, st')" by fastforce
  have "res = Inr [p]"
    using ingest_report_quiet [OF r, of "sink_state (sy_store sample_boot)"] quiet by (simp add: env)
  moreover have "endswith ''/report/diagmon'' ''/report/diagmon''" "url_path ''/report/diagmon'' = ''/report/diagmon''"
    "read_body (Some ''9'') ''<Report/>'' = Inr ''<Report/>''" by code_simp+
  moreover have "fst (sink_call (live_bridge ?su) dev p (current_sink (sink_state (sy_store sample_boot)))) = Inr ()" for dev
    using sink_call_quiet_bridge p(2) by (simp add: sample_deployment_def)
  ultimately show ?thesis
    using report_reaches_ha [OF sample_boot_reached, of ?su sample_moment "''/report/diagmon''" "Some ''9''" "''<Report/>''"
        "''<Report/>''" p st' view _ "[]"] r p
    by (auto simp: sample_deployment_def sample_moment_def reachable_broker_def sample_broker_def)
qed

definition sample_chan :: "lazy_sink chan_env" where
  "sample_chan = state_env.extend sample_wired \<lparr>allow_control = False, store_wired = True, send_ok = (\<lambda>s b. True)\<rparr>"

definition sample_net :: "lazy_sink world" where
  "sample_net = \<lparr>connections = [], cmd_counter = 0, sent = [], device_store = sample_idle\<rparr>"

lemma sample_pump_parts:
  "device_of sample_pump = Some ''d1''" "get_or sample_pump ''Body'' (JObj []) = JObj [(''Format'', JStr ''B64''), (''Data'', JStr ''BgA='')]"
  "is_pump_body [(''Format'', JStr ''B64''), (''Data'', JStr ''BgA='')]"
  "b64_of (get_or [(''Format'', JStr ''B64''), (''Data'', JStr ''BgA='')] ''Data'' JNull) = Some [byte_of 6, byte_of 0]"
  by (simp_all add: sample_pump_def device_of_def get_or_def is_pump_body_def, code_simp)

lemma sample_pump_decoded:
  obtains p view st' where "ingest_mondata sample_wired (JStr ''d1'') [byte_of 6, byte_of 0] sample_idle = (Inr (Some p), st')"
    "view_items [] p = Inr view" "view \<noteq> []" "truthy (get_or p ''modelName'' JNull)"
proof -
  let ?blob = "[byte_of 6, byte_of 0]"
  have "case fst (ingest_mondata sample_lazy_env (JStr ''d1'') ?blob sample_idle) of Inr (Some p) \<Rightarrow> shown_payload p | _ \<Rightarrow> False"
    by code_simp
  then obtain p st0 view where quiet: "ingest_mondata sample_lazy_env (JStr ''d1'') ?blob sample_idle = (Inr (Some p), st0)"
    and p: "view_items [] p = Inr view" "view \<noteq> []" "truthy (get_or p ''modelName'' JNull)"
    by (cases "ingest_mondata sample_lazy_env (JStr ''d1'') ?blob sample_idle") (auto simp: shown_payload_def split: sum.splits option.splits)
  obtain res st' where r: "ingest_mondata sample_wired (JStr ''d1'') ?blob sample_idle = (res, st')" by fastforce
  have "res = Inr (Some p)" using ingest_mondata_quiet [OF r, of "sink_state sample_idle"] quiet sample_wiring(1,2) by simp
  with that r p show ?thesis by blast
qed

theorem pump_reaches_ha_witness:
  "\<exists>x xs p view w'. encode_by Len4 sample_pump = Inr (x # xs) \<and>
     receive_loop sample_chan 7 Len4 (JStr ''unknown'') [] [Data [x], Data xs] sample_net = (JStr ''d1'', Inr (), w') \<and>
     map_of (latest (device_store w')) ''d1'' = Some p \<and> view_items [] p = Inr view \<and> view \<noteq> [] \<and>
     ha_shows (device_store w') (stable_key (py_str (get_or p ''modelName'' JNull))) view"
proof -
  obtain x y ys where c: "encode_message_len4 sample_pump = Inr (x # y # ys)" by (rule sample_pump_bytes)
  obtain p view st' where i: "ingest_mondata sample_wired (JStr ''d1'') [byte_of 6, byte_of 0] sample_idle = (Inr (Some p), st')"
    and p: "view_items [] p = Inr view" "view \<noteq> []" "truthy (get_or p ''modelName'' JNull)" by (rule sample_pump_decoded)
  have w: "base_env sample_chan = sample_wired" "store_wired sample_chan" "device_store sample_net = sample_idle"
    by (simp_all add: base_env_def sample_chan_def sample_net_def state_env.defs)
  obtain w' where "receive_loop sample_chan 7 Len4 (JStr ''unknown'') [] (map Data [[x], y # ys]) sample_net = (JStr ''d1'', Inr (), w')"
      "device_store w' = st'" "map_of (latest st') ''d1'' = Some p" "ha_shows st' (stable_key (py_str (get_or p ''modelName'' JNull))) view"
    using pump_reaches_ha [of Len4 sample_pump "x # y # ys" "[[x], y # ys]", OF _ _ _ _ sample_pump_parts _ w(2), of sample_lazy_env False
        sample_broker sample_net p st' view 7 "JStr ''unknown''", unfolded w] sample_served(1) c i w(1) p sample_wiring(3-5)
    by auto
  then show ?thesis using c p by auto
qed

section \<open>From Home Assistant to the appliance\<close>

text \<open>
  C5. Whatever Home Assistant sends on whatever topic, after whatever payloads: at most one frame
  is written, only with control on in both the bridge and the channel, on the socket registered
  for a device that reported under the addressed identity, and it is a \<open>Set\<close> of the one value the
  addressed entity of that identity's modelJson gives.
\<close>

theorem ha_command_on_wire:
  "sent (ha_command env (foldl (\<lambda>s e. sink_step benv e s) new_sink es) topic payload w) = sent w \<or>
   (\<exists>dev p ha component sl e wire sock fam wid b. allow_control env \<and> commands_on benv \<and>
     parse_command_topic discovery_prefix topic = Some (ha, component, sl) \<and> (dev, p) \<in> set es \<and>
     stable_key (py_str (get_or p ''modelName'' JNull)) = ha \<and> entities_of benv ha e \<and> e_slug e = sl \<and>
     to_wire e (utf8_replace payload) = Some wire \<and> w_opt wire = JStr ''Set'' \<and> length (w_value wire) = 1 \<and>
     map_of (connections w) (JStr dev) = Some (sock, fam) \<and>
     encode_by fam (make_message (JStr dev) (JStr wid) [(''Cmd'', w_cmd wire), (''CmdOpt'', JStr ''Set''),
       (''Value'', JObj (map (\<lambda>(k, v). (k, JStr v)) (w_value wire))), (''Data'', JStr [])]) = Inr b \<and>
     sent (ha_command env (foldl (\<lambda>s e. sink_step benv e s) new_sink es) topic payload w) = sent w @ [(sock, b)])"
proof (cases "on_message (foldl (\<lambda>s e. sink_step benv e s) new_sink es) topic payload")
  case (Some dw)
  obtain dev wire where dw: "dw = (dev, wire)" by fastforce
  obtain r w' where c: "send_command env (JStr dev) (JObj (map (\<lambda>(k, v). (k, JStr v)) (w_value wire)))
      (w_cmd wire) (w_opt wire) w = (r, w')" by fastforce
  then have w': "ha_command env (foldl (\<lambda>s e. sink_step benv e s) new_sink es) topic payload w = w'"
    using Some dw by (simp add: ha_command_def)
  note v = ha_commands_vetted [OF Some [unfolded dw]]
  from send_command_writes [OF c] show ?thesis
  proof
    assume "sent w' = sent w"
    then show ?thesis by (simp add: w')
  next
    assume "allow_control env \<and> (\<exists>k sock fam wid b. hash_key (JStr dev) = Inr k \<and>
      map_of (connections w) k = Some (sock, fam) \<and>
      encode_by fam (make_message (JStr dev) (JStr wid) [(''Cmd'', w_cmd wire), (''CmdOpt'', w_opt wire),
        (''Value'', JObj (map (\<lambda>(k, v). (k, JStr v)) (w_value wire))), (''Data'', JStr [])]) = Inr b \<and>
      sent w' = sent w @ [(sock, b)])"
    with v show ?thesis unfolding w' by fastforce
  qed
qed (simp add: ha_command_def)

end
